(* ===== verification/Kernel_Prelude.thy ===== *)
theory Kernel_Prelude
  imports Main "HOL-Library.Word" "HOL-Library.Monad_Syntax" "HOL-Library.Code_Target_Nat"
begin

text \<open>
  Shared vocabulary of the development: the machine integer types of the C sources, the
  value of a pointer-sized struct member, the way a stop of the kernel is modelled, and the
  generic facts on lists, bits and powers of two that the component theories use.

  A C function that can stop the kernel (a call of \<open>kpanic\<close>, a failed \<open>kassert\<close>, an access
  through a null, poisoned or out-of-range pointer) is a function into \<open>option\<close>: \<open>None\<close> is
  the stop, and the \<open>do\<close> notation of the option monad runs the statements in order.
  A result \<open>Some\<close> therefore says that no statement on the way panicked or faulted.
\<close>

unbundle bit_operations_syntax

section \<open>Machine integers\<close>

type_synonym u8 = "8 word"
type_synonym u16 = "16 word"
type_synonym u32 = "32 word"
type_synonym u64 = "64 word"

section \<open>Pointer-sized values\<close>

text \<open>
  The content of a pointer-sized member of a heap structure. \<open>Ref a\<close> points to the node
  \<open>a\<close>, \<open>Null\<close> is the null pointer, \<open>Poison\<close> is the value \<open>0xDEADBEEF\<close> that the list code
  leaves in an unlinked node, and \<open>Raw w\<close> is an integer stored through another member of the
  same union.
\<close>

datatype 'a ptr = Null | Poison | Ref 'a | Raw u64

lemma ptr_not_Null_Ref [simp]: "Ref a \<noteq> Null" "Null \<noteq> Ref a"
  by simp_all

section \<open>Stopping the kernel\<close>

text \<open>The \<open>kassert\<close> macro: continue when the condition holds, panic otherwise.\<close>

definition kassert :: "bool \<Rightarrow> unit option" where
  "kassert c = (if c then Some () else None)"

lemma kassert_simps [simp]: "kassert True = Some ()" "kassert False = None"
  by (simp_all add: kassert_def)

lemma kassert_eq_Some [simp]: "kassert c = Some u \<longleftrightarrow> c"
  by (simp add: kassert_def)

section \<open>Collections\<close>

named_theorems buddy_simps \<open>unfolding and projection facts of the frame allocator\<close>
named_theorems heap_simps \<open>reading a linked heap after an update\<close>

section \<open>Lists\<close>

lemma remove1_decomp:
  assumes "distinct xs" "x \<in> set xs"
  obtains ys zs where "xs = ys @ x # zs" "remove1 x xs = ys @ zs"
    "x \<notin> set ys" "x \<notin> set zs"
proof -
  from assms(2) obtain ys zs where eq: "xs = ys @ x # zs" and ny: "x \<notin> set ys"
    by (meson split_list_first)
  have nz: "x \<notin> set zs" using assms(1) eq by auto
  have "remove1 x xs = ys @ zs" using eq ny by (simp add: remove1_append)
  with eq show thesis using ny nz by (rule that)
qed

text \<open>Bounded quantifiers as list traversals, for evaluating them on concrete states.\<close>

lemma all_less_upt: "(\<forall>n<m. P n) = list_all P [0..<m]"
  by (auto simp: list_all_iff)

lemma all_le_upt: "(\<forall>n\<le>m. P n) = list_all P [0..<Suc m]"
  by (auto simp: list_all_iff less_Suc_eq_le)

section \<open>Powers of two\<close>

lemma pow2_dvd_mono: "m \<le> n \<Longrightarrow> (2::nat) ^ m dvd 2 ^ n"
  by (simp add: le_imp_power_dvd)

text \<open>Flipping bit \<open>k\<close> of a multiple of \<open>2 ^ k\<close> moves between the two halves of its pair.\<close>

lemma xor_pow2_even: "(p::nat) XOR 2 ^ k = p + 2 ^ k" if "2 ^ Suc k dvd p"
proof -
  have "\<not> bit p k" using that by (auto simp: bit_iff_odd elim!: dvdE)
  then have "p AND 2 ^ k = 0"
    by (intro bit_eqI) (auto simp: bit_and_iff bit_exp_iff)
  then show ?thesis by (simp add: disjunctive_xor_eq_or disjunctive_add_eq_or)
qed

lemma xor_pow2_odd: "(p::nat) XOR 2 ^ k = p - 2 ^ k" if "2 ^ k dvd p" "\<not> 2 ^ Suc k dvd p"
proof -
  from that(1) obtain j where j: "p = 2 ^ k * j" by (elim dvdE)
  have "odd j" using that(2) j by (auto elim!: evenE)
  then obtain i where i: "j = 2 * i + 1" by (elim oddE)
  have p: "p = 2 ^ Suc k * i + 2 ^ k" using j i by (simp add: algebra_simps)
  have "(2 ^ Suc k * i) XOR 2 ^ k = 2 ^ Suc k * i + 2 ^ k" by (rule xor_pow2_even) simp
  then have "p XOR 2 ^ k = 2 ^ Suc k * i" using p by (metis xor.assoc xor.right_neutral xor_self_eq)
  then show ?thesis using p by simp
qed

section \<open>Single bits of a byte\<close>

lemma and_7_mod_8: "n AND 7 = n mod (8::nat)"
  using take_bit_eq_mask [of 3 n] by (simp add: take_bit_eq_mod mask_eq_exp_minus_1)

lemma drop_bit_3_div_8: "drop_bit 3 n = n div (8::nat)"
  by (simp add: drop_bit_eq_div)

lemma byte_bit_read: "drop_bit k (w AND push_bit k 1) = of_bool (bit w k)" if "k < 8" for w :: u8
  using that by (intro bit_eqI) (auto simp: bit_simps)

lemma byte_bit_flip:
  "bit (w XOR 2 ^ k) j = (if j = k then \<not> bit w k else bit w j)" if "k < 8" for w :: u8
  using that by (auto simp: bit_simps)

end
