(* ===== verification/Linked_Lists.thy ===== *)
theory Linked_Lists
  imports Kernel_Prelude
begin

text \<open>
  Doubly linked lists threaded through two members of a heap structure. The kernel has the
  same idiom in the page free lists, the slab lists, the run queues, the event subscriber
  lists and the NVMe cache; this theory holds the abstraction relation and the locale of a
  heap with two link members, with the effect of the common link and unlink sequences proved
  once. \<open>dlist nx pv h b xs\<close> says that \<open>h\<close> points to the first node of the null-terminated
  chain \<open>xs\<close>, that the first node's back link holds \<open>b\<close>, and that the back link of every other
  node points to its predecessor.
\<close>

section \<open>The abstraction relation\<close>

fun dlist :: "('n \<Rightarrow> 'n ptr) \<Rightarrow> ('n \<Rightarrow> 'n ptr) \<Rightarrow> 'n ptr \<Rightarrow> 'n ptr \<Rightarrow> 'n list \<Rightarrow> bool" where
  "dlist nx pv h b [] \<longleftrightarrow> h = Null"
| "dlist nx pv h b (x # xs) \<longleftrightarrow> h = Ref x \<and> pv x = b \<and> dlist nx pv (nx x) (Ref x) xs"

lemma dlist_cong:
  assumes "\<And>x. x \<in> set xs \<Longrightarrow> nx x = nx' x \<and> pv x = pv' x"
  shows "dlist nx pv h b xs = dlist nx' pv' h b xs"
  using assms by (induction xs arbitrary: h b) auto

lemma dlist_Null [simp]: "dlist nx pv Null b xs \<longleftrightarrow> xs = []"
  by (cases xs) auto

lemma dlist_head: "dlist nx pv h b xs \<Longrightarrow> h = (if xs = [] then Null else Ref (hd xs))"
  by (cases xs) auto

lemma dlist_RefD: "dlist nx pv (Ref x) b xs \<Longrightarrow> \<exists>ys. xs = x # ys"
  by (cases xs) auto

lemma dlist_unique: "dlist nx pv h b xs \<Longrightarrow> dlist nx pv h b' ys \<Longrightarrow> xs = ys"
proof (induction xs arbitrary: h b b' ys)
  case Nil
  then show ?case by simp
next
  case (Cons x xs)
  then obtain zs where "ys = x # zs" by (auto dest: dlist_RefD)
  with Cons show ?case by auto
qed

lemma dlist_suffix:
  "dlist nx pv h b (xs @ ys) \<Longrightarrow>
   \<exists>h'. dlist nx pv h' (if xs = [] then b else Ref (last xs)) ys \<and> (xs \<noteq> [] \<longrightarrow> h' = nx (last xs))"
  by (induction xs arbitrary: h b) (auto split: if_splits)

lemma dlist_node:
  assumes "dlist nx pv h b (ys @ x # zs)"
  shows "pv x = (if ys = [] then b else Ref (last ys))"
    and "nx x = (if zs = [] then Null else Ref (hd zs))"
    and "dlist nx pv (nx x) (Ref x) zs"
proof -
  from dlist_suffix [OF assms] show "pv x = (if ys = [] then b else Ref (last ys))"
    by auto
  from dlist_suffix [OF assms] show "dlist nx pv (nx x) (Ref x) zs" by auto
  then show "nx x = (if zs = [] then Null else Ref (hd zs))" by (rule dlist_head)
qed

lemma dlist_distinct: "dlist nx pv h b xs \<Longrightarrow> distinct xs"
proof (induction xs arbitrary: h b)
  case Nil
  then show ?case by simp
next
  case (Cons x xs)
  have "x \<notin> set xs"
  proof
    assume "x \<in> set xs"
    then obtain as bs where xs: "xs = as @ x # bs" by (meson split_list)
    have tail: "dlist nx pv (nx x) (Ref x) xs" using Cons.prems by simp
    have "dlist nx pv (nx x) (Ref x) bs"
      using tail unfolding xs by (rule dlist_node(3))
    with tail have "xs = bs" by (rule dlist_unique)
    with xs show False by simp
  qed
  with Cons show ?case by auto
qed

lemma dlist_unlink:
  assumes "dlist nx pv h b (ys @ x # zs)" "distinct (ys @ x # zs)"
    and "\<And>y. y \<in> set (ys @ zs) \<Longrightarrow> nx' y = (if ys \<noteq> [] \<and> y = last ys then nx x else nx y)"
    and "\<And>y. y \<in> set (ys @ zs) \<Longrightarrow> pv' y = (if zs \<noteq> [] \<and> y = hd zs then pv x else pv y)"
  shows "dlist nx' pv' (if ys = [] then nx x else h) b (ys @ zs)"
  using assms
proof (induction ys arbitrary: h b)
  case Nil
  show ?case
  proof (cases zs)
    case Nil
    with \<open>dlist nx pv h b ([] @ x # zs)\<close> show ?thesis by simp
  next
    case (Cons z zs')
    have "dlist nx pv (nx z) (Ref z) zs'" using Nil.prems(1) Cons by simp
    moreover have "\<And>y. y \<in> set zs' \<Longrightarrow> nx y = nx' y \<and> pv y = pv' y"
      using Nil.prems Cons by auto
    moreover have "nx z = nx' z" using Nil.prems(3) [of z] Cons by simp
    ultimately have "dlist nx' pv' (nx' z) (Ref z) zs'"
      by (metis dlist_cong)
    moreover have "nx x = Ref z" "pv' z = b" using Nil.prems Cons by auto
    ultimately show ?thesis using Cons by simp
  qed
next
  case (Cons y ys)
  have h: "h = Ref y" and pvy: "pv y = b" and tl: "dlist nx pv (nx y) (Ref y) (ys @ x # zs)"
    using Cons.prems(1) by simp_all
  have "dlist nx' pv' (if ys = [] then nx x else nx y) (Ref y) (ys @ zs)"
  proof (rule Cons.IH [OF tl])
    show "distinct (ys @ x # zs)" using Cons.prems(2) by simp
    show "nx' u = (if ys \<noteq> [] \<and> u = last ys then nx x else nx u)" if "u \<in> set (ys @ zs)" for u
      using Cons.prems(3) [of u] Cons.prems(2) that by (auto split: if_splits)
    show "pv' u = (if zs \<noteq> [] \<and> u = hd zs then pv x else pv u)" if "u \<in> set (ys @ zs)" for u
      using Cons.prems(4) [of u] that by auto
  qed
  moreover have "nx' y = (if ys = [] then nx x else nx y)"
    using Cons.prems(3) [of y] Cons.prems(2) by auto
  moreover have "pv' y = b"
  proof -
    have "\<not> (zs \<noteq> [] \<and> y = hd zs)" using Cons.prems(2) by (auto dest: hd_in_set)
    then show ?thesis using Cons.prems(4) [of y] pvy by auto
  qed
  ultimately show ?case using h by simp
qed

lemma dlist_push_back:
  assumes "dlist nx pv h b xs" "x \<notin> set xs" "xs \<noteq> []"
    and "\<And>y. y \<in> set xs \<Longrightarrow> nx' y = (if y = last xs then Ref x else nx y) \<and> pv' y = pv y"
    and "nx' x = Null" "pv' x = Ref (last xs)"
  shows "dlist nx' pv' h b (xs @ [x])"
  using assms
proof (induction xs arbitrary: h b)
  case Nil
  then show ?case by simp
next
  case (Cons y ys)
  show ?case
  proof (cases "ys = []")
    case True
    with Cons.prems show ?thesis by auto
  next
    case False
    have "dlist nx' pv' (nx y) (Ref y) (ys @ [x])"
    proof (rule Cons.IH)
      show "dlist nx pv (nx y) (Ref y) ys" using Cons.prems(1) by simp
      show "nx' u = (if u = last ys then Ref x else nx u) \<and> pv' u = pv u" if "u \<in> set ys" for u
        using Cons.prems(4) [of u] that False by auto
    qed (use Cons.prems False in auto)
    moreover have "y \<noteq> last ys"
      using dlist_distinct [OF Cons.prems(1)] False by auto
    then have "nx' y = nx y" "pv' y = pv y"
      using Cons.prems(4) [of y] False by auto
    ultimately show ?thesis using Cons.prems(1) by simp
  qed
qed

section \<open>Heaps with two link members\<close>

text \<open>
  The interface of a heap whose nodes carry a forward and a back link: reading a link after
  a write of either link, for valid nodes. The lemmas are the effects of the statement
  sequences that the kernel's list code runs.
\<close>

locale link_heap =
  fixes valid :: "'h \<Rightarrow> 'n \<Rightarrow> bool"
    and nx :: "'h \<Rightarrow> 'n \<Rightarrow> 'n ptr"
    and pv :: "'h \<Rightarrow> 'n \<Rightarrow> 'n ptr"
    and set_nx :: "'h \<Rightarrow> 'n \<Rightarrow> 'n ptr \<Rightarrow> 'h"
    and set_pv :: "'h \<Rightarrow> 'n \<Rightarrow> 'n ptr \<Rightarrow> 'h"
  assumes nx_set_nx: "valid h x \<Longrightarrow> nx (set_nx h x v) = (nx h)(x := v)"
    and pv_set_nx: "valid h x \<Longrightarrow> pv (set_nx h x v) = pv h"
    and nx_set_pv: "valid h x \<Longrightarrow> nx (set_pv h x v) = nx h"
    and pv_set_pv: "valid h x \<Longrightarrow> pv (set_pv h x v) = (pv h)(x := v)"
    and valid_set_nx: "valid (set_nx h x v) = valid h"
    and valid_set_pv: "valid (set_pv h x v) = valid h"
begin

lemmas link_laws = nx_set_nx pv_set_nx nx_set_pv pv_set_pv valid_set_nx valid_set_pv

lemma push_front:
  assumes "dlist (nx h) (pv h) f Null xs" "x \<notin> set xs" "valid h x" "\<forall>y \<in> set xs. valid h y"
    and "h1 = set_nx (set_pv h x Null) x f"
    and "h2 = (case f of Ref y \<Rightarrow> set_pv h1 y (Ref x) | _ \<Rightarrow> h1)"
  shows "dlist (nx h2) (pv h2) (Ref x) Null (x # xs)"
proof (cases xs)
  case Nil
  with assms show ?thesis by (simp add: link_laws)
next
  case (Cons y ys)
  then have f: "f = Ref y" and vy: "valid h y" using assms by auto
  have nx2: "nx h2 = (nx h)(x := Ref y)" and pv2: "pv h2 = (pv h)(x := Null, y := Ref x)"
    using assms f vy by (simp_all add: link_laws)
  have "y \<notin> set ys" using dlist_distinct [OF assms(1)] Cons by simp
  then have "dlist (nx h2) (pv h2) (nx h y) (Ref y) ys = dlist (nx h) (pv h) (nx h y) (Ref y) ys"
    using assms(2) Cons by (intro dlist_cong) (auto simp: nx2 pv2)
  with assms(1,2) Cons show ?thesis by (auto simp: nx2 pv2)
qed

lemma unlink:
  assumes "dlist (nx h) (pv h) f Null xs" "x \<in> set xs" "\<forall>y \<in> set xs. valid h y"
    and "h1 = (case pv h x of Ref p \<Rightarrow> set_nx h p (nx h x) | _ \<Rightarrow> h)"
    and "h2 = (case nx h1 x of Ref n \<Rightarrow> set_pv h1 n (pv h1 x) | _ \<Rightarrow> h1)"
    and "\<And>y. y \<noteq> x \<Longrightarrow> nx h3 y = nx h2 y \<and> pv h3 y = pv h2 y"
  shows "dlist (nx h3) (pv h3) (if f = Ref x then nx h x else f) Null (remove1 x xs)"
proof -
  have dist: "distinct xs" using assms(1) by (rule dlist_distinct)
  obtain ys zs where xs: "xs = ys @ x # zs" and rm: "remove1 x xs = ys @ zs"
    and ny: "x \<notin> set ys" and nz: "x \<notin> set zs"
    using dist assms(2) by (rule remove1_decomp)
  note node = dlist_node [OF assms(1) [unfolded xs]]
  have vx: "valid h x" and vl: "ys \<noteq> [] \<Longrightarrow> valid h (last ys)" and vh: "zs \<noteq> [] \<Longrightarrow> valid h (hd zs)"
    using assms(3) xs by auto
  have lx: "ys \<noteq> [] \<Longrightarrow> last ys \<noteq> x" using ny by (metis last_in_set)
  have hx: "zs \<noteq> [] \<Longrightarrow> hd zs \<noteq> x" using nz by (metis hd_in_set)
  have nx1: "nx h1 = (if ys = [] then nx h else (nx h)(last ys := nx h x))"
    and pv1: "pv h1 = pv h" and va1: "valid h1 = valid h"
    using assms(4) node vl by (auto simp: link_laws)
  have nx1x: "nx h1 x = nx h x" using nx1 lx by auto
  have nx2: "nx h2 = nx h1" and pv2: "pv h2 = (if zs = [] then pv h else (pv h)(hd zs := pv h x))"
    using assms(5) node nx1x pv1 va1 vh by (auto simp: link_laws)
  have f_eq: "(if f = Ref x then nx h x else f) = (if ys = [] then nx h x else f)"
    using assms(1) xs ny by (cases ys) auto
  have "dlist (nx h3) (pv h3) (if ys = [] then nx h x else f) Null (ys @ zs)"
  proof (rule dlist_unlink [OF assms(1) [unfolded xs] dist [unfolded xs]])
    fix y assume "y \<in> set (ys @ zs)"
    then have "y \<noteq> x" using ny nz by auto
    then show "nx h3 y = (if ys \<noteq> [] \<and> y = last ys then nx h x else nx h y)"
      and "pv h3 y = (if zs \<noteq> [] \<and> y = hd zs then pv h x else pv h y)"
      using assms(6) by (auto simp: nx2 nx1 pv2)
  qed
  with f_eq rm show ?thesis by simp
qed

lemma pop_front:
  assumes "dlist (nx h) (pv h) (Ref x) Null (x # xs)" "\<forall>y \<in> set (x # xs). valid h y"
    and "h1 = (case nx h x of Ref n \<Rightarrow> set_pv h n Null | _ \<Rightarrow> h)"
    and "\<And>y. y \<noteq> x \<Longrightarrow> nx h2 y = nx h1 y \<and> pv h2 y = pv h1 y"
  shows "dlist (nx h2) (pv h2) (nx h x) Null xs"
proof (cases xs)
  case Nil
  with assms show ?thesis by simp
next
  case (Cons y ys)
  have dist: "distinct (x # y # ys)" using dlist_distinct [OF assms(1)] Cons by simp
  have nxx: "nx h x = Ref y" and vy: "valid h y" using assms(1,2) Cons by auto
  have nx1: "nx h1 = nx h" and pv1: "pv h1 = (pv h)(y := Null)"
    using assms(3) nxx vy by (simp_all add: link_laws)
  have eqs: "nx h2 u = nx h u \<and> pv h2 u = ((pv h)(y := Null)) u" if "u \<noteq> x" for u
    using assms(4) [OF that] by (simp add: nx1 pv1)
  have "dlist (nx h2) (pv h2) (nx h y) (Ref y) ys = dlist (nx h) (pv h) (nx h y) (Ref y) ys"
  proof (rule dlist_cong)
    fix u assume "u \<in> set ys"
    then have "u \<noteq> x" "u \<noteq> y" using dist by auto
    then show "nx h2 u = nx h u \<and> pv h2 u = pv h u" using eqs [of u] by simp
  qed
  moreover have "dlist (nx h) (pv h) (nx h y) (Ref y) ys" using assms(1) Cons by simp
  ultimately show ?thesis using eqs [of y] dist nxx Cons by auto
qed

end

end
