(* ===== verification/Frame_Alloc.thy ===== *)
theory Frame_Alloc
  imports Linked_Lists
begin

text \<open>
  The physical page allocator, \<open>kernel/src/mm/frame_alloc.c\<close> and
  \<open>kernel/include/frame_alloc.h\<close>, in its configured variant (\<open>MUNKOS_CONFIG_BUDDY\<close>): the
  \<open>struct page\<close> table, the conversions between page pointers, indices, sizes and orders, the
  free list primitives, the pair bitmaps, and the buddy operations.

  A \<open>struct page *\<close> is the index of the entry of the \<open>pages\<close> table it points to, so
  \<open>phys2page\<close> is a division and \<open>page2idx\<close> the range check that panics. Page indices and
  orders are natural numbers: a page index is below \<open>pages_count = high / PAGE_SIZE < 2 ^ 52\<close>,
  so the index arithmetic of the allocator cannot leave 64 bits. The statistics counters are
  64-bit words. Each operation runs under \<open>buddy_allocator.this_lock\<close> and is one atomic
  step here; the lock itself is the subject of the theory of locks.
\<close>

section \<open>Constants and data\<close>

definition BUDDY_HIGH_ORDER :: nat where
  "BUDDY_HIGH_ORDER = 10"

definition PAGE_SIZE :: nat where
  "PAGE_SIZE = 0x1000"

definition PAGE_SHIFT :: nat where
  "PAGE_SHIFT = 12"

text \<open>
  \<open>struct page\<close>. The anonymous union begins with one pointer-sized word that is \<open>next\<close>,
  \<open>slab_next\<close>, \<open>order\<close> and \<open>comp_head\<close> at once; it is the single member \<open>link0\<close>. The second
  word, \<open>prev\<close> and \<open>slab_prev\<close>, is \<open>link1\<close>. The remaining members belong to the slab view
  only.
\<close>

record page =
  pflags :: u32
  link0 :: "nat ptr"
  link1 :: "nat ptr"
  this_cache :: "nat option"
  freelist :: nat
  used_objs :: u16
  total_objs :: u16

type_synonym page_heap = "page list"
type_synonym page_ptr = "nat ptr"

record buddy_zone =
  bitmap :: "u8 list"
  zone_list :: page_ptr

record buddy_context =
  allocation_count :: u64
  deallocation_count :: u64
  orders :: "buddy_zone list"

record frame_state =
  pages :: page_heap
  frame_allocator_total :: u64
  frame_allocator_usable :: u64
  frame_allocator_free :: u64
  buddy_allocator :: buddy_context

record phys_mem_stat =
  total_pages :: u64
  usable_pages :: u64
  free_pages :: u64

section \<open>Conversions\<close>

definition phys2page :: "nat \<Rightarrow> page_ptr" where
  "phys2page phys = Ref (phys div PAGE_SIZE)"

definition page2idx :: "page_heap \<Rightarrow> page_ptr \<Rightarrow> nat option" where
  "page2idx h p =
     (case p of Ref i \<Rightarrow> if i < length h then Some i else None | _ \<Rightarrow> None)"

definition page2phys :: "page_heap \<Rightarrow> page_ptr \<Rightarrow> nat option" where
  "page2phys h p = map_option (push_bit PAGE_SHIFT) (page2idx h p)"

text \<open>
  The two logarithm loops. \<open>psize2order\<close> counts the halvings until at most one page is left,
  \<open>size2order\<close> those until at most one unit is left. Both shift a 64-bit \<open>size_t\<close>; on
  natural numbers below \<open>2 ^ 64\<close> a right shift by one is the division by two.
\<close>

fun psize2order_loop :: "nat \<Rightarrow> nat \<Rightarrow> nat" where
  "psize2order_loop sz order =
     (if PAGE_SIZE < sz then psize2order_loop (sz div 2) (Suc order) else order)"

definition psize2order :: "nat \<Rightarrow> nat" where
  "psize2order sz = psize2order_loop sz 0"

fun size2order_loop :: "nat \<Rightarrow> nat \<Rightarrow> nat" where
  "size2order_loop sz order =
     (if 1 < sz then size2order_loop (sz div 2) (Suc order) else order)"

definition size2order :: "nat \<Rightarrow> nat" where
  "size2order sz = size2order_loop sz 0"

declare psize2order_loop.simps [simp del] size2order_loop.simps [simp del]

definition order2size :: "nat \<Rightarrow> nat" where
  "order2size order = push_bit order 1"

section \<open>Free list primitives\<close>

text \<open>Access to the link words of the page a pointer points to.\<close>

definition get0 :: "page_heap \<Rightarrow> page_ptr \<Rightarrow> page_ptr option" where
  "get0 h p = (case p of Ref i \<Rightarrow> if i < length h then Some (link0 (h ! i)) else None | _ \<Rightarrow> None)"

definition get1 :: "page_heap \<Rightarrow> page_ptr \<Rightarrow> page_ptr option" where
  "get1 h p = (case p of Ref i \<Rightarrow> if i < length h then Some (link1 (h ! i)) else None | _ \<Rightarrow> None)"

definition put0 :: "page_heap \<Rightarrow> page_ptr \<Rightarrow> page_ptr \<Rightarrow> page_heap option" where
  "put0 h p v =
     (case p of Ref i \<Rightarrow> if i < length h then Some (h[i := (h ! i)\<lparr>link0 := v\<rparr>]) else None | _ \<Rightarrow> None)"

definition put1 :: "page_heap \<Rightarrow> page_ptr \<Rightarrow> page_ptr \<Rightarrow> page_heap option" where
  "put1 h p v =
     (case p of Ref i \<Rightarrow> if i < length h then Some (h[i := (h ! i)\<lparr>link1 := v\<rparr>]) else None | _ \<Rightarrow> None)"

text \<open>The list code takes the address of the head pointer; here it takes and returns its value.\<close>

definition list_link :: "page_heap \<Rightarrow> page_ptr \<Rightarrow> page_ptr \<Rightarrow> (page_heap \<times> page_ptr) option" where
  "list_link h new head = do {
     h1 \<leftarrow> put1 h new Null;
     h2 \<leftarrow> put0 h1 new head;
     h3 \<leftarrow> (if head \<noteq> Null then put1 h2 head new else Some h2);
     Some (h3, new)
   }"

definition list_unlink :: "page_heap \<Rightarrow> page_ptr \<Rightarrow> page_ptr \<Rightarrow> (page_heap \<times> page_ptr) option" where
  "list_unlink h entry head = do {
     kassert (head \<noteq> Null);
     head' \<leftarrow> (if head = entry then get0 h entry else Some head);
     p \<leftarrow> get1 h entry;
     h1 \<leftarrow> (if p \<noteq> Null then do { n \<leftarrow> get0 h entry; put0 h p n } else Some h);
     n \<leftarrow> get0 h1 entry;
     h2 \<leftarrow> (if n \<noteq> Null then do { p' \<leftarrow> get1 h1 entry; put1 h1 n p' } else Some h1);
     h3 \<leftarrow> put1 h2 entry Poison;
     h4 \<leftarrow> put0 h3 entry Poison;
     Some (h4, head')
   }"

definition list_get :: "page_heap \<Rightarrow> page_ptr \<Rightarrow> (page_heap \<times> page_ptr \<times> page_ptr) option" where
  "list_get h head =
     (if head = Null then Some (h, head, Null)
      else do {
        head' \<leftarrow> get0 h head;
        h1 \<leftarrow> (if head' \<noteq> Null then put1 h head' Null else Some h);
        h2 \<leftarrow> put0 h1 head Poison;
        h3 \<leftarrow> put1 h2 head Poison;
        Some (h3, head', head)
      })"

section \<open>Pair bitmaps\<close>

definition bitmap_flip :: "nat \<Rightarrow> u8 list \<Rightarrow> u8 list option" where
  "bitmap_flip n bm =
     (let byte_idx = drop_bit 3 n; bit_idx = n AND 7
      in if byte_idx < length bm
         then Some (bm[byte_idx := bm ! byte_idx XOR push_bit bit_idx 1]) else None)"

definition bitmap_status :: "nat \<Rightarrow> u8 list \<Rightarrow> u8 option" where
  "bitmap_status n bm =
     (let byte_idx = drop_bit 3 n; bit_idx = n AND 7
      in if byte_idx < length bm
         then Some (drop_bit bit_idx (bm ! byte_idx AND push_bit bit_idx 1)) else None)"

definition order_flip_at :: "nat \<Rightarrow> nat \<Rightarrow> buddy_zone list \<Rightarrow> buddy_zone list option" where
  "order_flip_at n order zs =
     (if order < length zs
      then do {
        bm \<leftarrow> bitmap_flip (drop_bit (order + 1) n) (bitmap (zs ! order));
        Some (zs[order := (zs ! order)\<lparr>bitmap := bm\<rparr>])
      } else None)"

definition order_status_at :: "nat \<Rightarrow> nat \<Rightarrow> buddy_zone list \<Rightarrow> u8 option" where
  "order_status_at n order zs =
     (if order < length zs
      then bitmap_status (drop_bit (order + 1) n) (bitmap (zs ! order)) else None)"

section \<open>Orders and buddies\<close>

function alignment_order_loop :: "nat \<Rightarrow> nat \<Rightarrow> nat" where
  "alignment_order_loop address order =
     (if address AND 1 = 0 \<and> order < BUDDY_HIGH_ORDER
      then alignment_order_loop (address div 2) (Suc order) else order)"
  by pat_completeness auto
termination
  by (relation "measure (\<lambda>(_, order). BUDDY_HIGH_ORDER - order)") auto

declare alignment_order_loop.simps [simp del]

definition get_alignment_order :: "nat \<Rightarrow> nat" where
  "get_alignment_order address = alignment_order_loop (address div 4096) 0"

definition get_buddy :: "page_heap \<Rightarrow> page_ptr \<Rightarrow> nat \<Rightarrow> page_ptr option" where
  "get_buddy h page order = do {
     address \<leftarrow> page2idx h page;
     Some (phys2page ((address XOR order2size order) * PAGE_SIZE))
   }"

fun slice_range_loop :: "nat \<Rightarrow> nat \<Rightarrow> nat" where
  "slice_range_loop sz order =
     (if sz div 2 \<noteq> 0 \<and> order < BUDDY_HIGH_ORDER
      then slice_range_loop (sz div 2) (Suc order) else order)"

declare slice_range_loop.simps [simp del]

definition slice_range :: "nat \<Rightarrow> nat \<Rightarrow> nat" where
  "slice_range low high =
     (let high' = min high (low + order2size (get_alignment_order low) * PAGE_SIZE);
          sz = (high' - low) div PAGE_SIZE
      in slice_range_loop sz 0)"

section \<open>Allocation and release\<close>

text \<open>Writing back the freelist head, or the bitmap, of one order.\<close>

definition set_orders :: "buddy_zone list \<Rightarrow> frame_state \<Rightarrow> frame_state" where
  "set_orders zs s = s\<lparr>buddy_allocator := (buddy_allocator s)\<lparr>orders := zs\<rparr>\<rparr>"

definition zones :: "frame_state \<Rightarrow> buddy_zone list" where
  "zones s = orders (buddy_allocator s)"

definition zone_link :: "page_ptr \<Rightarrow> nat \<Rightarrow> frame_state \<Rightarrow> frame_state option" where
  "zone_link pg order s =
     (if order < length (zones s) then do {
        (h, hd') \<leftarrow> list_link (pages s) pg (zone_list (zones s ! order));
        Some (set_orders ((zones s)[order := (zones s ! order)\<lparr>zone_list := hd'\<rparr>]) (s\<lparr>pages := h\<rparr>))
      } else None)"

definition zone_unlink :: "page_ptr \<Rightarrow> nat \<Rightarrow> frame_state \<Rightarrow> frame_state option" where
  "zone_unlink pg order s =
     (if order < length (zones s) then do {
        (h, hd') \<leftarrow> list_unlink (pages s) pg (zone_list (zones s ! order));
        Some (set_orders ((zones s)[order := (zones s ! order)\<lparr>zone_list := hd'\<rparr>]) (s\<lparr>pages := h\<rparr>))
      } else None)"

definition zone_get :: "nat \<Rightarrow> frame_state \<Rightarrow> (page_ptr \<times> frame_state) option" where
  "zone_get order s =
     (if order < length (zones s) then do {
        (h, hd', pg) \<leftarrow> list_get (pages s) (zone_list (zones s ! order));
        Some (pg, set_orders ((zones s)[order := (zones s ! order)\<lparr>zone_list := hd'\<rparr>]) (s\<lparr>pages := h\<rparr>))
      } else None)"

definition zone_flip :: "page_ptr \<Rightarrow> nat \<Rightarrow> frame_state \<Rightarrow> frame_state option" where
  "zone_flip pg order s = do {
     n \<leftarrow> page2idx (pages s) pg;
     zs \<leftarrow> order_flip_at n order (zones s);
     Some (set_orders zs s)
   }"

definition zone_status :: "page_ptr \<Rightarrow> nat \<Rightarrow> frame_state \<Rightarrow> u8 option" where
  "zone_status pg order s = do {
     n \<leftarrow> page2idx (pages s) pg;
     order_status_at n order (zones s)
   }"

text \<open>The search loop of \<open>buddy_alloc\<close>: the first order with a free block, or \<open>Null\<close>.\<close>

function buddy_find :: "nat \<Rightarrow> frame_state \<Rightarrow> (page_ptr \<times> nat \<times> frame_state) option" where
  "buddy_find order s =
     (if order \<le> BUDDY_HIGH_ORDER then do {
        (pg, s') \<leftarrow> zone_get order s;
        if pg \<noteq> Null then Some (pg, order, s') else buddy_find (Suc order) s'
      } else Some (Null, order, s))"
  by pat_completeness auto
termination
  by (relation "measure (\<lambda>(order, _). Suc BUDDY_HIGH_ORDER - order)") auto

declare buddy_find.simps [simp del]

text \<open>The split loop of \<open>buddy_alloc\<close>, from the order where a block was found down to \<open>cpy_order\<close>.\<close>

fun buddy_split :: "page_ptr \<Rightarrow> nat \<Rightarrow> nat \<Rightarrow> frame_state \<Rightarrow> frame_state option" where
  "buddy_split pg cpy_order 0 s = Some s"
| "buddy_split pg cpy_order (Suc order) s =
     (if cpy_order < Suc order then do {
        buddy \<leftarrow> get_buddy (pages s) pg order;
        st \<leftarrow> zone_status buddy order s;
        kassert (st = 0);
        s1 \<leftarrow> zone_link buddy order s;
        s2 \<leftarrow> zone_flip pg order s1;
        buddy_split pg cpy_order order s2
      } else Some s)"

definition buddy_alloc :: "nat \<Rightarrow> frame_state \<Rightarrow> (page_ptr \<times> frame_state) option" where
  "buddy_alloc order s =
     (if BUDDY_HIGH_ORDER < order then Some (Null, s)
      else do {
        (pg, found, s1) \<leftarrow> buddy_find order s;
        if pg = Null then Some (Null, s1)
        else do {
          s2 \<leftarrow> zone_flip pg found s1;
          s3 \<leftarrow> buddy_split pg order found s2;
          Some (pg, s3\<lparr>frame_allocator_free := frame_allocator_free s3 - of_nat (order2size order),
                       buddy_allocator := (buddy_allocator s3)
                         \<lparr>allocation_count := allocation_count (buddy_allocator s3) + 1\<rparr>\<rparr>)
        }
      })"

text \<open>
  The merge loop of \<open>buddy_free\<close>: it returns the page and the order to link, and the smaller
  of two page pointers is the one with the smaller index.
\<close>

definition min_ptr :: "page_ptr \<Rightarrow> page_ptr \<Rightarrow> page_ptr" where
  "min_ptr p q = (case (p, q) of (Ref i, Ref j) \<Rightarrow> Ref (min i j) | _ \<Rightarrow> p)"

function buddy_merge :: "page_ptr \<Rightarrow> nat \<Rightarrow> frame_state \<Rightarrow> (page_ptr \<times> nat \<times> frame_state) option" where
  "buddy_merge page order s =
     (if order < BUDDY_HIGH_ORDER then do {
        s1 \<leftarrow> zone_flip page order s;
        st \<leftarrow> zone_status page order s1;
        if st \<noteq> 0 then Some (page, order, s1)
        else do {
          buddy \<leftarrow> get_buddy (pages s1) page order;
          s2 \<leftarrow> zone_unlink buddy order s1;
          buddy_merge (min_ptr page buddy) (Suc order) s2
        }
      } else Some (page, order, s))"
  by pat_completeness auto
termination
  by (relation "measure (\<lambda>(_, order, _). BUDDY_HIGH_ORDER - order)") auto

declare buddy_merge.simps [simp del]

definition buddy_free :: "page_ptr \<Rightarrow> nat \<Rightarrow> frame_state \<Rightarrow> frame_state option" where
  "buddy_free page order s = do {
     n \<leftarrow> page2idx (pages s) page;
     kassert (n mod order2size order = 0);
     (pg, top, s1) \<leftarrow> buddy_merge page order s;
     s2 \<leftarrow> zone_link pg top s1;
     Some (s2\<lparr>frame_allocator_free := frame_allocator_free s2 + of_nat (order2size order),
              buddy_allocator := (buddy_allocator s2)
                \<lparr>deallocation_count := deallocation_count (buddy_allocator s2) + 1\<rparr>\<rparr>)
   }"

section \<open>The exported interface\<close>

definition page_alloc :: "nat \<Rightarrow> frame_state \<Rightarrow> (page_ptr \<times> frame_state) option" where
  "page_alloc order s = buddy_alloc order s"

definition page_alloc_temp :: "nat \<Rightarrow> frame_state \<Rightarrow> (nat \<times> frame_state) option" where
  "page_alloc_temp order s = do {
     (pg, s') \<leftarrow> buddy_alloc order s;
     kassert (pg \<noteq> Null);
     n \<leftarrow> page2idx (pages s') pg;
     Some (n * PAGE_SIZE, s')
   }"

definition page_free :: "page_ptr \<Rightarrow> nat \<Rightarrow> frame_state \<Rightarrow> frame_state option" where
  "page_free page order s = buddy_free page order s"

definition page_free_temp :: "nat \<Rightarrow> nat \<Rightarrow> frame_state \<Rightarrow> frame_state option" where
  "page_free_temp address sz s = page_free (phys2page address) (psize2order sz) s"

definition phys_stat_memory :: "frame_state \<Rightarrow> phys_mem_stat" where
  "phys_stat_memory s =
     \<lparr>total_pages = frame_allocator_total s, usable_pages = frame_allocator_usable s,
      free_pages = frame_allocator_free s\<rparr>"

end
