(* ===== verification/Frame_Spec.thy ===== *)
theory Frame_Spec
  imports Frame_Alloc
begin

text \<open>
  The abstract specification of the buddy allocator. Its state is, per order, the list of the
  first pages of the free blocks, and its operations are the three elementary moves: take a
  block off the front of a list, split a held block into a free and a held half, merge a held
  block with its free buddy, put a held block into its list. The invariant says that the free
  blocks are aligned, lie inside the managed memory and are pairwise disjoint; \<open>held\<close> adds one
  block that is none of them. The lemmas show that each move keeps the invariant and what it
  does to the set of free pages.
\<close>

section \<open>Specification\<close>

type_synonym blocks = "nat \<Rightarrow> nat list"

definition blk :: "nat \<Rightarrow> nat \<Rightarrow> nat set" where
  "blk order p = {p..<p + 2 ^ order}"

definition free_set :: "blocks \<Rightarrow> nat set" where
  "free_set F = (\<Union>order\<in>{..BUDDY_HIGH_ORDER}. \<Union>p\<in>set (F order). blk order p)"

definition free_ok :: "nat \<Rightarrow> blocks \<Rightarrow> bool" where
  "free_ok n F \<longleftrightarrow>
     (\<forall>order\<le>BUDDY_HIGH_ORDER. distinct (F order) \<and>
        (\<forall>p\<in>set (F order). 2 ^ order dvd p \<and> p + 2 ^ order \<le> n)) \<and>
     (\<forall>a\<le>BUDDY_HIGH_ORDER. \<forall>b\<le>BUDDY_HIGH_ORDER. \<forall>p\<in>set (F a). \<forall>q\<in>set (F b).
        (a, p) \<noteq> (b, q) \<longrightarrow> blk a p \<inter> blk b q = {})"

definition held :: "nat \<Rightarrow> blocks \<Rightarrow> nat \<Rightarrow> nat \<Rightarrow> bool" where
  "held n F order p \<longleftrightarrow>
     order \<le> BUDDY_HIGH_ORDER \<and> 2 ^ order dvd p \<and> p + 2 ^ order \<le> n \<and> blk order p \<inter> free_set F = {}"

fun spec_split :: "nat \<Rightarrow> nat \<Rightarrow> nat \<Rightarrow> blocks \<Rightarrow> blocks" where
  "spec_split p target 0 F = F"
| "spec_split p target (Suc order) F =
     (if target \<le> order then spec_split p target order (F(order := (p + 2 ^ order) # F order)) else F)"

function spec_merge :: "nat \<Rightarrow> nat \<Rightarrow> blocks \<Rightarrow> nat \<times> nat \<times> blocks" where
  "spec_merge p order F =
     (let q = p XOR 2 ^ order in
      if order < BUDDY_HIGH_ORDER \<and> q \<in> set (F order)
      then spec_merge (min p q) (Suc order) (F(order := remove1 q (F order)))
      else (p, order, F))"
  by pat_completeness auto
termination
  by (relation "measure (\<lambda>(_, order, _). BUDDY_HIGH_ORDER - order)") auto

declare spec_merge.simps [simp del]

function spec_find :: "nat \<Rightarrow> blocks \<Rightarrow> nat option" where
  "spec_find order F =
     (if order \<le> BUDDY_HIGH_ORDER
      then if F order \<noteq> [] then Some order else spec_find (Suc order) F else None)"
  by pat_completeness auto
termination
  by (relation "measure (\<lambda>(order, _). Suc BUDDY_HIGH_ORDER - order)") auto

declare spec_find.simps [simp del]

definition spec_alloc :: "nat \<Rightarrow> blocks \<Rightarrow> (nat \<times> blocks) option" where
  "spec_alloc order F =
     (case spec_find order F of
        None \<Rightarrow> None
      | Some k \<Rightarrow> Some (hd (F k), spec_split (hd (F k)) order k (F(k := tl (F k)))))"

definition spec_free :: "nat \<Rightarrow> nat \<Rightarrow> blocks \<Rightarrow> blocks" where
  "spec_free p order F =
     (case spec_merge p order F of (q, k, F') \<Rightarrow> F'(k := q # F' k))"

definition coalesced :: "blocks \<Rightarrow> bool" where
  "coalesced F \<longleftrightarrow>
     (\<forall>order<BUDDY_HIGH_ORDER. \<forall>p\<in>set (F order). p XOR 2 ^ order \<notin> set (F order))"

section \<open>Blocks\<close>

lemma blk_iff [simp]: "x \<in> blk order p \<longleftrightarrow> p \<le> x \<and> x < p + 2 ^ order"
  by (simp add: blk_def)

lemma blk_nonempty [simp]: "blk order p \<noteq> {}"
  by (auto simp: blk_def)

lemma card_blk [simp]: "card (blk order p) = 2 ^ order"
  by (simp add: blk_def)

lemma finite_blk [simp]: "finite (blk order p)"
  by (simp add: blk_def)

lemma blk_split: "blk (Suc k) p = blk k p \<union> blk k (p + 2 ^ k)"
  by (auto simp: blk_def)

lemma blk_split_disjoint: "blk k p \<inter> blk k (p + 2 ^ k) = {}"
  by (auto simp: blk_def)

lemma free_setI: "order \<le> BUDDY_HIGH_ORDER \<Longrightarrow> p \<in> set (F order) \<Longrightarrow> blk order p \<subseteq> free_set F"
  by (auto simp: free_set_def)

lemma finite_free_set [simp]: "finite (free_set F)"
  by (simp add: free_set_def)

lemma free_set_upd:
  assumes "k \<le> BUDDY_HIGH_ORDER"
  shows "free_set (F(k := xs)) = (\<Union>p\<in>set xs. blk k p) \<union> free_set (F(k := []))"
proof -
  have ins: "{..BUDDY_HIGH_ORDER} = insert k ({..BUDDY_HIGH_ORDER} - {k})" using assms by auto
  have eq: "free_set (F(k := ys)) =
      (\<Union>p\<in>set ys. blk k p) \<union> (\<Union>j\<in>{..BUDDY_HIGH_ORDER} - {k}. \<Union>p\<in>set (F j). blk j p)" for ys
    unfolding free_set_def ins [symmetric] by (subst ins, simp only: UN_insert) simp
  show ?thesis by (subst (1 2) eq) simp
qed

lemma free_set_push:
  assumes "k \<le> BUDDY_HIGH_ORDER"
  shows "free_set (F(k := p # F k)) = blk k p \<union> free_set F"
  using free_set_upd [OF assms, of F "p # F k"] free_set_upd [OF assms, of F "F k"] by auto

lemma free_okD:
  assumes "free_ok n F" "order \<le> BUDDY_HIGH_ORDER"
  shows "distinct (F order)"
    and "p \<in> set (F order) \<Longrightarrow> 2 ^ order dvd p"
    and "p \<in> set (F order) \<Longrightarrow> p + 2 ^ order \<le> n"
  using assms by (auto simp: free_ok_def)

lemma free_ok_disjoint:
  assumes "free_ok n F" "a \<le> BUDDY_HIGH_ORDER" "b \<le> BUDDY_HIGH_ORDER"
    "p \<in> set (F a)" "q \<in> set (F b)" "(a, p) \<noteq> (b, q)"
  shows "blk a p \<inter> blk b q = {}"
  using assms unfolding free_ok_def by blast

lemma heldD:
  assumes "held n F order p"
  shows "order \<le> BUDDY_HIGH_ORDER" "2 ^ order dvd p" "p + 2 ^ order \<le> n"
    "blk order p \<inter> free_set F = {}"
  using assms by (auto simp: held_def)

lemma held_disjoint:
  assumes "held n F order p" "k \<le> BUDDY_HIGH_ORDER" "q \<in> set (F k)"
  shows "blk order p \<inter> blk k q = {}"
  using heldD(4) [OF assms(1)] free_setI [of k q F] assms(2,3) by auto

lemma held_not_free:
  assumes "held n F order p" "k \<le> BUDDY_HIGH_ORDER" "q \<in> blk order p"
  shows "q \<notin> set (F k)"
proof
  assume "q \<in> set (F k)"
  then have "blk order p \<inter> blk k q = {}" by (rule held_disjoint [OF assms(1,2)])
  moreover have "q \<in> blk k q" by simp
  ultimately show False using assms(3) by auto
qed

section \<open>The moves\<close>

lemma free_ok_remove:
  assumes "free_ok n F" "k \<le> BUDDY_HIGH_ORDER" "p \<in> set (F k)"
  shows "free_ok n (F(k := remove1 p (F k)))"
    and "held n (F(k := remove1 p (F k))) k p"
    and "free_set F = blk k p \<union> free_set (F(k := remove1 p (F k)))"
proof -
  let ?F = "F(k := remove1 p (F k))"
  have sub: "set (?F a) \<subseteq> set (F a)" for a by (simp add: set_remove1_subset)
  have rm: "set (remove1 p (F k)) = set (F k) - {p}"
    using free_okD(1) [OF assms(1,2)] by simp
  show "free_ok n ?F"
    using assms(1) sub unfolding free_ok_def by (auto simp: distinct_remove1 dest: notin_set_remove1)
  have "blk k p \<inter> blk a q = {}" if "a \<le> BUDDY_HIGH_ORDER" "q \<in> set (?F a)" for a q
    using free_ok_disjoint [OF assms(1,2) that(1) assms(3)] that(2) rm sub [of a]
    by (cases "a = k") auto
  then have "blk k p \<inter> free_set ?F = {}" unfolding free_set_def by blast
  then show "held n ?F k p"
    using assms free_okD(2,3) [OF assms(1,2,3)] by (simp add: held_def)
  have "set (F k) = insert p (set (remove1 p (F k)))" using rm assms(3) by auto
  then show "free_set F = blk k p \<union> free_set ?F"
    using free_set_upd [OF assms(2), of F "remove1 p (F k)"] free_set_upd [OF assms(2), of F "F k"]
    by auto
qed

lemma free_ok_push:
  assumes "free_ok n F" "held n F k p"
  shows "free_ok n (F(k := p # F k))"
proof -
  note h = heldD [OF assms(2)]
  have "p \<notin> set (F k)" using held_not_free [OF assms(2) h(1)] by simp
  then show ?thesis
    using assms(1) h held_disjoint [OF assms(2)] unfolding free_ok_def
    by (auto split: if_splits simp: Int_commute)
qed

lemma held_sub:
  assumes "held n F k p" "blk j q \<subseteq> blk k p" "2 ^ j dvd q" "j \<le> BUDDY_HIGH_ORDER"
  shows "held n F j q"
proof -
  have "q + 2 ^ j \<le> p + 2 ^ k"
  proof -
    have pos: "0 < (2::nat) ^ j" by simp
    then have "q \<le> q + 2 ^ j - 1" "q + 2 ^ j - 1 < q + 2 ^ j" by linarith+
    then have "q + 2 ^ j - 1 \<in> blk k p" using assms(2) by (metis blk_iff subsetD)
    then have "q + 2 ^ j - 1 < p + 2 ^ k" by simp
    then show ?thesis using pos by linarith
  qed
  then show ?thesis using assms heldD [OF assms(1)] by (auto simp: held_def)
qed

lemma split_move:
  assumes "free_ok n F" "held n F (Suc k) p" "F' = F(k := (p + 2 ^ k) # F k)"
  shows "free_ok n F'" and "held n F' k p"
    and "free_set F' = blk k (p + 2 ^ k) \<union> free_set F"
    and "p \<notin> set (F k)" and "p + 2 ^ k \<notin> set (F k)"
proof -
  note h = heldD [OF assms(2)]
  have k: "k \<le> BUDDY_HIGH_ORDER" using h(1) by simp
  have dv: "2 ^ k dvd p" using h(2) by (meson dvd_trans pow2_dvd_mono le_SucI order_refl)
  have up: "held n F k (p + 2 ^ k)"
    using assms(2) by (rule held_sub) (use dv k in auto)
  have lo: "held n F k p"
    using assms(2) by (rule held_sub) (use dv k in auto)
  show "free_ok n F'" using free_ok_push [OF assms(1) up] assms(3) by simp
  show fs: "free_set F' = blk k (p + 2 ^ k) \<union> free_set F"
    using free_set_push [OF k, of F "p + 2 ^ k"] assms(3) by simp
  show "held n F' k p"
    using heldD [OF lo] fs blk_split_disjoint [of k p] by (auto simp: held_def)
  show "p \<notin> set (F k)" "p + 2 ^ k \<notin> set (F k)"
    using held_not_free [OF assms(2) k] by auto
qed

lemma buddy_pair:
  assumes "2 ^ k dvd (p::nat)" "q = p XOR 2 ^ k"
  shows "2 ^ k dvd q" and "blk (Suc k) (min p q) = blk k p \<union> blk k q"
    and "2 ^ Suc k dvd min p q" and "p \<noteq> q" and "max p q = min p q + 2 ^ k"
proof -
  have "2 ^ k dvd q \<and> 2 ^ Suc k dvd min p q \<and> p \<noteq> q \<and> max p q = min p q + 2 ^ k"
  proof (cases "2 ^ Suc k dvd p")
    case True
    then show ?thesis using assms xor_pow2_even [OF True] by simp
  next
    case False
    obtain j where j: "p = 2 ^ k * j" using assms(1) by (elim dvdE)
    have "odd j" using False j by (auto elim!: evenE)
    then obtain i where i: "j = 2 * i + 1" by (elim oddE)
    have "q = 2 ^ Suc k * i"
      using assms xor_pow2_odd [OF assms(1) False] j i by (simp add: algebra_simps)
    then show ?thesis using j i by (auto simp: algebra_simps min_def max_def)
  qed
  then show "2 ^ k dvd q" "2 ^ Suc k dvd min p q" "p \<noteq> q" and m: "max p q = min p q + 2 ^ k"
    by auto
  show "blk (Suc k) (min p q) = blk k p \<union> blk k q"
    using blk_split [of k "min p q"] m by (auto simp: min_def max_def split: if_splits)
qed

lemma merge_move:
  assumes "free_ok n F" "held n F k p" "k < BUDDY_HIGH_ORDER" "q = p XOR 2 ^ k" "q \<in> set (F k)"
    and "F' = F(k := remove1 q (F k))"
  shows "free_ok n F'" and "held n F' (Suc k) (min p q)"
    and "free_set F \<union> blk k p = free_set F' \<union> blk (Suc k) (min p q)"
proof -
  note h = heldD [OF assms(2)]
  note rm = free_ok_remove [OF assms(1) h(1) assms(5)]
  note bp = buddy_pair [OF h(2) assms(4)]
  show "free_ok n F'" using rm(1) assms(6) by simp
  have fs: "free_set F = blk k q \<union> free_set F'" using rm(3) assms(6) by simp
  have "blk (Suc k) (min p q) \<inter> free_set F' = {}"
    using bp(2) h(4) fs heldD(4) [OF rm(2)] assms(6) by auto
  moreover have "min p q + 2 ^ Suc k \<le> n"
    using bp(5) h(3) free_okD(3) [OF assms(1) h(1) assms(5)] by (auto simp: min_def max_def split: if_splits)
  ultimately show "held n F' (Suc k) (min p q)"
    using assms(3) bp(3) by (simp add: held_def)
  show "free_set F \<union> blk k p = free_set F' \<union> blk (Suc k) (min p q)"
    using fs bp(2) by auto
qed

section \<open>The operations\<close>

lemma spec_split_ok:
  assumes "free_ok n F" "held n F k p" "target \<le> k"
  shows "free_ok n (spec_split p target k F)" and "held n (spec_split p target k F) target p"
    and "free_set (spec_split p target k F) \<union> blk target p = free_set F \<union> blk k p"
proof -
  have "free_ok n (spec_split p target k F) \<and> held n (spec_split p target k F) target p \<and>
    free_set (spec_split p target k F) \<union> blk target p = free_set F \<union> blk k p"
    using assms
  proof (induction k arbitrary: F)
    case 0
    then show ?case by simp
  next
    case (Suc k)
    define G where "G = F(k := (p + 2 ^ k) # F k)"
    note mv = split_move [OF Suc.prems(1,2) G_def]
    show ?case
    proof (cases "target \<le> k")
      case True
      then show ?thesis
        using Suc.IH [OF mv(1,2)] mv(3) blk_split [of k p] by (auto simp: G_def [symmetric])
    next
      case False
      then have "target = Suc k" using Suc.prems(3) by simp
      then show ?thesis using Suc.prems by simp
    qed
  qed
  then show "free_ok n (spec_split p target k F)" "held n (spec_split p target k F) target p"
    "free_set (spec_split p target k F) \<union> blk target p = free_set F \<union> blk k p"
    by auto
qed

lemma spec_find_Some:
  "spec_find order F = Some k \<Longrightarrow> order \<le> k \<and> k \<le> BUDDY_HIGH_ORDER \<and> F k \<noteq> []"
proof (induction order F rule: spec_find.induct)
  case (1 order F)
  then show ?case by (subst (asm) spec_find.simps) (auto split: if_splits)
qed

lemma spec_find_None:
  "spec_find order F = None \<longleftrightarrow> (\<forall>k. order \<le> k \<and> k \<le> BUDDY_HIGH_ORDER \<longrightarrow> F k = [])"
proof (induction order F rule: spec_find.induct)
  case (1 order F)
  have "(\<forall>k. order \<le> k \<and> k \<le> BUDDY_HIGH_ORDER \<longrightarrow> F k = []) \<longleftrightarrow>
      (order \<le> BUDDY_HIGH_ORDER \<longrightarrow> F order = []) \<and>
      (\<forall>k. Suc order \<le> k \<and> k \<le> BUDDY_HIGH_ORDER \<longrightarrow> F k = [])"
    by (metis Suc_leD le_antisym not_less_eq_eq)
  with 1 show ?case by (subst spec_find.simps) auto
qed

lemma spec_alloc_None:
  "spec_alloc order F = None \<longleftrightarrow> (\<forall>k. order \<le> k \<and> k \<le> BUDDY_HIGH_ORDER \<longrightarrow> F k = [])"
  unfolding spec_alloc_def spec_find_None [symmetric] by (simp split: option.split)

lemma pop_move:
  assumes "free_ok n F" "k \<le> BUDDY_HIGH_ORDER" "F k = p # ps"
  shows "free_ok n (F(k := ps))" and "held n (F(k := ps)) k p"
    and "free_set F = blk k p \<union> free_set (F(k := ps))"
  using free_ok_remove [OF assms(1,2), of p] assms(3) by simp_all

lemma spec_alloc_ok:
  assumes "free_ok n F" "spec_alloc order F = Some (p, F')"
  shows "free_ok n F'" and "held n F' order p" and "free_set F = free_set F' \<union> blk order p"
proof -
  obtain k where k: "spec_find order F = Some k" and p: "p = hd (F k)"
    and F': "F' = spec_split p order k (F(k := tl (F k)))"
    using assms(2) by (auto simp: spec_alloc_def split: option.splits)
  note f = spec_find_Some [OF k]
  have pop: "F k = p # tl (F k)" using f p by simp
  note mv = pop_move [OF assms(1) _ pop]
  note sp = spec_split_ok [OF mv(1,2), of order]
  show "free_ok n F'" "held n F' order p" using sp f F' by auto
  show "free_set F = free_set F' \<union> blk order p" using sp(3) mv(3) f F' by auto
qed

lemma spec_merge_ok:
  assumes "free_ok n F" "held n F k p" "spec_merge p k F = (q, j, F')"
  shows "free_ok n F'" and "held n F' j q" and "free_set F' \<union> blk j q = free_set F \<union> blk k p"
    and "j < BUDDY_HIGH_ORDER \<Longrightarrow> q XOR 2 ^ j \<notin> set (F' j)" and "k \<le> j"
    and "\<forall>a. set (F' a) \<subseteq> set (F a)"
proof -
  have "free_ok n F' \<and> held n F' j q \<and> free_set F' \<union> blk j q = free_set F \<union> blk k p \<and>
    (j < BUDDY_HIGH_ORDER \<longrightarrow> q XOR 2 ^ j \<notin> set (F' j)) \<and> k \<le> j \<and> (\<forall>a. set (F' a) \<subseteq> set (F a))"
    using assms
  proof (induction p k F rule: spec_merge.induct)
    case (1 p k F)
    show ?case
    proof (cases "k < BUDDY_HIGH_ORDER \<and> p XOR 2 ^ k \<in> set (F k)")
      case True
      let ?q = "p XOR 2 ^ k" and ?F = "F(k := remove1 (p XOR 2 ^ k) (F k))"
      note mv = merge_move [OF 1(2,3) _ refl _ refl]
      have "set (?F a) \<subseteq> set (F a)" for a by (simp add: set_remove1_subset)
      moreover have "spec_merge (min p ?q) (Suc k) ?F = (q, j, F')"
        using 1(4) True by (subst (asm) spec_merge.simps) (simp add: Let_def)
      ultimately show ?thesis using 1(1) [OF refl] True mv by fastforce
    next
      case False
      then have "q = p \<and> j = k \<and> F' = F"
        using 1(4) by (subst (asm) spec_merge.simps) (auto simp: Let_def)
      with False 1 show ?thesis by auto
    qed
  qed
  then show "free_ok n F'" "held n F' j q" "free_set F' \<union> blk j q = free_set F \<union> blk k p"
    "j < BUDDY_HIGH_ORDER \<Longrightarrow> q XOR 2 ^ j \<notin> set (F' j)" "k \<le> j" "\<forall>a. set (F' a) \<subseteq> set (F a)"
    by auto
qed

lemma spec_free_ok:
  assumes "free_ok n F" "held n F order p"
  shows "free_ok n (spec_free p order F)"
    and "free_set (spec_free p order F) = free_set F \<union> blk order p"
proof -
  obtain q j F' where m: "spec_merge p order F = (q, j, F')" by (metis prod_cases3)
  note mg = spec_merge_ok [OF assms m]
  have j: "j \<le> BUDDY_HIGH_ORDER" using heldD(1) [OF mg(2)] .
  show "free_ok n (spec_free p order F)"
    using free_ok_push [OF mg(1,2)] m by (simp add: spec_free_def)
  show "free_set (spec_free p order F) = free_set F \<union> blk order p"
    using free_set_push [OF j, of F' q] mg(3) m by (auto simp: spec_free_def)
qed

section \<open>Coalescing\<close>

text \<open>
  No two buddies are free at the same order. Allocation and release keep this, and under it
  the allocator is complete: a request fails only if no aligned block of its size is free.
\<close>

lemma coalesced_subset:
  "coalesced F \<Longrightarrow> \<forall>a. set (F' a) \<subseteq> set (F a) \<Longrightarrow> coalesced F'"
  by (fastforce simp: coalesced_def)

lemma coalesced_push:
  assumes "coalesced F" "k < BUDDY_HIGH_ORDER \<Longrightarrow> p XOR 2 ^ k \<notin> set (F k)"
    and "2 ^ k dvd p"
  shows "coalesced (F(k := p # F k))"
proof -
  have inv: "(q XOR 2 ^ k) XOR 2 ^ k = q" for q :: nat by (simp add: xor.assoc)
  have "p XOR 2 ^ k \<noteq> p" using buddy_pair(4) [OF assms(3) refl] by simp
  moreover have "q XOR 2 ^ k \<noteq> p" if "k < BUDDY_HIGH_ORDER" "q \<in> set (F k)" for q
    using assms(2) [OF that(1)] that(2) inv [of q] by auto
  ultimately show ?thesis using assms(1,2) by (auto simp: coalesced_def)
qed

lemma coalesced_split:
  assumes "free_ok n F" "held n F k p" "coalesced F"
  shows "coalesced (spec_split p target k F)"
  using assms
proof (induction k arbitrary: F)
  case 0
  then show ?case by simp
next
  case (Suc k)
  define G where "G = F(k := (p + 2 ^ k) # F k)"
  note mv = split_move [OF Suc.prems(1,2) G_def]
  have dv: "2 ^ Suc k dvd p" using heldD(2) [OF Suc.prems(2)] .
  then have "(p + 2 ^ k) XOR 2 ^ k = p" by (metis xor_pow2_even xor.assoc xor.right_neutral xor_self_eq)
  moreover have "2 ^ k dvd p + 2 ^ k" using dv by (auto dest: power_le_dvd)
  ultimately have "coalesced G"
    unfolding G_def using mv(4) Suc.prems(3) by (intro coalesced_push) auto
  then show ?case using Suc.IH [OF mv(1,2)] Suc.prems(3) by (simp add: G_def [symmetric])
qed

lemma coalesced_alloc:
  assumes "free_ok n F" "spec_alloc order F = Some (p, F')" "coalesced F"
  shows "coalesced F'"
proof -
  obtain k where k: "spec_find order F = Some k" and p: "p = hd (F k)"
    and F': "F' = spec_split p order k (F(k := tl (F k)))"
    using assms(2) by (auto simp: spec_alloc_def split: option.splits)
  note f = spec_find_Some [OF k]
  have pop: "F k = p # tl (F k)" using f p by simp
  have "coalesced (F(k := tl (F k)))"
    using assms(3) by (rule coalesced_subset) (auto intro: list.set_sel(2) simp: f)
  then show ?thesis
    unfolding F' using pop_move [OF assms(1) _ pop] f by (intro coalesced_split) auto
qed

lemma coalesced_free:
  assumes "free_ok n F" "held n F order p" "coalesced F"
  shows "coalesced (spec_free p order F)"
proof -
  obtain q j F' where m: "spec_merge p order F = (q, j, F')" by (metis prod_cases3)
  note mg = spec_merge_ok [OF assms(1,2) m]
  have "coalesced F'" using assms(3) mg(6) by (rule coalesced_subset)
  then show ?thesis
    unfolding spec_free_def m using mg(4) heldD(2) [OF mg(2)] by (simp add: coalesced_push)
qed

lemma blk_nested:
  assumes "2 ^ a dvd p" "2 ^ b dvd q" "a \<le> b" "x \<in> blk a p" "x \<in> blk b q"
  shows "blk a p \<subseteq> blk b q"
proof -
  have ab: "(2::nat) ^ b = 2 ^ a * 2 ^ (b - a)" using assms(3) by (simp flip: power_add)
  obtain i where i: "p = 2 ^ a * i" using assms(1) by (elim dvdE)
  obtain j where j: "q = 2 ^ a * j" using assms(2) ab by (metis dvdE mult.assoc)
  have "2 ^ a * j < 2 ^ a * (i + 1)" using assms(4,5) i j by simp
  then have "j < i + 1" by (simp only: nat_mult_less_cancel_disj)
  then have ji: "j \<le> i" by simp
  have "2 ^ a * i < 2 ^ a * (j + 2 ^ (b - a))" using assms(4,5) i j ab by (simp add: algebra_simps)
  then have "i < j + 2 ^ (b - a)" by (simp only: nat_mult_less_cancel_disj)
  then have "2 ^ a * (i + 1) \<le> 2 ^ a * (j + 2 ^ (b - a))" by (intro mult_le_mono2) simp
  then have "p + 2 ^ a \<le> q + 2 ^ b" using i j ab by (simp add: algebra_simps)
  moreover have "q \<le> p" using ji i j by simp
  ultimately show ?thesis by (auto simp: blk_def)
qed

lemma coalesced_complete:
  assumes ok: "free_ok n F" and co: "coalesced F" and al: "2 ^ order dvd p"
    and sub: "blk order p \<subseteq> free_set F" and oh: "order \<le> BUDDY_HIGH_ORDER"
  shows "\<exists>k. order \<le> k \<and> k \<le> BUDDY_HIGH_ORDER \<and> F k \<noteq> []"
proof (rule ccontr)
  assume none: "\<not> ?thesis"
  define hit where "hit a \<longleftrightarrow> a \<le> BUDDY_HIGH_ORDER \<and> (\<exists>x\<in>set (F a). blk a x \<inter> blk order p \<noteq> {})" for a
  have cover: "\<exists>a x. a \<le> BUDDY_HIGH_ORDER \<and> x \<in> set (F a) \<and> y \<in> blk a x" if "y \<in> blk order p" for y
    using subsetD [OF sub that] by (auto simp: free_set_def)
  have "p \<in> blk order p" by simp
  from cover [OF this] have "\<exists>a. hit a" unfolding hit_def using \<open>p \<in> blk order p\<close> by blast
  then obtain k where k: "hit k" and least: "\<And>a. hit a \<Longrightarrow> k \<le> a" by (meson LeastI Least_le)
  from k obtain x z where x: "x \<in> set (F k)" "k \<le> BUDDY_HIGH_ORDER" "z \<in> blk k x" "z \<in> blk order p"
    by (auto simp: hit_def simp del: blk_iff)
  have ko: "k < order" using none x by (metis empty_iff empty_set not_le)
  then have kh: "k < BUDDY_HIGH_ORDER" using oh by simp
  have dx: "2 ^ k dvd x" using free_okD(2) [OF ok x(2,1)] .
  define y where "y = x XOR 2 ^ k"
  note bp = buddy_pair [OF dx y_def]
  have "z \<in> blk (Suc k) (min x y)" using bp(2) x(3) by blast
  then have pair: "blk (Suc k) (min x y) \<subseteq> blk order p"
    using blk_nested [OF bp(3) al] ko x(4) by auto
  have "y \<in> blk k y" by simp
  then have ypair: "y \<in> blk (Suc k) (min x y)" using bp(2) by blast
  then obtain j w where w: "j \<le> BUDDY_HIGH_ORDER" "w \<in> set (F j)" "y \<in> blk j w"
    using cover [OF subsetD [OF pair]] by blast
  have "hit j" unfolding hit_def using w ypair pair by blast
  then have kj: "k \<le> j" by (rule least)
  have dw: "2 ^ j dvd w" using free_okD(2) [OF ok w(1,2)] .
  have inside: "x \<in> blk k x" by simp
  show False
  proof (cases "j = k")
    case True
    have "w \<in> blk k w" by simp
    then have "y = w"
      using blk_nested [OF bp(1) dw kj \<open>y \<in> blk k y\<close> w(3)] True \<open>y \<in> blk k y\<close> w(3)
        blk_nested [of k w k y y] bp(1) dw by (metis blk_iff le_antisym order_refl subsetD)
    then show False using co x(1) kh w(2) True y_def by (auto simp: coalesced_def)
  next
    case False
    then have "blk (Suc k) (min x y) \<subseteq> blk j w"
      using blk_nested [OF bp(3) dw _ ypair w(3)] kj by simp
    then have "x \<in> blk j w" using bp(2) inside by blast
    moreover have "blk k x \<inter> blk j w = {}"
      using free_ok_disjoint [OF ok x(2) w(1) x(1) w(2)] False by simp
    ultimately show False using inside by blast
  qed
qed

end
