(* ===== verification/Frame_Refine.thy ===== *)
theory Frame_Refine
  imports Frame_Spec
begin

text \<open>
  The frame allocator of \<open>frame_alloc.c\<close> implements its specification. \<open>lists_rel\<close> relates the
  linked free lists to the lists of the specification, \<open>bits_rel\<close> the pair bitmaps to the
  exclusive-or of the two buddies' membership. The bitmap of the highest order is flipped by
  \<open>buddy_alloc\<close> but not by \<open>buddy_free\<close> and is never read, so \<open>bits_rel\<close> leaves it out. The
  refinement lemmas also say which \<open>struct page\<close> entries an operation can change, which is
  what the slab layer relies on for the pages it owns.
\<close>

section \<open>Relations\<close>

definition nxt :: "page_heap \<Rightarrow> nat \<Rightarrow> page_ptr" where
  "nxt h i = link0 (h ! i)"

definition prv :: "page_heap \<Rightarrow> nat \<Rightarrow> page_ptr" where
  "prv h i = link1 (h ! i)"

definition upd0 :: "page_heap \<Rightarrow> nat \<Rightarrow> page_ptr \<Rightarrow> page_heap" where
  "upd0 h i v = h[i := (h ! i)\<lparr>link0 := v\<rparr>]"

definition upd1 :: "page_heap \<Rightarrow> nat \<Rightarrow> page_ptr \<Rightarrow> page_heap" where
  "upd1 h i v = h[i := (h ! i)\<lparr>link1 := v\<rparr>]"

definition lists_rel :: "frame_state \<Rightarrow> blocks \<Rightarrow> bool" where
  "lists_rel s F \<longleftrightarrow>
     length (zones s) = Suc BUDDY_HIGH_ORDER \<and>
     (\<forall>k\<le>BUDDY_HIGH_ORDER.
        dlist (nxt (pages s)) (prv (pages s)) (zone_list (zones s ! k)) Null (F k) \<and>
        length (pages s) div 2 ^ Suc k div 8 < length (bitmap (zones s ! k)))"

definition bits_rel :: "frame_state \<Rightarrow> (nat \<Rightarrow> nat \<Rightarrow> bool) \<Rightarrow> bool" where
  "bits_rel s B \<longleftrightarrow>
     (\<forall>k<BUDDY_HIGH_ORDER. \<forall>n<length (pages s).
        order_status_at n k (zones s) = Some (of_bool (B k (n div 2 ^ Suc k))))"

definition pairs :: "blocks \<Rightarrow> nat \<Rightarrow> nat \<Rightarrow> bool" where
  "pairs F k j \<longleftrightarrow> (2 * j * 2 ^ k \<in> set (F k)) \<noteq> ((2 * j + 1) * 2 ^ k \<in> set (F k))"

definition toggle :: "nat \<Rightarrow> nat \<Rightarrow> (nat \<Rightarrow> nat \<Rightarrow> bool) \<Rightarrow> (nat \<Rightarrow> nat \<Rightarrow> bool)" where
  "toggle k j B = B(k := (B k)(j := \<not> B k j))"

definition buddy_rel :: "frame_state \<Rightarrow> blocks \<Rightarrow> bool" where
  "buddy_rel s F \<longleftrightarrow> free_ok (length (pages s)) F \<and> lists_rel s F \<and> bits_rel s (pairs F)"

definition ctrl :: "frame_state \<Rightarrow> u64 \<times> u64 \<times> u64 \<times> u64 \<times> u64" where
  "ctrl s = (frame_allocator_total s, frame_allocator_usable s, frame_allocator_free s,
             allocation_count (buddy_allocator s), deallocation_count (buddy_allocator s))"

definition same_outside :: "nat set \<Rightarrow> page_heap \<Rightarrow> page_heap \<Rightarrow> bool" where
  "same_outside A h h' \<longleftrightarrow> length h' = length h \<and> (\<forall>i. i \<notin> A \<longrightarrow> h' ! i = h ! i)"

section \<open>The page heap\<close>

interpretation page_list: link_heap "\<lambda>h i. i < length h" nxt prv upd0 upd1
  by unfold_locales (auto simp: nxt_def prv_def upd0_def upd1_def nth_list_update fun_eq_iff)

lemma link_access [simp]:
  "i < length h \<Longrightarrow> get0 h (Ref i) = Some (nxt h i)"
  "i < length h \<Longrightarrow> get1 h (Ref i) = Some (prv h i)"
  "i < length h \<Longrightarrow> put0 h (Ref i) v = Some (upd0 h i v)"
  "i < length h \<Longrightarrow> put1 h (Ref i) v = Some (upd1 h i v)"
  by (simp_all add: get0_def get1_def put0_def put1_def nxt_def prv_def upd0_def upd1_def)

lemma upd_length [simp]: "length (upd0 h i v) = length h" "length (upd1 h i v) = length h"
  by (simp_all add: upd0_def upd1_def)

lemma upd_other [simp]: "j \<noteq> i \<Longrightarrow> upd0 h i v ! j = h ! j" "j \<noteq> i \<Longrightarrow> upd1 h i v ! j = h ! j"
  by (simp_all add: upd0_def upd1_def)

lemma same_outside_refl [simp]: "same_outside A h h"
  by (simp add: same_outside_def)

lemma same_outside_trans:
  "same_outside A h h' \<Longrightarrow> same_outside B h' h'' \<Longrightarrow> A \<subseteq> C \<Longrightarrow> B \<subseteq> C \<Longrightarrow> same_outside C h h''"
  unfolding same_outside_def by (metis subsetD)

lemma same_outside_upd:
  assumes "same_outside A h h'" "i \<in> A"
  shows "same_outside A h (upd0 h' i v)" "same_outside A h (upd1 h' i v)"
  using assms unfolding same_outside_def by (metis upd_length upd_other)+

lemma same_outside_dlist:
  assumes "same_outside A h h'" "set xs \<inter> A = {}"
  shows "dlist (nxt h') (prv h') f b xs = dlist (nxt h) (prv h) f b xs"
  using assms by (intro dlist_cong) (auto simp: same_outside_def nxt_def prv_def)

lemma list_link_ok:
  assumes "dlist (nxt h) (prv h) f Null xs" "x \<notin> set xs" "x < length h" "\<forall>y\<in>set xs. y < length h"
  obtains h' where "list_link h (Ref x) f = Some (h', Ref x)"
    "dlist (nxt h') (prv h') (Ref x) Null (x # xs)" "same_outside (insert x (set xs)) h h'"
proof -
  define h1 where "h1 = upd0 (upd1 h x Null) x f"
  define h2 where "h2 = (case f of Ref y \<Rightarrow> upd1 h1 y (Ref x) | _ \<Rightarrow> h1)"
  have hd: "f = (if xs = [] then Null else Ref (hd xs))" using assms(1) by (rule dlist_head)
  have vh: "xs \<noteq> [] \<Longrightarrow> hd xs < length h1" using assms(4) by (simp add: h1_def)
  have "list_link h (Ref x) f = Some (h2, Ref x)"
    using assms(3) hd vh by (auto simp: list_link_def h1_def h2_def)
  moreover have "dlist (nxt h2) (prv h2) (Ref x) Null (x # xs)"
    by (rule page_list.push_front [OF assms h1_def h2_def])
  moreover have "same_outside (insert x (set xs)) h h2"
    unfolding h2_def h1_def using hd by (auto intro!: same_outside_upd)
  ultimately show thesis by (rule that)
qed

lemma list_get_ok:
  assumes "dlist (nxt h) (prv h) f Null (x # xs)" "\<forall>y\<in>set (x # xs). y < length h"
  obtains h' f' where "list_get h f = Some (h', f', Ref x)"
    "dlist (nxt h') (prv h') f' Null xs" "same_outside (set (x # xs)) h h'"
proof -
  have f: "f = Ref x" using assms(1) by simp
  have nx: "nxt h x = (if xs = [] then Null else Ref (hd xs))"
    using assms(1) by (auto dest: dlist_head)
  define h1 where "h1 = (case nxt h x of Ref n \<Rightarrow> upd1 h n Null | _ \<Rightarrow> h)"
  define h2 where "h2 = upd1 (upd0 h1 x Poison) x Poison"
  have len: "length h1 = length h" by (simp add: h1_def split: ptr.split)
  have vh: "xs \<noteq> [] \<Longrightarrow> hd xs < length h" using assms(2) by simp
  have eq: "list_get h f = Some (h2, nxt h x, Ref x)"
    using assms(2) f nx vh len by (auto simp: list_get_def h2_def h1_def)
  have dl: "dlist (nxt h2) (prv h2) (nxt h x) Null xs"
  proof (rule page_list.pop_front [OF _ assms(2) h1_def])
    show "nxt h2 y = nxt h1 y \<and> prv h2 y = prv h1 y" if "y \<noteq> x" for y
      using that by (simp add: h2_def nxt_def prv_def)
  qed (use assms(1) f in simp)
  have so: "same_outside (set (x # xs)) h h2"
    unfolding h2_def h1_def using nx by (auto intro!: same_outside_upd)
  show thesis using eq dl so by (rule that)
qed

lemma list_unlink_ok:
  assumes "dlist (nxt h) (prv h) f Null xs" "x \<in> set xs" "\<forall>y\<in>set xs. y < length h"
  obtains h' f' where "list_unlink h (Ref x) f = Some (h', f')"
    "dlist (nxt h') (prv h') f' Null (remove1 x xs)" "same_outside (set xs) h h'"
proof -
  define h1 where "h1 = (case prv h x of Ref p \<Rightarrow> upd0 h p (nxt h x) | _ \<Rightarrow> h)"
  define h2 where "h2 = (case nxt h1 x of Ref n \<Rightarrow> upd1 h1 n (prv h1 x) | _ \<Rightarrow> h1)"
  define h3 where "h3 = upd0 (upd1 h2 x Poison) x Poison"
  obtain ys zs where xs: "xs = ys @ x # zs" and rm: "remove1 x xs = ys @ zs"
    and ny: "x \<notin> set ys" and nz: "x \<notin> set zs"
    using dlist_distinct [OF assms(1)] assms(2) by (rule remove1_decomp)
  note node = dlist_node [OF assms(1) [unfolded xs]]
  have vx: "x < length h" and vl: "ys \<noteq> [] \<Longrightarrow> last ys < length h" and vh: "zs \<noteq> [] \<Longrightarrow> hd zs < length h"
    using assms(3) xs by auto
  have len: "length h1 = length h" "length h2 = length h"
    by (simp_all add: h1_def h2_def split: ptr.split)
  have nf: "f \<noteq> Null" using assms(1,2) by (cases xs) auto
  have lx: "ys \<noteq> [] \<Longrightarrow> last ys \<noteq> x" using ny by (metis last_in_set)
  have nx1: "nxt h1 x = nxt h x" using node(1) lx by (auto simp: h1_def nxt_def)
  have eq: "list_unlink h (Ref x) f = Some (h3, if f = Ref x then nxt h x else f)"
    using nf vx vl vh node len nx1
    by (auto simp: list_unlink_def h3_def h2_def h1_def split: if_splits)
  have dl: "dlist (nxt h3) (prv h3) (if f = Ref x then nxt h x else f) Null (remove1 x xs)"
  proof (rule page_list.unlink [OF assms h1_def h2_def])
    show "nxt h3 y = nxt h2 y \<and> prv h3 y = prv h2 y" if "y \<noteq> x" for y
      using that by (simp add: h3_def nxt_def prv_def)
  qed
  have so1: "same_outside (set xs) h h1"
    unfolding h1_def using node(1) xs by (auto intro!: same_outside_upd)
  have so2: "same_outside (set xs) h h2"
    unfolding h2_def using so1 node(2) nx1 xs by (auto intro!: same_outside_upd)
  have so: "same_outside (set xs) h h3"
    unfolding h3_def using so2 xs by (auto intro!: same_outside_upd)
  show thesis using eq dl so by (rule that)
qed

section \<open>The pair bitmaps\<close>

lemma bitmap_status_bit:
  assumes "n div 8 < length bm"
  shows "bitmap_status n bm = Some (of_bool (bit (bm ! (n div 8)) (n mod 8)))"
  unfolding bitmap_status_def and_7_mod_8 drop_bit_3_div_8 Let_def
  using assms byte_bit_read [of "n mod 8" "bm ! (n div 8)"] by (simp only: if_True)

lemma bitmap_flip_ok:
  assumes "n div 8 < length bm"
  obtains bm' where "bitmap_flip n bm = Some bm'" "length bm' = length bm"
    "\<forall>m. m div 8 < length bm \<longrightarrow>
       bit (bm' ! (m div 8)) (m mod 8) = (bit (bm ! (m div 8)) (m mod 8) \<noteq> (m = n))"
proof
  let ?bm = "bm[n div 8 := bm ! (n div 8) XOR push_bit (n mod 8) 1]"
  show "bitmap_flip n bm = Some ?bm"
    using assms by (simp add: bitmap_flip_def and_7_mod_8 drop_bit_3_div_8 Let_def)
  have "bit (?bm ! (m div 8)) (m mod 8) = (bit (bm ! (m div 8)) (m mod 8) \<noteq> (m = n))"
    if "m div 8 < length bm" for m
  proof (cases "m div 8 = n div 8")
    case True
    then have "m mod 8 = n mod 8 \<longleftrightarrow> m = n" by (metis div_mult_mod_eq)
    with True assms show ?thesis by (auto simp: byte_bit_flip)
  next
    case False
    then show ?thesis by auto
  qed
  then show "\<forall>m. m div 8 < length bm \<longrightarrow>
       bit (?bm ! (m div 8)) (m mod 8) = (bit (bm ! (m div 8)) (m mod 8) \<noteq> (m = n))" by blast
qed simp

lemma zones_set_orders [simp]:
  "zones (set_orders zs s) = zs" "pages (set_orders zs s) = pages s" "ctrl (set_orders zs s) = ctrl s"
  by (simp_all add: zones_def set_orders_def ctrl_def)

lemma zones_pages [simp]:
  "zones (s\<lparr>pages := h\<rparr>) = zones s" "ctrl (s\<lparr>pages := h\<rparr>) = ctrl s"
  by (simp_all add: zones_def ctrl_def)

lemma lists_relD:
  assumes "lists_rel s F" "k \<le> BUDDY_HIGH_ORDER"
  shows "k < length (zones s)"
    and "dlist (nxt (pages s)) (prv (pages s)) (zone_list (zones s ! k)) Null (F k)"
    and "n < length (pages s) \<Longrightarrow> n div 2 ^ Suc k div 8 < length (bitmap (zones s ! k))"
proof -
  show "k < length (zones s)"
    "dlist (nxt (pages s)) (prv (pages s)) (zone_list (zones s ! k)) Null (F k)"
    using assms by (auto simp: lists_rel_def)
  have "length (pages s) div 2 ^ Suc k div 8 < length (bitmap (zones s ! k))"
    using assms by (simp add: lists_rel_def)
  moreover assume "n < length (pages s)"
  then have "n div 2 ^ Suc k div 8 \<le> length (pages s) div 2 ^ Suc k div 8"
    by (intro div_le_mono) simp
  ultimately show "n div 2 ^ Suc k div 8 < length (bitmap (zones s ! k))" by linarith
qed

lemma order_status_bit:
  assumes "lists_rel s F" "k \<le> BUDDY_HIGH_ORDER" "n < length (pages s)"
  shows "order_status_at n k (zones s) =
    Some (of_bool (bit (bitmap (zones s ! k) ! (n div 2 ^ Suc k div 8)) (n div 2 ^ Suc k mod 8)))"
proof -
  have "drop_bit (k + 1) n = n div 2 ^ Suc k" by (simp add: drop_bit_eq_div)
  then show ?thesis
    using lists_relD(1,3) [OF assms(1,2)] assms(3) unfolding order_status_at_def
    by (simp only: if_True bitmap_status_bit)
qed

lemma zone_flip_ok:
  assumes "lists_rel s F" "bits_rel s B" "k \<le> BUDDY_HIGH_ORDER" "n < length (pages s)"
  obtains s' where "zone_flip (Ref n) k s = Some s'" "lists_rel s' F"
    "bits_rel s' (toggle k (n div 2 ^ Suc k) B)" "pages s' = pages s" "ctrl s' = ctrl s"
proof -
  let ?j = "n div 2 ^ Suc k"
  obtain bm where bm: "bitmap_flip ?j (bitmap (zones s ! k)) = Some bm"
    "length bm = length (bitmap (zones s ! k))"
    "\<forall>m. m div 8 < length (bitmap (zones s ! k)) \<longrightarrow> bit (bm ! (m div 8)) (m mod 8) =
       (bit (bitmap (zones s ! k) ! (m div 8)) (m mod 8) \<noteq> (m = ?j))"
    using lists_relD(3) [OF assms(1,3,4)] by (rule bitmap_flip_ok)
  define zs where "zs = (zones s)[k := (zones s ! k)\<lparr>bitmap := bm\<rparr>]"
  have eq: "zone_flip (Ref n) k s = Some (set_orders zs s)"
    using lists_relD(1) [OF assms(1,3)] assms(4) bm(1)
    unfolding zone_flip_def order_flip_at_def
    by (simp add: page2idx_def zs_def drop_bit_eq_div)
  have lr: "lists_rel (set_orders zs s) F"
    using assms(1,3) bm(2) by (auto simp: lists_rel_def zs_def nth_list_update)
  have st: "order_status_at m j zs = Some (of_bool (toggle k ?j B j (m div 2 ^ Suc j)))"
    if jm: "j < BUDDY_HIGH_ORDER" "m < length (pages s)" for j m
  proof -
    have jle: "j \<le> BUDDY_HIGH_ORDER" using jm by simp
    note sb = order_status_bit [OF lr jle, of m]
    note so = order_status_bit [OF assms(1) jle jm(2)]
    have old: "bit (bitmap (zones s ! j) ! (m div 2 ^ Suc j div 8)) (m div 2 ^ Suc j mod 8) = B j (m div 2 ^ Suc j)"
      using assms(2) jm so by (simp add: bits_rel_def of_bool_eq_iff)
    show ?thesis
    proof (cases "j = k")
      case True
      then show ?thesis
        using sb jm(2) old bm(3) [rule_format, of "m div 2 ^ Suc j"] lists_relD(1,3) [OF assms(1,3)]
        by (simp add: zs_def toggle_def)
    next
      case False
      then show ?thesis using sb jm(2) old by (simp add: zs_def toggle_def)
    qed
  qed
  have br: "bits_rel (set_orders zs s) (toggle k ?j B)" using st by (simp add: bits_rel_def)
  show thesis using that [OF eq lr br] by simp
qed

lemma zone_status_ok:
  assumes "bits_rel s B" "k < BUDDY_HIGH_ORDER" "n < length (pages s)"
  shows "zone_status (Ref n) k s = Some (of_bool (B k (n div 2 ^ Suc k)))"
  using assms by (simp add: zone_status_def page2idx_def bits_rel_def)

section \<open>The free lists\<close>

lemma free_ok_nodes:
  assumes "free_ok n F" "a \<le> BUDDY_HIGH_ORDER" "b \<le> BUDDY_HIGH_ORDER" "a \<noteq> b"
  shows "set (F a) \<inter> set (F b) = {}"
proof -
  have False if "p \<in> set (F a)" "p \<in> set (F b)" for p
  proof -
    have "blk a p \<inter> blk b p = {}" using free_ok_disjoint [OF assms(1-3) that] assms(4) by simp
    moreover have "p \<in> blk a p" "p \<in> blk b p" by simp_all
    ultimately show False by blast
  qed
  then show ?thesis by blast
qed

lemma free_ok_valid:
  assumes "free_ok n F" "k \<le> BUDDY_HIGH_ORDER" "p \<in> set (F k)"
  shows "p < n" "p \<in> free_set F"
proof -
  have "0 < (2::nat) ^ k" by simp
  then show "p < n" using free_okD(3) [OF assms] by linarith
  have "p \<in> blk k p" by simp
  then show "p \<in> free_set F" using free_setI [of k p F] assms(2,3) by blast
qed

lemma lists_rel_update:
  assumes "lists_rel s F" "k \<le> BUDDY_HIGH_ORDER" "free_ok (length (pages s)) F"
    and "same_outside A (pages s) h" "\<forall>a\<le>BUDDY_HIGH_ORDER. a \<noteq> k \<longrightarrow> set (F a) \<inter> A = {}"
    and "dlist (nxt h) (prv h) f Null xs"
  shows "lists_rel (set_orders ((zones s)[k := (zones s ! k)\<lparr>zone_list := f\<rparr>]) (s\<lparr>pages := h\<rparr>)) (F(k := xs))"
proof -
  have len: "length h = length (pages s)" using assms(4) by (simp add: same_outside_def)
  have "dlist (nxt h) (prv h) (zone_list (zones s ! a)) Null (F a)"
    if "a \<le> BUDDY_HIGH_ORDER" "a \<noteq> k" for a
    using same_outside_dlist [OF assms(4)] assms(5) that lists_relD(2) [OF assms(1) that(1)] by simp
  then show ?thesis using assms(1,2,6) len by (auto simp: lists_rel_def nth_list_update)
qed

lemma bits_rel_update:
  assumes "bits_rel s B" "length h = length (pages s)"
  shows "bits_rel (set_orders ((zones s)[k := (zones s ! k)\<lparr>zone_list := f\<rparr>]) (s\<lparr>pages := h\<rparr>)) B"
proof -
  have "order_status_at n j ((zones s)[k := (zones s ! k)\<lparr>zone_list := f\<rparr>]) = order_status_at n j (zones s)"
    for n j by (cases "k = j") (simp_all add: order_status_at_def)
  then show ?thesis using assms by (simp add: bits_rel_def)
qed

lemma zone_link_ok:
  assumes "lists_rel s F" "bits_rel s B" "free_ok (length (pages s)) F" "held (length (pages s)) F k x"
  obtains s' where "zone_link (Ref x) k s = Some s'" "lists_rel s' (F(k := x # F k))" "bits_rel s' B"
    "same_outside (insert x (free_set F)) (pages s) (pages s')" "ctrl s' = ctrl s"
proof -
  note h = heldD [OF assms(4)]
  have x: "x \<in> blk k x" by simp
  have nx: "x \<notin> set (F a)" if "a \<le> BUDDY_HIGH_ORDER" for a
    using held_not_free [OF assms(4) that x] .
  have "0 < (2::nat) ^ k" by simp
  then have vx: "x < length (pages s)" using h(3) by linarith
  have vl: "\<forall>y\<in>set (F k). y < length (pages s)" using free_ok_valid [OF assms(3) h(1)] by blast
  obtain h' where h': "list_link (pages s) (Ref x) (zone_list (zones s ! k)) = Some (h', Ref x)"
    "dlist (nxt h') (prv h') (Ref x) Null (x # F k)"
    "same_outside (insert x (set (F k))) (pages s) h'"
    using lists_relD(2) [OF assms(1) h(1)] nx [OF h(1)] vx vl by (rule list_link_ok)
  have sub: "set (F k) \<subseteq> free_set F" using free_ok_valid [OF assms(3) h(1)] by blast
  have dj: "\<forall>a\<le>BUDDY_HIGH_ORDER. a \<noteq> k \<longrightarrow> set (F a) \<inter> insert x (set (F k)) = {}"
    using free_ok_nodes [OF assms(3) _ h(1)] nx by auto
  let ?s = "set_orders ((zones s)[k := (zones s ! k)\<lparr>zone_list := Ref x\<rparr>]) (s\<lparr>pages := h'\<rparr>)"
  show thesis
  proof (rule that [of ?s])
    show "zone_link (Ref x) k s = Some ?s"
      using h'(1) lists_relD(1) [OF assms(1) h(1)] by (simp add: zone_link_def)
    show "lists_rel ?s (F(k := x # F k))" by (rule lists_rel_update [OF assms(1) h(1) assms(3) h'(3) dj h'(2)])
    show "bits_rel ?s B" using assms(2) h'(3) by (intro bits_rel_update) (simp_all add: same_outside_def)
    show "same_outside (insert x (free_set F)) (pages s) (pages ?s)"
      using h'(3) sub by (auto simp: same_outside_def)
  qed simp
qed

lemma zone_unlink_ok:
  assumes "lists_rel s F" "bits_rel s B" "free_ok (length (pages s)) F"
    "k \<le> BUDDY_HIGH_ORDER" "x \<in> set (F k)"
  obtains s' where "zone_unlink (Ref x) k s = Some s'" "lists_rel s' (F(k := remove1 x (F k)))"
    "bits_rel s' B" "same_outside (free_set F) (pages s) (pages s')" "ctrl s' = ctrl s"
proof -
  have vl: "\<forall>y\<in>set (F k). y < length (pages s)" using free_ok_valid [OF assms(3,4)] by blast
  obtain h' f where h': "list_unlink (pages s) (Ref x) (zone_list (zones s ! k)) = Some (h', f)"
    "dlist (nxt h') (prv h') f Null (remove1 x (F k))"
    "same_outside (set (F k)) (pages s) h'"
    using lists_relD(2) [OF assms(1,4)] assms(5) vl by (rule list_unlink_ok)
  have sub: "set (F k) \<subseteq> free_set F" using free_ok_valid [OF assms(3,4)] by blast
  have dj: "\<forall>a\<le>BUDDY_HIGH_ORDER. a \<noteq> k \<longrightarrow> set (F a) \<inter> set (F k) = {}"
    using free_ok_nodes [OF assms(3) _ assms(4)] by auto
  let ?s = "set_orders ((zones s)[k := (zones s ! k)\<lparr>zone_list := f\<rparr>]) (s\<lparr>pages := h'\<rparr>)"
  show thesis
  proof (rule that [of ?s])
    show "zone_unlink (Ref x) k s = Some ?s"
      using h'(1) lists_relD(1) [OF assms(1,4)] by (simp add: zone_unlink_def)
    show "lists_rel ?s (F(k := remove1 x (F k)))"
      by (rule lists_rel_update [OF assms(1,4,3) h'(3) dj h'(2)])
    show "bits_rel ?s B" using assms(2) h'(3) by (intro bits_rel_update) (simp_all add: same_outside_def)
    show "same_outside (free_set F) (pages s) (pages ?s)"
      using h'(3) sub by (auto simp: same_outside_def)
  qed simp
qed

lemma zone_get_ok:
  assumes "lists_rel s F" "bits_rel s B" "free_ok (length (pages s)) F"
    "k \<le> BUDDY_HIGH_ORDER" "F k = x # xs"
  obtains s' where "zone_get k s = Some (Ref x, s')" "lists_rel s' (F(k := xs))"
    "bits_rel s' B" "same_outside (free_set F) (pages s) (pages s')" "ctrl s' = ctrl s"
proof -
  have vl: "\<forall>y\<in>set (x # xs). y < length (pages s)" using free_ok_valid [OF assms(3,4)] assms(5) by auto
  obtain h' f where h': "list_get (pages s) (zone_list (zones s ! k)) = Some (h', f, Ref x)"
    "dlist (nxt h') (prv h') f Null xs" "same_outside (set (x # xs)) (pages s) h'"
    using lists_relD(2) [OF assms(1,4)] vl unfolding assms(5) by (rule list_get_ok)
  have sub: "set (x # xs) \<subseteq> free_set F" using free_ok_valid [OF assms(3,4)] assms(5) by auto
  have dj: "\<forall>a\<le>BUDDY_HIGH_ORDER. a \<noteq> k \<longrightarrow> set (F a) \<inter> set (x # xs) = {}"
    using free_ok_nodes [OF assms(3) _ assms(4)] assms(5) by auto
  let ?s = "set_orders ((zones s)[k := (zones s ! k)\<lparr>zone_list := f\<rparr>]) (s\<lparr>pages := h'\<rparr>)"
  show thesis
  proof (rule that [of ?s])
    show "zone_get k s = Some (Ref x, ?s)"
      using h'(1) lists_relD(1) [OF assms(1,4)] by (simp add: zone_get_def)
    show "lists_rel ?s (F(k := xs))"
      by (rule lists_rel_update [OF assms(1,4,3) h'(3) dj h'(2)])
    show "bits_rel ?s B" using assms(2) h'(3) by (intro bits_rel_update) (simp_all add: same_outside_def)
    show "same_outside (free_set F) (pages s) (pages ?s)"
      using h'(3) sub by (auto simp: same_outside_def)
  qed simp
qed

lemma zone_get_empty:
  assumes "lists_rel s F" "k \<le> BUDDY_HIGH_ORDER" "F k = []"
  shows "zone_get k s = Some (Null, s)"
proof -
  have "zone_list (zones s ! k) = Null" using lists_relD(2) [OF assms(1,2)] assms(3) by simp
  then show ?thesis
    using lists_relD(1) [OF assms(1,2)]
    by (simp add: zone_get_def list_get_def set_orders_def zones_def list_update_same_conv)
qed

section \<open>Pairs\<close>

lemma pairs_push_same:
  assumes "2 ^ k dvd x" "x \<notin> set (F k)"
  shows "pairs (F(k := x # F k)) k j = (pairs F k j \<noteq> (j = x div 2 ^ Suc k))"
proof -
  obtain i where i: "x = i * 2 ^ k" using assms(1) by (metis dvdE mult.commute)
  have half: "x div 2 ^ Suc k = i div 2" by (simp add: i)
  have eq: "a * 2 ^ k = x \<longleftrightarrow> a = i" for a by (simp add: i)
  let ?A = "2 * j * 2 ^ k" and ?B = "(2 * j + 1) * 2 ^ k"
  have "pairs (F(k := x # F k)) k j \<longleftrightarrow>
      (2 * j = i \<or> ?A \<in> set (F k)) \<noteq> (2 * j + 1 = i \<or> ?B \<in> set (F k))"
    by (simp only: pairs_def fun_upd_same list.set insert_iff eq)
  moreover have "2 * j = i \<Longrightarrow> ?A \<notin> set (F k)" "2 * j + 1 = i \<Longrightarrow> ?B \<notin> set (F k)"
    using assms(2) i by auto
  moreover have "j = i div 2 \<longleftrightarrow> 2 * j = i \<or> 2 * j + 1 = i" "\<not> (2 * j = i \<and> 2 * j + 1 = i)"
    by presburger+
  ultimately show ?thesis unfolding half pairs_def [of F] by argo
qed

lemma pairs_push:
  assumes "2 ^ k dvd x" "x \<notin> set (F k)"
  shows "pairs (F(k := x # F k)) = toggle k (x div 2 ^ Suc k) (pairs F)"
proof (intro ext)
  fix a j
  show "pairs (F(k := x # F k)) a j = toggle k (x div 2 ^ Suc k) (pairs F) a j"
  proof (cases "a = k")
    case True
    then show ?thesis
      using pairs_push_same [of k x F j] assms by (simp only: toggle_def fun_upd_apply if_True) auto
  next
    case False
    then show ?thesis by (simp add: toggle_def pairs_def)
  qed
qed

lemma toggle_toggle [simp]: "toggle k j (toggle k j B) = B"
  by (auto simp: toggle_def)

lemma pairs_remove:
  assumes "2 ^ k dvd x" "x \<in> set (F k)" "distinct (F k)"
  shows "pairs (F(k := remove1 x (F k))) = toggle k (x div 2 ^ Suc k) (pairs F)"
proof -
  let ?F = "F(k := remove1 x (F k))"
  have "x \<notin> set (?F k)" using assms(3) by simp
  then have "pairs (?F(k := x # ?F k)) = toggle k (x div 2 ^ Suc k) (pairs ?F)"
    by (rule pairs_push [OF assms(1)])
  moreover have "pairs (?F(k := x # ?F k)) = pairs F"
    using assms(2,3) by (auto simp: pairs_def fun_eq_iff)
  ultimately show ?thesis by (metis toggle_toggle)
qed

lemma buddy_cases:
  fixes p :: nat
  assumes "2 ^ k dvd p"
  obtains i where "p = 2 * i * 2 ^ k" "p XOR 2 ^ k = (2 * i + 1) * 2 ^ k"
      "p div 2 ^ Suc k = i" "(p XOR 2 ^ k) div 2 ^ Suc k = i"
    | i where "p = (2 * i + 1) * 2 ^ k" "p XOR 2 ^ k = 2 * i * 2 ^ k"
      "p div 2 ^ Suc k = i" "(p XOR 2 ^ k) div 2 ^ Suc k = i"
proof -
  note bp = buddy_pair [OF assms refl]
  obtain i where i: "min p (p XOR 2 ^ k) = 2 ^ Suc k * i" using bp(3) by (elim dvdE)
  have d: "(2 ^ Suc k * i + 2 ^ k) div 2 ^ Suc k = i" "2 ^ Suc k * i div 2 ^ Suc k = i"
    by (simp_all add: div_mult_self4)
  show thesis
  proof (cases "p \<le> p XOR 2 ^ k")
    case True
    then have "p = 2 ^ Suc k * i" "p XOR 2 ^ k = 2 ^ Suc k * i + 2 ^ k" using i bp(5) by auto
    then show ?thesis using d by (intro that(1) [of i]) (simp_all add: algebra_simps)
  next
    case False
    then have "p XOR 2 ^ k = 2 ^ Suc k * i" "p = 2 ^ Suc k * i + 2 ^ k" using i bp(5) by auto
    then show ?thesis using d by (intro that(2) [of i]) (simp_all add: algebra_simps)
  qed
qed

lemma buddy_same_pair:
  assumes "2 ^ k dvd (p::nat)"
  shows "(p XOR 2 ^ k) div 2 ^ Suc k = p div 2 ^ Suc k"
  using assms by (cases rule: buddy_cases) simp_all

lemma pairs_held:
  assumes "2 ^ k dvd p" "p \<notin> set (F k)"
  shows "pairs F k (p div 2 ^ Suc k) \<longleftrightarrow> p XOR 2 ^ k \<in> set (F k)"
  using assms(1)
proof (cases rule: buddy_cases)
  case (1 i)
  then show ?thesis using assms(2) unfolding pairs_def 1(3) by (simp only: 1(2)) blast
next
  case (2 i)
  then show ?thesis using assms(2) unfolding pairs_def 2(3) by (simp only: 2(2)) blast
qed

section \<open>Allocation\<close>

lemma get_buddy_ok:
  "n < length h \<Longrightarrow> get_buddy h (Ref n) k = Some (Ref (n XOR 2 ^ k))"
  by (simp add: get_buddy_def page2idx_def phys2page_def order2size_def PAGE_SIZE_def)

lemma buddy_find_None:
  assumes "lists_rel s F" "spec_find order F = None"
  obtains j where "buddy_find order s = Some (Null, j, s)"
proof -
  have "\<exists>j. buddy_find order s = Some (Null, j, s)"
    using assms
  proof (induction order F rule: spec_find.induct)
    case (1 order F)
    have e: "order \<le> BUDDY_HIGH_ORDER \<Longrightarrow> F order = []" using 1(3) by (simp add: spec_find_None)
    have n: "spec_find (Suc order) F = None" using 1(3) by (simp add: spec_find_None)
    show ?case
      using e 1(1) [OF _ _ 1(2) n] zone_get_empty [OF 1(2)]
      by (subst buddy_find.simps) auto
  qed
  then show thesis using that by blast
qed

lemma buddy_find_Some:
  assumes "lists_rel s F" "bits_rel s B" "free_ok (length (pages s)) F"
    "spec_find order F = Some k" "F k = x # xs"
  obtains s' where "buddy_find order s = Some (Ref x, k, s')" "lists_rel s' (F(k := xs))"
    "bits_rel s' B" "same_outside (free_set F) (pages s) (pages s')" "ctrl s' = ctrl s"
proof -
  have "\<exists>s'. buddy_find order s = Some (Ref x, k, s') \<and> lists_rel s' (F(k := xs)) \<and>
    bits_rel s' B \<and> same_outside (free_set F) (pages s) (pages s') \<and> ctrl s' = ctrl s"
    using assms(4)
  proof (induction "Suc BUDDY_HIGH_ORDER - order" arbitrary: order)
    case 0
    then show ?case using spec_find_Some [OF 0(2)] by simp
  next
    case (Suc d)
    have le: "order \<le> BUDDY_HIGH_ORDER" using spec_find_Some [OF Suc.prems] by simp
    show ?case
    proof (cases "F order = []")
      case True
      then have "spec_find (Suc order) F = Some k" using Suc.prems le by (subst (asm) spec_find.simps) simp
      then show ?thesis
        using Suc.hyps(1) [of "Suc order"] Suc.hyps(2) True zone_get_empty [OF assms(1) le True] le
        by (subst buddy_find.simps) simp
    next
      case False
      then have k: "k = order" using Suc.prems le by (subst (asm) spec_find.simps) simp
      obtain s' where "zone_get k s = Some (Ref x, s')" "lists_rel s' (F(k := xs))"
        "bits_rel s' B" "same_outside (free_set F) (pages s) (pages s')" "ctrl s' = ctrl s"
        by (rule zone_get_ok [OF assms(1-3), of k x xs]) (use le k assms(5) in auto)
      then show ?thesis using k le by (subst buddy_find.simps) simp
    qed
  qed
  then show thesis using that by blast
qed

lemma buddy_split_ok:
  assumes "lists_rel s F" "bits_rel s (pairs F)" "free_ok (length (pages s)) F"
    "held (length (pages s)) F k p"
  obtains s' where "buddy_split (Ref p) target k s = Some s'" "lists_rel s' (spec_split p target k F)"
    "bits_rel s' (pairs (spec_split p target k F))"
    "same_outside (free_set F \<union> blk k p) (pages s) (pages s')" "ctrl s' = ctrl s"
proof -
  have "\<exists>s'. buddy_split (Ref p) target k s = Some s' \<and> lists_rel s' (spec_split p target k F) \<and>
    bits_rel s' (pairs (spec_split p target k F)) \<and>
    same_outside (free_set F \<union> blk k p) (pages s) (pages s') \<and> ctrl s' = ctrl s"
    using assms
  proof (induction k arbitrary: F s)
    case 0
    then show ?case by simp
  next
    case (Suc k)
    define G where "G = F(k := (p + 2 ^ k) # F k)"
    note mv = split_move [OF Suc.prems(3,4) G_def]
    note h = heldD [OF Suc.prems(4)]
    have k: "k < BUDDY_HIGH_ORDER" using h(1) by simp
    have b: "p XOR 2 ^ k = p + 2 ^ k" using h(2) by (rule xor_pow2_even)
    have dv: "2 ^ k dvd p" using h(2) by (rule power_le_dvd) simp
    have pos: "0 < (2::nat) ^ k" by simp
    have vp: "p < length (pages s)" and vb: "p + 2 ^ k < length (pages s)"
      using h(3) pos unfolding power_Suc by linarith+
    have sp: "(p + 2 ^ k) div 2 ^ Suc k = p div 2 ^ Suc k" using buddy_same_pair [OF dv] b by simp
    have st: "zone_status (Ref (p + 2 ^ k)) k s = Some 0"
      using zone_status_ok [OF Suc.prems(2) k vb] pairs_held [of k p F] dv mv(4,5)
      unfolding sp b by simp
    have up: "held (length (pages s)) F k (p + 2 ^ k)"
      using Suc.prems(4) by (rule held_sub) (use dv k in auto)
    obtain s1 where s1: "zone_link (Ref (p + 2 ^ k)) k s = Some s1" "lists_rel s1 G"
      "bits_rel s1 (pairs F)" "same_outside (insert (p + 2 ^ k) (free_set F)) (pages s) (pages s1)"
      "ctrl s1 = ctrl s"
      using zone_link_ok [OF Suc.prems(1-3) up] unfolding G_def by metis
    have len1: "length (pages s1) = length (pages s)" using s1(4) by (simp add: same_outside_def)
    obtain s2 where s2: "zone_flip (Ref p) k s1 = Some s2" "lists_rel s2 G"
      "bits_rel s2 (toggle k (p div 2 ^ Suc k) (pairs F))" "pages s2 = pages s1" "ctrl s2 = ctrl s1"
      by (rule zone_flip_ok [OF s1(2,3), of k p]) (use k vp len1 in auto)
    have pr: "toggle k (p div 2 ^ Suc k) (pairs F) = pairs G"
      using pairs_push [of k "p + 2 ^ k" F] mv(5) dv unfolding sp G_def by simp
    have len2: "length (pages s2) = length (pages s)" using s2(4) len1 by simp
    show ?case
    proof (cases "target \<le> k")
      case True
      obtain s3 where s3: "buddy_split (Ref p) target k s2 = Some s3" "lists_rel s3 (spec_split p target k G)"
        "bits_rel s3 (pairs (spec_split p target k G))"
        "same_outside (free_set G \<union> blk k p) (pages s2) (pages s3)" "ctrl s3 = ctrl s2"
        using Suc.IH [OF s2(2), unfolded len2] s2(3) pr mv(1,2) by metis
      have "same_outside (free_set F \<union> blk (Suc k) p) (pages s) (pages s3)"
        by (rule same_outside_trans [OF s1(4) s3(4) [unfolded s2(4)]]) (use mv(3) blk_split [of k p] in auto)
      then show ?thesis
        using True s3 s1 s2 st vp get_buddy_ok [OF vp, of k] b by (simp add: G_def)
    next
      case False
      then show ?thesis using Suc.prems by simp
    qed
  qed
  then show thesis using that by blast
qed

lemma ctrl_eqD:
  assumes "ctrl s' = ctrl s"
  shows "frame_allocator_total s' = frame_allocator_total s"
    "frame_allocator_usable s' = frame_allocator_usable s"
    "frame_allocator_free s' = frame_allocator_free s"
    "allocation_count (buddy_allocator s') = allocation_count (buddy_allocator s)"
    "deallocation_count (buddy_allocator s') = deallocation_count (buddy_allocator s)"
  using assms by (simp_all add: ctrl_def)

lemma rel_counters [simp]:
  "lists_rel (s\<lparr>frame_allocator_free := a, buddy_allocator := (buddy_allocator s)\<lparr>allocation_count := b\<rparr>\<rparr>) F
     = lists_rel s F"
  "bits_rel (s\<lparr>frame_allocator_free := a, buddy_allocator := (buddy_allocator s)\<lparr>allocation_count := b\<rparr>\<rparr>) B
     = bits_rel s B"
  "lists_rel (s\<lparr>frame_allocator_free := a, buddy_allocator := (buddy_allocator s)\<lparr>deallocation_count := b\<rparr>\<rparr>) F
     = lists_rel s F"
  "bits_rel (s\<lparr>frame_allocator_free := a, buddy_allocator := (buddy_allocator s)\<lparr>deallocation_count := b\<rparr>\<rparr>) B
     = bits_rel s B"
  by (simp_all add: lists_rel_def bits_rel_def zones_def)

text \<open>A successful allocation follows \<open>spec_alloc\<close>, and a failing one leaves the state alone.\<close>

lemma buddy_alloc_refines:
  assumes rel: "buddy_rel s F" and sp: "spec_alloc order F = Some (p, F')" and o: "order \<le> BUDDY_HIGH_ORDER"
  obtains s' where "buddy_alloc order s = Some (Ref p, s')" "buddy_rel s' F'"
    "same_outside (free_set F) (pages s) (pages s')"
    "frame_allocator_total s' = frame_allocator_total s"
    "frame_allocator_usable s' = frame_allocator_usable s"
    "frame_allocator_free s' = frame_allocator_free s - 2 ^ order"
    "allocation_count (buddy_allocator s') = allocation_count (buddy_allocator s) + 1"
    "deallocation_count (buddy_allocator s') = deallocation_count (buddy_allocator s)"
proof -
  have ok: "free_ok (length (pages s)) F" and lr: "lists_rel s F" and br: "bits_rel s (pairs F)"
    using rel by (simp_all add: buddy_rel_def)
  obtain k where k: "spec_find order F = Some k" and p: "p = hd (F k)"
    and F': "F' = spec_split p order k (F(k := tl (F k)))"
    using sp by (auto simp: spec_alloc_def split: option.splits)
  note f = spec_find_Some [OF k]
  have kh: "k \<le> BUDDY_HIGH_ORDER" using f by simp
  define G where "G = F(k := tl (F k))"
  have pop: "F k = p # tl (F k)" using f p by simp
  note mv = pop_move [OF ok kh pop, folded G_def]
  obtain s1 where s1: "buddy_find order s = Some (Ref p, k, s1)" "lists_rel s1 G"
    "bits_rel s1 (pairs F)" "same_outside (free_set F) (pages s) (pages s1)" "ctrl s1 = ctrl s"
    using buddy_find_Some [OF lr br ok k pop] unfolding G_def by metis
  have len1: "length (pages s1) = length (pages s)" using s1(4) by (simp add: same_outside_def)
  have pl: "p < length (pages s1)" using free_ok_valid(1) [OF ok kh] pop len1 by (metis list.set_intros(1))
  obtain s2 where s2: "zone_flip (Ref p) k s1 = Some s2" "lists_rel s2 G"
    "bits_rel s2 (toggle k (p div 2 ^ Suc k) (pairs F))" "pages s2 = pages s1" "ctrl s2 = ctrl s1"
    by (rule zone_flip_ok [OF s1(2,3) kh pl])
  have "pairs G = toggle k (p div 2 ^ Suc k) (pairs F)"
    using pairs_remove [of k p F] free_okD(1,2) [OF ok kh] pop unfolding G_def
    by (metis list.set_intros(1) remove1.simps(2))
  then have br2: "bits_rel s2 (pairs G)" using s2(3) by simp
  have len2: "length (pages s2) = length (pages s)" using s2(4) len1 by simp
  obtain s3 where s3: "buddy_split (Ref p) order k s2 = Some s3" "lists_rel s3 F'"
    "bits_rel s3 (pairs F')" "same_outside (free_set G \<union> blk k p) (pages s2) (pages s3)" "ctrl s3 = ctrl s2"
    using buddy_split_ok [OF s2(2) br2, unfolded len2, OF mv(1,2)] unfolding F' G_def by metis
  define s' where "s' = s3\<lparr>frame_allocator_free := frame_allocator_free s3 - of_nat (order2size order),
    buddy_allocator := (buddy_allocator s3)\<lparr>allocation_count := allocation_count (buddy_allocator s3) + 1\<rparr>\<rparr>"
  have so: "same_outside (free_set F) (pages s) (pages s3)"
    by (rule same_outside_trans [OF s1(4) s3(4) [unfolded s2(4)]]) (use mv(3) in auto)
  have "length (pages s3) = length (pages s)" using so by (simp add: same_outside_def)
  then have rel': "buddy_rel s' F'"
    using s3(2,3) spec_alloc_ok(1) [OF ok sp] unfolding s'_def buddy_rel_def by simp
  have ct: "ctrl s3 = ctrl s" using s1 s2 s3 by simp
  have run: "buddy_alloc order s = Some (Ref p, s')"
    using o s1(1) s2(1) s3(1) by (simp add: buddy_alloc_def s'_def)
  show thesis
    by (rule that [OF run rel']) (use so ctrl_eqD [OF ct] in \<open>simp_all add: s'_def order2size_def\<close>)
qed

lemma buddy_alloc_fails:
  assumes "buddy_rel s F" "spec_alloc order F = None \<or> BUDDY_HIGH_ORDER < order"
  shows "buddy_alloc order s = Some (Null, s)"
proof (cases "BUDDY_HIGH_ORDER < order")
  case True
  then show ?thesis by (simp add: buddy_alloc_def)
next
  case False
  have "lists_rel s F" using assms(1) by (simp add: buddy_rel_def)
  moreover have "spec_find order F = None"
    using assms(2) False by (simp add: spec_alloc_def split: option.splits)
  ultimately obtain j where "buddy_find order s = Some (Null, j, s)" by (rule buddy_find_None)
  then show ?thesis using False by (simp add: buddy_alloc_def)
qed

section \<open>Release\<close>

lemma buddy_merge_ok:
  assumes "lists_rel s F" "bits_rel s (pairs F)" "free_ok (length (pages s)) F"
    "held (length (pages s)) F k p" "spec_merge p k F = (q, j, F')"
  obtains s' where "buddy_merge (Ref p) k s = Some (Ref q, j, s')" "lists_rel s' F'"
    "bits_rel s' (pairs (F'(j := q # F' j)))"
    "same_outside (free_set F) (pages s) (pages s')" "ctrl s' = ctrl s"
proof -
  have "\<exists>s'. buddy_merge (Ref p) k s = Some (Ref q, j, s') \<and> lists_rel s' F' \<and>
    bits_rel s' (pairs (F'(j := q # F' j))) \<and>
    same_outside (free_set F) (pages s) (pages s') \<and> ctrl s' = ctrl s"
    using assms
  proof (induction "BUDDY_HIGH_ORDER - k" arbitrary: k p F s)
    case 0
    have k: "k = BUDDY_HIGH_ORDER" using 0(1) heldD(1) [OF 0(5)] by simp
    have eqs: "q = p" "j = k" "F' = F" using 0(6) k by (simp_all add: spec_merge.simps Let_def)
    have br: "bits_rel s (pairs (F(k := p # F k)))"
      using 0(3) k unfolding bits_rel_def pairs_def by simp
    have run: "buddy_merge (Ref p) k s = Some (Ref p, k, s)" using k by (simp add: buddy_merge.simps)
    show ?case unfolding eqs by (intro exI [of _ s] conjI run br 0(2) same_outside_refl refl)
  next
    case (Suc d)
    note h = heldD [OF Suc.prems(4)]
    have k: "k < BUDDY_HIGH_ORDER" using Suc.hyps(2) by simp
    have pin: "p \<in> blk k p" by simp
    have np: "p \<notin> set (F k)" using held_not_free [OF Suc.prems(4) h(1) pin] .
    have pos: "0 < (2::nat) ^ k" by simp
    have vp: "p < length (pages s)" using h(3) pos by linarith
    let ?j = "p div 2 ^ Suc k"
    obtain s1 where s1: "zone_flip (Ref p) k s = Some s1" "lists_rel s1 F"
      "bits_rel s1 (toggle k ?j (pairs F))" "pages s1 = pages s" "ctrl s1 = ctrl s"
      by (rule zone_flip_ok [OF Suc.prems(1,2) h(1) vp])
    define b where "b = p XOR 2 ^ k"
    have gb: "get_buddy (pages s1) (Ref p) k = Some (Ref b)"
      using get_buddy_ok [of p "pages s1" k] vp s1(4) by (simp add: b_def)
    have "pairs F k ?j \<longleftrightarrow> b \<in> set (F k)" using pairs_held [of k p F] h(2) np by (simp add: b_def)
    then have st: "zone_status (Ref p) k s1 = Some (of_bool (b \<notin> set (F k)))"
      using zone_status_ok [OF s1(3) k, of p] vp s1(4) by (simp add: toggle_def)
    show ?case
    proof (cases "b \<in> set (F k)")
      case False
      then have eqs: "q = p" "j = k" "F' = F"
        using Suc.prems(5) by (simp_all add: spec_merge.simps [of p] Let_def b_def)
      have "toggle k ?j (pairs F) = pairs (F(k := p # F k))"
        using pairs_push [of k p F] h(2) np by simp
      then show ?thesis
        using k s1 st False eqs by (simp add: buddy_merge.simps [of "Ref p"])
    next
      case True
      define G where "G = F(k := remove1 b (F k))"
      note mv = merge_move [OF Suc.prems(3,4) k b_def True G_def]
      obtain s2 where s2: "zone_unlink (Ref b) k s1 = Some s2" "lists_rel s2 G"
        "bits_rel s2 (toggle k ?j (pairs F))" "same_outside (free_set F) (pages s1) (pages s2)"
        "ctrl s2 = ctrl s1"
        using zone_unlink_ok [OF s1(2,3), unfolded s1(4), OF Suc.prems(3) h(1) True]
        unfolding G_def s1(4) by metis
      have len2: "length (pages s2) = length (pages s)" using s2(4) s1(4) by (simp add: same_outside_def)
      have db: "2 ^ k dvd b" using buddy_pair(1) [OF h(2) b_def] .
      have "b div 2 ^ Suc k = ?j" using buddy_same_pair [OF h(2)] by (simp add: b_def)
      then have "toggle k ?j (pairs F) = pairs G"
        using pairs_remove [of k b F] db True free_okD(1) [OF Suc.prems(3) h(1)] unfolding G_def by simp
      then have br2: "bits_rel s2 (pairs G)" using s2(3) by simp
      have m: "spec_merge (min p b) (Suc k) G = (q, j, F')"
        using Suc.prems(5) k True by (simp add: spec_merge.simps [of p] Let_def b_def [symmetric] G_def)
      have d: "d = BUDDY_HIGH_ORDER - Suc k" using Suc.hyps(2) by simp
      obtain s3 where s3: "buddy_merge (Ref (min p b)) (Suc k) s2 = Some (Ref q, j, s3)" "lists_rel s3 F'"
        "bits_rel s3 (pairs (F'(j := q # F' j)))"
        "same_outside (free_set G) (pages s2) (pages s3)" "ctrl s3 = ctrl s2"
        using Suc.hyps(1) [OF d s2(2) br2, unfolded len2, OF mv(1,2) m] by blast
      have sub: "free_set G \<subseteq> free_set F"
        using free_ok_remove(3) [OF Suc.prems(3) h(1) True] by (simp add: G_def)
      have "same_outside (free_set F) (pages s) (pages s3)"
        by (rule same_outside_trans [OF s2(4) [unfolded s1(4)] s3(4)]) (use sub in auto)
      then show ?thesis
        using k s1 s2 s3 st gb True by (simp add: buddy_merge.simps [of "Ref p"] min_ptr_def)
    qed
  qed
  then show thesis using that by blast
qed

lemma buddy_free_refines:
  assumes rel: "buddy_rel s F" and hd: "held (length (pages s)) F order p"
  obtains s' where "buddy_free (Ref p) order s = Some s'" "buddy_rel s' (spec_free p order F)"
    "same_outside (free_set F \<union> blk order p) (pages s) (pages s')"
    "frame_allocator_total s' = frame_allocator_total s"
    "frame_allocator_usable s' = frame_allocator_usable s"
    "frame_allocator_free s' = frame_allocator_free s + 2 ^ order"
    "allocation_count (buddy_allocator s') = allocation_count (buddy_allocator s)"
    "deallocation_count (buddy_allocator s') = deallocation_count (buddy_allocator s) + 1"
proof -
  have ok: "free_ok (length (pages s)) F" and lr: "lists_rel s F" and br: "bits_rel s (pairs F)"
    using rel by (simp_all add: buddy_rel_def)
  note h = heldD [OF hd]
  obtain q j F' where m: "spec_merge p order F = (q, j, F')" by (metis prod_cases3)
  note mg = spec_merge_ok [OF ok hd m]
  obtain s1 where s1: "buddy_merge (Ref p) order s = Some (Ref q, j, s1)" "lists_rel s1 F'"
    "bits_rel s1 (pairs (F'(j := q # F' j)))"
    "same_outside (free_set F) (pages s) (pages s1)" "ctrl s1 = ctrl s"
    by (rule buddy_merge_ok [OF lr br ok hd m])
  have len1: "length (pages s1) = length (pages s)" using s1(4) by (simp add: same_outside_def)
  obtain s2 where s2: "zone_link (Ref q) j s1 = Some s2" "lists_rel s2 (F'(j := q # F' j))"
    "bits_rel s2 (pairs (F'(j := q # F' j)))"
    "same_outside (insert q (free_set F')) (pages s1) (pages s2)" "ctrl s2 = ctrl s1"
    using zone_link_ok [OF s1(2,3), unfolded len1, OF mg(1,2)] by blast
  define s' where "s' = s2\<lparr>frame_allocator_free := frame_allocator_free s2 + of_nat (order2size order),
    buddy_allocator := (buddy_allocator s2)\<lparr>deallocation_count := deallocation_count (buddy_allocator s2) + 1\<rparr>\<rparr>"
  have qin: "q \<in> blk j q" by simp
  have so: "same_outside (free_set F \<union> blk order p) (pages s) (pages s2)"
    by (rule same_outside_trans [OF s1(4) s2(4)]) (use mg(3) qin in blast)+
  have "length (pages s2) = length (pages s)" using so by (simp add: same_outside_def)
  then have rel': "buddy_rel s' (spec_free p order F)"
    using s2(2,3) spec_free_ok(1) [OF ok hd] unfolding s'_def buddy_rel_def spec_free_def m by simp
  have pos: "0 < (2::nat) ^ order" by simp
  have "p < length (pages s)" using h(3) pos by linarith
  then have run: "buddy_free (Ref p) order s = Some s'"
    using s1(1) s2(1) h(2) by (simp add: buddy_free_def page2idx_def order2size_def s'_def)
  have ct: "ctrl s2 = ctrl s" using s1 s2 by simp
  show thesis
    by (rule that [OF run rel']) (use so ctrl_eqD [OF ct] in \<open>simp_all add: s'_def order2size_def\<close>)
qed

end
