(* ===== verification/Early_Mem.thy ===== *)
theory Early_Mem
  imports Frame_Refine
begin

text \<open>
  The boot-time first-fit allocator, \<open>kernel/src/mm/mem_init.c\<close>, and the set-up of the buddy
  allocator from what it leaves, \<open>allocator_init\<close> and \<open>buddy_init\<close> of \<open>frame_alloc.c\<close>.
  The boot loader's answer, a list of memory map entries, is a parameter: \<open>limine_map_ok\<close>
  states what the boot protocol documents about it (usable entries are page aligned in base and
  length and overlap no other usable entry, and the top of memory is below \<open>2 ^ 52\<close>).
  Physical addresses are natural numbers; the subtractions that could go below zero wrap at
  64 bits.
\<close>

section \<open>State\<close>

record memmap_entry =
  start :: nat
  len :: nat
  mtype :: nat

definition LIMINE_MEMMAP_USABLE :: nat where
  "LIMINE_MEMMAP_USABLE = 0"

definition sizeof_page :: nat where
  "sizeof_page = 48"

definition sizeof_memmap_entry :: nat where
  "sizeof_memmap_entry = 24"

definition early_mem_max_allocations :: nat where
  "early_mem_max_allocations = PAGE_SIZE div 16"

record early_state =
  memmap :: "memmap_entry list"
  early_mem_mappings :: "(nat \<times> nat) list"
  early_mem_total_pages :: nat
  early_mem_total_pages_usable :: nat
  early_mem_bytes_allocated :: nat
  early_mem_is_initialized :: bool

definition sub64 :: "nat \<Rightarrow> nat \<Rightarrow> nat" where
  "sub64 a b = (if b \<le> a then a - b else a + 2 ^ 64 - b)"

definition usable :: "memmap_entry \<Rightarrow> bool" where
  "usable e \<longleftrightarrow> mtype e = LIMINE_MEMMAP_USABLE"

definition ALIGN_UP :: "nat \<Rightarrow> nat \<Rightarrow> nat" where
  "ALIGN_UP x base = (x + base - 1) div base * base"

section \<open>The first-fit allocator\<close>

fun first_fit :: "nat \<Rightarrow> memmap_entry list \<Rightarrow> nat option" where
  "first_fit sz [] = None"
| "first_fit sz (e # es) =
     (if usable e \<and> sz \<le> len e then Some 0 else map_option Suc (first_fit sz es))"

definition cut_front :: "nat \<Rightarrow> memmap_entry \<Rightarrow> memmap_entry" where
  "cut_front n e = e\<lparr>start := start e + n, len := sub64 (len e) n\<rparr>"

text \<open>
  \<open>early_mem_alloc\<close> returns the physical address of the bytes (the code adds the constant
  \<open>hhdm->offset\<close> of the direct map). The record of the allocation is written to an array of
  \<open>early_mem_max_allocations\<close> entries, so a write behind it is a fault.
\<close>

definition early_mem_alloc :: "nat \<Rightarrow> early_state \<Rightarrow> (nat \<times> early_state) option" where
  "early_mem_alloc sz e = do {
     kassert (early_mem_is_initialized e);
     kassert (\<not> early_mem_max_allocations < length (early_mem_mappings e));
     i \<leftarrow> first_fit sz (memmap e);
     kassert (length (early_mem_mappings e) < early_mem_max_allocations);
     let ent = memmap e ! i;
     Some (start ent,
           e\<lparr>early_mem_mappings := early_mem_mappings e @ [(start ent, sz)],
             memmap := (memmap e)[i := cut_front sz ent],
             early_mem_bytes_allocated := early_mem_bytes_allocated e + sz\<rparr>)
   }"

definition usable_bytes :: "memmap_entry list \<Rightarrow> nat" where
  "usable_bytes es = sum_list (map len (filter usable es))"

definition high_address :: "memmap_entry list \<Rightarrow> nat" where
  "high_address es = foldl (\<lambda>high e. max high (start e + len e)) 0 es"

definition early_mem_init :: "memmap_entry list \<Rightarrow> (nat \<times> early_state) option" where
  "early_mem_init limine_memmap = do {
     let space = length limine_memmap * sizeof_memmap_entry;
     i \<leftarrow> first_fit space limine_memmap;
     let base = start (limine_memmap ! i);
     let e = \<lparr>memmap = map (\<lambda>ent. if start ent = base then cut_front space ent else ent) limine_memmap,
              early_mem_mappings = [],
              early_mem_total_pages = high_address limine_memmap div PAGE_SIZE,
              early_mem_total_pages_usable = usable_bytes limine_memmap div PAGE_SIZE,
              early_mem_bytes_allocated = space,
              early_mem_is_initialized = True\<rparr>;
     (_, e') \<leftarrow> early_mem_alloc (early_mem_total_pages e * sizeof_page) e;
     Some (early_mem_total_pages e', e')
   }"

definition align_entry :: "memmap_entry \<Rightarrow> memmap_entry" where
  "align_entry ent =
     (if usable ent then cut_front (ALIGN_UP (start ent) PAGE_SIZE - start ent) ent else ent)"

definition align_loss :: "memmap_entry \<Rightarrow> nat" where
  "align_loss ent = (if usable ent then ALIGN_UP (start ent) PAGE_SIZE - start ent else 0)"

definition early_mem_exit :: "early_state \<Rightarrow> (nat \<times> early_state) option" where
  "early_mem_exit e = do {
     kassert (early_mem_is_initialized e);
     let bytes = early_mem_bytes_allocated e + sum_list (map align_loss (memmap e));
     kassert (bytes AND (PAGE_SIZE - 1) = 0);
     Some (bytes, e\<lparr>memmap := map align_entry (memmap e), early_mem_bytes_allocated := bytes,
       early_mem_total_pages_usable := sub64 (early_mem_total_pages_usable e) (bytes div PAGE_SIZE)\<rparr>)
   }"

definition early_mem_statistics :: "early_state \<Rightarrow> (nat \<times> nat) option" where
  "early_mem_statistics e = do {
     kassert (early_mem_is_initialized e);
     Some (early_mem_total_pages_usable e,
           sub64 (early_mem_total_pages_usable e) (early_mem_bytes_allocated e div PAGE_SIZE))
   }"

section \<open>Initialising the buddy allocator\<close>

fun alloc_bitmaps :: "nat \<Rightarrow> nat list \<Rightarrow> early_state \<Rightarrow> (buddy_zone list \<times> early_state) option" where
  "alloc_bitmaps tot [] e = Some ([], e)"
| "alloc_bitmaps tot (order # os) e = do {
     let bitmap_order_size = tot div order2size order + 1;
     (_, e1) \<leftarrow> early_mem_alloc bitmap_order_size e;
     (zs, e2) \<leftarrow> alloc_bitmaps tot os e1;
     Some (\<lparr>bitmap = replicate bitmap_order_size 0, zone_list = Null\<rparr> # zs, e2)
   }"

function slice_entry :: "nat \<Rightarrow> nat \<Rightarrow> frame_state \<Rightarrow> frame_state option" where
  "slice_entry current stop s =
     (if current < stop then do {
        let buddy = slice_range current stop;
        s' \<leftarrow> zone_link (phys2page current) buddy s;
        slice_entry (current + order2size buddy * PAGE_SIZE) stop s'
      } else Some s)"
  by pat_completeness auto
termination
  by (relation "measure (\<lambda>(current, stop, _). stop - current)")
    (auto simp: order2size_def PAGE_SIZE_def intro!: diff_less_mono2)

declare slice_entry.simps [simp del]

fun slice_entries :: "memmap_entry list \<Rightarrow> frame_state \<Rightarrow> frame_state option" where
  "slice_entries [] s = Some s"
| "slice_entries (ent # es) s =
     (if \<not> usable ent then slice_entries es s
      else do {
        s' \<leftarrow> slice_entry (start ent) (start ent + len ent) s;
        slice_entries es s'
      })"

partial_function (option) flip_list :: "page_ptr \<Rightarrow> nat \<Rightarrow> frame_state \<Rightarrow> frame_state option" where
  "flip_list cur i s =
     (if cur = Null then Some s
      else do {
        s' \<leftarrow> zone_flip cur i s;
        n \<leftarrow> get0 (pages s') cur;
        flip_list n i s'
      })"

declare flip_list.simps [code]

fun flip_lists :: "nat list \<Rightarrow> frame_state \<Rightarrow> frame_state option" where
  "flip_lists [] s = Some s"
| "flip_lists (i # is) s = do {
     s' \<leftarrow> flip_list (zone_list (zones s ! i)) i s;
     flip_lists is s'
   }"

definition buddy_init :: "early_state \<Rightarrow> frame_state \<Rightarrow> (early_state \<times> frame_state) option" where
  "buddy_init e s = do {
     (zs, e1) \<leftarrow> alloc_bitmaps (unat (frame_allocator_total s)) [0..<Suc BUDDY_HIGH_ORDER] e;
     _ \<leftarrow> early_mem_statistics e1;
     (_, e2) \<leftarrow> early_mem_exit e1;
     (u, f) \<leftarrow> early_mem_statistics e2;
     let s1 = set_orders zs (s\<lparr>frame_allocator_usable := of_nat u, frame_allocator_free := of_nat f\<rparr>);
     s2 \<leftarrow> slice_entries (memmap e2) s1;
     s3 \<leftarrow> flip_lists [0..<Suc BUDDY_HIGH_ORDER] s2;
     Some (e2, s3)
   }"

definition zero_page :: page where
  "zero_page = \<lparr>pflags = 0, link0 = Null, link1 = Null, this_cache = None, freelist = 0,
                used_objs = 0, total_objs = 0\<rparr>"

definition allocator_init :: "memmap_entry list \<Rightarrow> (early_state \<times> frame_state) option" where
  "allocator_init limine_memmap = do {
     (total, e) \<leftarrow> early_mem_init limine_memmap;
     (u, f) \<leftarrow> early_mem_statistics e;
     buddy_init e
       \<lparr>pages = replicate total zero_page, frame_allocator_total = of_nat total,
        frame_allocator_usable = of_nat u, frame_allocator_free = of_nat f,
        buddy_allocator = \<lparr>allocation_count = 0, deallocation_count = 0, orders = []\<rparr>\<rparr>
   }"

end
