(* ===== verification/Frame_Init.thy ===== *)
theory Frame_Init
  imports Early_Mem
begin

text \<open>
  Initialisation of the frame allocator is correct: slicing the usable memory map entries
  fills the free lists with disjoint aligned blocks that cover exactly the usable pages, the
  flip loop brings the pair bitmaps in line with the lists, and the boot-time allocator before
  it hands out disjoint memory that never reaches the free lists.
\<close>

section \<open>Slicing a range into blocks\<close>

lemma alignment_order_loop_ok:
  assumes "order \<le> BUDDY_HIGH_ORDER"
  shows "order \<le> alignment_order_loop a order \<and> alignment_order_loop a order \<le> BUDDY_HIGH_ORDER \<and>
    2 ^ (alignment_order_loop a order - order) dvd a"
  using assms
proof (induction a order rule: alignment_order_loop.induct)
  case (1 a order)
  show ?case
  proof (cases "a AND 1 = 0 \<and> order < BUDDY_HIGH_ORDER")
    case True
    let ?r = "alignment_order_loop (a div 2) (Suc order)"
    have ih: "Suc order \<le> ?r \<and> ?r \<le> BUDDY_HIGH_ORDER \<and> 2 ^ (?r - Suc order) dvd a div 2"
      using 1 True by simp
    have "even a" using True by (simp add: and_one_eq even_iff_mod_2_eq_zero)
    moreover have "2 ^ (?r - order) = 2 * (2::nat) ^ (?r - Suc order)"
      using ih by (metis Suc_diff_Suc Suc_le_eq power_Suc)
    ultimately have "2 ^ (?r - order) dvd a" using ih by (metis dvd_div_iff_mult dvd_mult_div_cancel mult.commute zero_neq_numeral dvd_def)
    then show ?thesis using ih True by (subst (1 2 3) alignment_order_loop.simps) simp
  next
    case False
    then have "alignment_order_loop a order = order" by (subst alignment_order_loop.simps) auto
    then show ?thesis using 1 by simp
  qed
qed

lemma get_alignment_order_ok:
  "get_alignment_order a \<le> BUDDY_HIGH_ORDER" "2 ^ get_alignment_order a dvd a div PAGE_SIZE"
  using alignment_order_loop_ok [of 0 "a div 4096"]
  by (simp_all add: get_alignment_order_def PAGE_SIZE_def)

lemma slice_range_loop_ok:
  assumes "order \<le> BUDDY_HIGH_ORDER" "0 < sz"
  shows "order \<le> slice_range_loop sz order \<and> slice_range_loop sz order \<le> BUDDY_HIGH_ORDER \<and>
    2 ^ (slice_range_loop sz order - order) \<le> sz"
  using assms
proof (induction sz order rule: slice_range_loop.induct)
  case (1 sz order)
  show ?case
  proof (cases "sz div 2 \<noteq> 0 \<and> order < BUDDY_HIGH_ORDER")
    case True
    let ?r = "slice_range_loop (sz div 2) (Suc order)"
    have ih: "Suc order \<le> ?r \<and> ?r \<le> BUDDY_HIGH_ORDER \<and> 2 ^ (?r - Suc order) \<le> sz div 2"
      using 1 True by simp
    moreover have "2 ^ (?r - order) = 2 * (2::nat) ^ (?r - Suc order)"
      using ih by (metis Suc_diff_Suc Suc_le_eq power_Suc)
    ultimately have "2 ^ (?r - order) \<le> sz" by linarith
    then show ?thesis using ih True by (subst (1 2 3) slice_range_loop.simps) simp
  next
    case False
    then have "slice_range_loop sz order = order" by (subst slice_range_loop.simps) auto
    then show ?thesis using 1 by simp
  qed
qed

lemma slice_range_ok:
  assumes "PAGE_SIZE dvd low" "PAGE_SIZE dvd high" "low < high"
  shows "slice_range low high \<le> BUDDY_HIGH_ORDER"
    and "2 ^ slice_range low high dvd low div PAGE_SIZE"
    and "low div PAGE_SIZE + 2 ^ slice_range low high \<le> high div PAGE_SIZE"
proof -
  define a where "a = get_alignment_order low"
  define high' where "high' = min high (low + 2 ^ a * PAGE_SIZE)"
  define sz where "sz = (high' - low) div PAGE_SIZE"
  obtain l h where l: "low = l * PAGE_SIZE" and h: "high = h * PAGE_SIZE"
    using assms(1,2) by (metis dvdE mult.commute)
  have ps: "0 < PAGE_SIZE" by (simp add: PAGE_SIZE_def)
  have lh: "l < h" using assms(3) l h by simp
  have "high' = min h (l + 2 ^ a) * PAGE_SIZE"
    unfolding high'_def l h distrib_right [symmetric] using ps by (simp add: min_def)
  then have "high' - low = (min h (l + 2 ^ a) - l) * PAGE_SIZE" using l by (simp add: diff_mult_distrib)
  then have sz: "sz = min h (l + 2 ^ a) - l" using ps by (simp add: sz_def)
  then have pos: "0 < sz" using lh by (simp add: min_def)
  define k where "k = slice_range_loop sz 0"
  have sr: "slice_range low high = k"
    by (simp add: slice_range_def k_def sz_def high'_def a_def order2size_def Let_def)
  note sl = slice_range_loop_ok [of 0 sz, folded k_def]
  have kle: "2 ^ k \<le> sz" "k \<le> BUDDY_HIGH_ORDER" using sl pos by simp_all
  have "(2::nat) ^ k \<le> 2 ^ a" using kle(1) sz by linarith
  then have "k \<le> a" by simp
  then have "2 ^ k dvd low div PAGE_SIZE"
    using get_alignment_order_ok(2) [of low] unfolding a_def by (meson dvd_trans pow2_dvd_mono)
  moreover have "l + 2 ^ k \<le> h" using kle(1) sz lh by linarith
  ultimately show "slice_range low high \<le> BUDDY_HIGH_ORDER" "2 ^ slice_range low high dvd low div PAGE_SIZE"
    "low div PAGE_SIZE + 2 ^ slice_range low high \<le> high div PAGE_SIZE"
    unfolding sr using kle(2) ps by (simp_all add: l h)
qed

section \<open>Filling the free lists\<close>

definition pages_between :: "nat \<Rightarrow> nat \<Rightarrow> nat set" where
  "pages_between low high = {low div PAGE_SIZE..<high div PAGE_SIZE}"

lemma slice_entry_ok:
  assumes "lists_rel s F" "bits_rel s B" "free_ok (length (pages s)) F"
    and "PAGE_SIZE dvd current" "PAGE_SIZE dvd stop" "stop div PAGE_SIZE \<le> length (pages s)"
    and "pages_between current stop \<inter> free_set F = {}"
  shows "\<exists>s' F'. slice_entry current stop s = Some s' \<and> lists_rel s' F' \<and> bits_rel s' B \<and>
    free_ok (length (pages s)) F' \<and> free_set F' = free_set F \<union> pages_between current stop \<and>
    length (pages s') = length (pages s) \<and> ctrl s' = ctrl s"
  using assms
proof (induction "stop - current" arbitrary: current s F rule: less_induct)
  case less
  show ?case
  proof (cases "current < stop")
    case False
    then have "pages_between current stop = {}"
      by (simp add: pages_between_def div_le_mono)
    moreover have "slice_entry current stop s = Some s" using False by (simp add: slice_entry.simps)
    ultimately show ?thesis using less.prems by auto
  next
    case True
    define k where "k = slice_range current stop"
    define p where "p = current div PAGE_SIZE"
    note sr = slice_range_ok [OF less.prems(4,5) True, folded k_def p_def]
    have cur: "current = p * PAGE_SIZE" using less.prems(4) by (simp add: p_def)
    have ps: "0 < PAGE_SIZE" by (simp add: PAGE_SIZE_def)
    have split: "pages_between current stop = blk k p \<union> {p + 2 ^ k..<stop div PAGE_SIZE}"
      using sr(3) by (auto simp: pages_between_def p_def [symmetric])
    have hd: "held (length (pages s)) F k p"
      using sr less.prems(6,7) split by (auto simp: held_def)
    obtain s1 where s1: "zone_link (Ref p) k s = Some s1" "lists_rel s1 (F(k := p # F k))" "bits_rel s1 B"
      "same_outside (insert p (free_set F)) (pages s) (pages s1)" "ctrl s1 = ctrl s"
      by (rule zone_link_ok [OF less.prems(1-3) hd])
    define G where "G = F(k := p # F k)"
    have len: "length (pages s1) = length (pages s)" using s1(4) by (simp add: same_outside_def)
    have fs: "free_set G = blk k p \<union> free_set F" unfolding G_def using sr(1) by (rule free_set_push)
    let ?next = "current + order2size k * PAGE_SIZE"
    have nx: "?next = (p + 2 ^ k) * PAGE_SIZE" by (simp add: cur order2size_def algebra_simps)
    have nd: "?next div PAGE_SIZE = p + 2 ^ k" using nx ps by simp
    have "\<exists>s' F'. slice_entry ?next stop s1 = Some s' \<and> lists_rel s' F' \<and> bits_rel s' B \<and>
      free_ok (length (pages s1)) F' \<and> free_set F' = free_set G \<union> pages_between ?next stop \<and>
      length (pages s') = length (pages s1) \<and> ctrl s' = ctrl s1"
    proof (rule less.hyps)
      show "stop - ?next < stop - current" using True ps
        by (auto simp: order2size_def intro!: diff_less_mono2)
      show "lists_rel s1 G" "bits_rel s1 B" using s1 by (simp_all add: G_def)
      show "free_ok (length (pages s1)) G" unfolding G_def len by (rule free_ok_push [OF less.prems(3) hd])
      show "PAGE_SIZE dvd ?next" using nx by simp
      show "pages_between ?next stop \<inter> free_set G = {}"
        using less.prems(7) split fs nd by (auto simp: pages_between_def)
    qed (use less.prems len in auto)
    then obtain s' F' where s': "slice_entry ?next stop s1 = Some s'" "lists_rel s' F'" "bits_rel s' B"
      "free_ok (length (pages s)) F'" "free_set F' = free_set G \<union> pages_between ?next stop"
      "length (pages s') = length (pages s)" "ctrl s' = ctrl s1"
      unfolding len by blast
    have "slice_entry current stop s = Some s'"
      using True s1(1) s'(1) by (subst slice_entry.simps) (simp add: Let_def k_def [symmetric] phys2page_def p_def)
    moreover have "free_set F' = free_set F \<union> pages_between current stop"
      using s'(5) fs split nd by (auto simp: pages_between_def)
    ultimately show ?thesis using s' s1(5) by auto
  qed
qed

fun usable_pages :: "memmap_entry list \<Rightarrow> nat set" where
  "usable_pages [] = {}"
| "usable_pages (e # es) =
     (if usable e then pages_between (start e) (start e + len e) else {}) \<union> usable_pages es"

fun slices_ok :: "nat \<Rightarrow> memmap_entry list \<Rightarrow> bool" where
  "slices_ok n [] = True"
| "slices_ok n (e # es) =
     ((usable e \<longrightarrow> PAGE_SIZE dvd start e \<and> PAGE_SIZE dvd start e + len e \<and>
        (start e + len e) div PAGE_SIZE \<le> n \<and>
        pages_between (start e) (start e + len e) \<inter> usable_pages es = {}) \<and> slices_ok n es)"

lemma slice_entries_ok:
  assumes "lists_rel s F" "bits_rel s B" "free_ok (length (pages s)) F"
    and "slices_ok (length (pages s)) es" "usable_pages es \<inter> free_set F = {}"
  shows "\<exists>s' F'. slice_entries es s = Some s' \<and> lists_rel s' F' \<and> bits_rel s' B \<and>
    free_ok (length (pages s)) F' \<and> free_set F' = free_set F \<union> usable_pages es \<and>
    length (pages s') = length (pages s) \<and> ctrl s' = ctrl s"
  using assms
proof (induction es arbitrary: s F)
  case Nil
  then show ?case by auto
next
  case (Cons e es)
  show ?case
  proof (cases "usable e")
    case False
    then show ?thesis using Cons by simp
  next
    case True
    have e: "PAGE_SIZE dvd start e" "PAGE_SIZE dvd start e + len e"
      "(start e + len e) div PAGE_SIZE \<le> length (pages s)"
      "pages_between (start e) (start e + len e) \<inter> usable_pages es = {}"
      "pages_between (start e) (start e + len e) \<inter> free_set F = {}"
      using Cons.prems(4,5) True by auto
    obtain s1 F1 where s1: "slice_entry (start e) (start e + len e) s = Some s1" "lists_rel s1 F1"
      "bits_rel s1 B" "free_ok (length (pages s)) F1"
      "free_set F1 = free_set F \<union> pages_between (start e) (start e + len e)"
      "length (pages s1) = length (pages s)" "ctrl s1 = ctrl s"
      using slice_entry_ok [OF Cons.prems(1-3) e(1-3,5)] by blast
    have "usable_pages es \<inter> free_set F1 = {}" using s1(5) e(4) Cons.prems(5) by auto
    then obtain s2 F2 where "slice_entries es s1 = Some s2" "lists_rel s2 F2" "bits_rel s2 B"
      "free_ok (length (pages s)) F2" "free_set F2 = free_set F1 \<union> usable_pages es"
      "length (pages s2) = length (pages s)" "ctrl s2 = ctrl s1"
      using Cons.IH [OF s1(2,3), unfolded s1(6), OF s1(4)] Cons.prems(4) by auto
    moreover from this have "free_set F2 = free_set F \<union> usable_pages (e # es)"
      using s1(5) True by auto
    ultimately show ?thesis using True s1(1,7) by auto
  qed
qed

section \<open>Marking the pairs\<close>

lemma flip_list_ok:
  assumes "lists_rel s F" "bits_rel s (pairs G)" "i \<le> BUDDY_HIGH_ORDER"
    and "dlist (nxt (pages s)) (prv (pages s)) f b xs" "distinct xs"
    and "\<forall>x\<in>set xs. 2 ^ i dvd x \<and> x < length (pages s) \<and> x \<notin> set (G i)"
  shows "\<exists>s'. flip_list f i s = Some s' \<and> lists_rel s' F \<and> bits_rel s' (pairs (G(i := rev xs @ G i))) \<and>
    pages s' = pages s \<and> ctrl s' = ctrl s"
  using assms
proof (induction xs arbitrary: f b s G)
  case Nil
  then show ?case by (simp add: flip_list.simps)
next
  case (Cons x xs)
  have f: "f = Ref x" and dl: "dlist (nxt (pages s)) (prv (pages s)) (nxt (pages s) x) (Ref x) xs"
    using Cons.prems(4) by simp_all
  have x: "2 ^ i dvd x" "x < length (pages s)" "x \<notin> set (G i)" using Cons.prems(6) by auto
  obtain s1 where s1: "zone_flip (Ref x) i s = Some s1" "lists_rel s1 F"
    "bits_rel s1 (toggle i (x div 2 ^ Suc i) (pairs G))" "pages s1 = pages s" "ctrl s1 = ctrl s"
    by (rule zone_flip_ok [OF Cons.prems(1-3) x(2)])
  have br: "bits_rel s1 (pairs (G(i := x # G i)))" using s1(3) pairs_push [of i x G] x by simp
  have "distinct xs" "\<forall>y\<in>set xs. 2 ^ i dvd y \<and> y < length (pages s) \<and> y \<notin> set ((G(i := x # G i)) i)"
    using Cons.prems(5,6) by auto
  note ih = Cons.IH [OF s1(2) br Cons.prems(3), unfolded s1(4), OF dl this]
  have "(G(i := x # G i))(i := rev xs @ (G(i := x # G i)) i) = G(i := rev (x # xs) @ G i)" by simp
  from ih [unfolded this] obtain s2 where "flip_list (nxt (pages s) x) i s1 = Some s2" "lists_rel s2 F"
    "bits_rel s2 (pairs (G(i := rev (x # xs) @ G i)))" "pages s2 = pages s" "ctrl s2 = ctrl s1"
    by blast
  moreover from this have "flip_list f i s = Some s2"
    using s1 x(2) f by (subst flip_list.simps) simp
  ultimately show ?case using s1(5) by (intro exI [of _ s2] conjI) (assumption | simp)+
qed

lemma flip_lists_ok:
  assumes "lists_rel s F" "free_ok (length (pages s)) F" "bits_rel s (pairs (\<lambda>k. if k < m then rev (F k) else []))"
    and "m \<le> Suc BUDDY_HIGH_ORDER"
  shows "\<exists>s'. flip_lists [m..<Suc BUDDY_HIGH_ORDER] s = Some s' \<and> lists_rel s' F \<and> bits_rel s' (pairs F) \<and>
    pages s' = pages s \<and> ctrl s' = ctrl s"
  using assms
proof (induction "Suc BUDDY_HIGH_ORDER - m" arbitrary: m s)
  case 0
  then have m: "m = Suc BUDDY_HIGH_ORDER" by simp
  have "bits_rel s (pairs F)" using 0(4) unfolding bits_rel_def pairs_def m by simp
  then show ?case using 0 m by simp
next
  case (Suc d)
  let ?G = "\<lambda>m k. if k < m then rev (F k) else []"
  have m: "m \<le> BUDDY_HIGH_ORDER" using Suc.hyps(2) by simp
  note ok = free_okD [OF Suc.prems(2) m]
  have "\<forall>x\<in>set (F m). 2 ^ m dvd x \<and> x < length (pages s) \<and> x \<notin> set (?G m m)"
    using ok(2) free_ok_valid(1) [OF Suc.prems(2) m] by auto
  from flip_list_ok [OF Suc.prems(1,3) m lists_relD(2) [OF Suc.prems(1) m] ok(1) this]
  obtain s1 where s1: "flip_list (zone_list (zones s ! m)) m s = Some s1" "lists_rel s1 F"
    "bits_rel s1 (pairs ((?G m)(m := rev (F m) @ ?G m m)))" "pages s1 = pages s" "ctrl s1 = ctrl s"
    by blast
  have d: "d = Suc BUDDY_HIGH_ORDER - Suc m" using Suc.hyps(2) by linarith
  have eq: "(?G m)(m := rev (F m) @ ?G m m) = ?G (Suc m)" by (auto simp: fun_eq_iff less_Suc_eq)
  obtain s2 where "flip_lists [Suc m..<Suc BUDDY_HIGH_ORDER] s1 = Some s2" "lists_rel s2 F"
    "bits_rel s2 (pairs F)" "pages s2 = pages s" "ctrl s2 = ctrl s1"
    using Suc.hyps(1) [OF d s1(2), unfolded s1(4), OF Suc.prems(2) s1(3) [unfolded eq]] m by blast
  moreover have "[m..<Suc BUDDY_HIGH_ORDER] = m # [Suc m..<Suc BUDDY_HIGH_ORDER]"
    using m by (simp add: upt_conv_Cons)
  ultimately show ?case using s1(1,5) by simp
qed

end
