(* ===== verification/Frame_Boot.thy ===== *)
theory Frame_Boot
  imports Frame_Init
begin

text \<open>
  The boot sequence as a whole: the invariant of the first-fit allocator against the boot
  loader's memory map, and the state that \<open>allocator_init\<close> reaches from every well-formed map
  with one usable entry large enough for the boot-time tables.
\<close>

section \<open>The boot loader's map\<close>

definition limine_map_ok :: "memmap_entry list \<Rightarrow> bool" where
  "limine_map_ok M \<longleftrightarrow>
     (\<forall>m\<in>set M. usable m \<longrightarrow> PAGE_SIZE dvd start m \<and> PAGE_SIZE dvd len m \<and> 0 < len m) \<and>
     (\<forall>i<length M. \<forall>j<length M. i \<noteq> j \<and> usable (M ! i) \<and> usable (M ! j) \<longrightarrow>
        start (M ! i) + len (M ! i) \<le> start (M ! j) \<or> start (M ! j) + len (M ! j) \<le> start (M ! i)) \<and>
     high_address M < 2 ^ 52"

text \<open>The bytes the boot phase takes: the copy of the map, the page table and the bitmaps.\<close>

definition bitmap_bytes :: "nat \<Rightarrow> nat list \<Rightarrow> nat" where
  "bitmap_bytes n os = (\<Sum>order\<leftarrow>os. n div 2 ^ order + 1)"

definition boot_bytes :: "memmap_entry list \<Rightarrow> nat" where
  "boot_bytes M =
     (let n = high_address M div PAGE_SIZE
      in length M * sizeof_memmap_entry + n * sizeof_page + bitmap_bytes n [0..<Suc BUDDY_HIGH_ORDER])"

definition entry_rel :: "memmap_entry \<Rightarrow> memmap_entry \<Rightarrow> bool" where
  "entry_rel m e \<longleftrightarrow>
     mtype e = mtype m \<and> (usable m \<longrightarrow> start m \<le> start e \<and> start e + len e = start m + len m)"

definition taken :: "memmap_entry \<Rightarrow> memmap_entry \<Rightarrow> nat" where
  "taken m e = (if usable m then start e - start m else 0)"

definition mappings_ok :: "memmap_entry list \<Rightarrow> memmap_entry list \<Rightarrow> (nat \<times> nat) list \<Rightarrow> bool" where
  "mappings_ok M es ms \<longleftrightarrow>
     (\<forall>(a, l)\<in>set ms. \<exists>i<length M. usable (M ! i) \<and> start (M ! i) \<le> a \<and> a + l \<le> start (es ! i)) \<and>
     sorted_wrt (\<lambda>(a, l) (b, k). a + l \<le> b \<or> b + k \<le> a) ms"

definition early_inv :: "memmap_entry list \<Rightarrow> early_state \<Rightarrow> bool" where
  "early_inv M e \<longleftrightarrow>
     early_mem_is_initialized e \<and> list_all2 entry_rel M (memmap e) \<and>
     early_mem_bytes_allocated e = sum_list (map2 taken M (memmap e)) \<and>
     early_mem_total_pages e = high_address M div PAGE_SIZE \<and>
     early_mem_total_pages_usable e = usable_bytes M div PAGE_SIZE \<and>
     mappings_ok M (memmap e) (early_mem_mappings e)"

section \<open>First fit\<close>

lemma first_fit_Some:
  "first_fit sz es = Some i \<Longrightarrow> i < length es \<and> usable (es ! i) \<and> sz \<le> len (es ! i)"
  by (induction es arbitrary: i) (auto split: if_splits)

lemma first_fit_None: "first_fit sz es = None \<longleftrightarrow> (\<forall>e\<in>set es. \<not> (usable e \<and> sz \<le> len e))"
  by (induction es) auto

lemma cut_front_simps [simp]:
  "start (cut_front n e) = start e + n" "mtype (cut_front n e) = mtype e"
  "usable (cut_front n e) = usable e" "n \<le> len e \<Longrightarrow> len (cut_front n e) = len e - n"
  by (simp_all add: cut_front_def usable_def sub64_def)

lemma entry_relD:
  assumes "entry_rel m e"
  shows "usable e = usable m" "usable m \<Longrightarrow> start m \<le> start e" "usable m \<Longrightarrow> start e + len e = start m + len m"
  using assms by (auto simp: entry_rel_def usable_def)

lemma taken_le_bytes:
  assumes "early_inv M e" "i < length M"
  shows "taken (M ! i) (memmap e ! i) \<le> early_mem_bytes_allocated e"
proof -
  have l: "length (memmap e) = length M" using assms(1) by (auto simp: early_inv_def dest: list_all2_lengthD)
  then have "map2 taken M (memmap e) ! i \<le> sum_list (map2 taken M (memmap e))"
    using assms(2) by (intro elem_le_sum_list) simp
  then show ?thesis using assms l by (simp add: early_inv_def)
qed

lemma mappings_push:
  assumes M: "limine_map_ok M" and rel: "list_all2 entry_rel M es" and ms: "mappings_ok M es ms"
    and i: "i < length M" "usable (M ! i)" and sz: "sz \<le> len (es ! i)"
  shows "mappings_ok M (es[i := cut_front sz (es ! i)]) (ms @ [(start (es ! i), sz)])"
proof -
  let ?es = "es[i := cut_front sz (es ! i)]"
  have l: "length es = length M" using rel by (auto dest: list_all2_lengthD)
  have r: "entry_rel (M ! j) (es ! j)" if "j < length M" for j using rel that l by (simp add: list_all2_conv_all_nth)
  have mono: "start (es ! j) \<le> start (?es ! j)" for j
    using i l by (cases "j = i") simp_all
  have near: "a + k \<le> start (es ! i) \<or> start (es ! i) + sz \<le> a" if ak: "(a, k) \<in> set ms" for a k
  proof -
    obtain j where j: "j < length M" "usable (M ! j)" "start (M ! j) \<le> a" "a + k \<le> start (es ! j)"
      using ms ak by (fastforce simp: mappings_ok_def)
    show ?thesis
    proof (cases "j = i")
      case True
      then show ?thesis using j by simp
    next
      case False
      then have "start (M ! i) + len (M ! i) \<le> start (M ! j) \<or> start (M ! j) + len (M ! j) \<le> start (M ! i)"
        using M i j by (simp add: limine_map_ok_def)
      then show ?thesis
        using entry_relD(2,3) [OF r [OF i(1)] i(2)] entry_relD(2,3) [OF r [OF j(1)] j(2)] j(3,4) sz by linarith
    qed
  qed
  have "\<exists>j<length M. usable (M ! j) \<and> start (M ! j) \<le> a \<and> a + k \<le> start (?es ! j)"
    if "(a, k) \<in> set (ms @ [(start (es ! i), sz)])" for a k
  proof (cases "(a, k) \<in> set ms")
    case True
    then obtain j where "j < length M" "usable (M ! j)" "start (M ! j) \<le> a" "a + k \<le> start (es ! j)"
      using ms by (fastforce simp: mappings_ok_def)
    then show ?thesis using mono [of j] le_trans by blast
  next
    case False
    then show ?thesis using that i l entry_relD(2) [OF r [OF i(1)] i(2)] by auto
  qed
  moreover have "sorted_wrt (\<lambda>(a, l) (b, k). a + l \<le> b \<or> b + k \<le> a) (ms @ [(start (es ! i), sz)])"
    using ms near by (auto simp: mappings_ok_def sorted_wrt_append)
  ultimately show ?thesis unfolding mappings_ok_def by blast
qed

lemma cut_inv:
  assumes rel: "list_all2 entry_rel M es" and i: "i < length M" "usable (M ! i)" and sz: "sz \<le> len (es ! i)"
  shows "list_all2 entry_rel M (es[i := cut_front sz (es ! i)])"
    and "sum_list (map2 taken M (es[i := cut_front sz (es ! i)])) = sum_list (map2 taken M es) + sz"
proof -
  have l: "length es = length M" using rel by (auto dest: list_all2_lengthD)
  have r: "entry_rel (M ! i) (es ! i)" using rel i l by (simp add: list_all2_conv_all_nth)
  have "entry_rel (M ! i) (cut_front sz (es ! i))" using r i(2) sz by (auto simp: entry_rel_def)
  then show "list_all2 entry_rel M (es[i := cut_front sz (es ! i)])"
    using rel i l by (auto simp: list_all2_conv_all_nth nth_list_update)
  let ?t = "map2 taken M es"
  have "map2 taken M (es[i := cut_front sz (es ! i)]) = ?t[i := taken (M ! i) (es ! i) + sz]"
    using i l entry_relD(2) [OF r i(2)]
    by (intro nth_equalityI) (auto simp: nth_list_update taken_def)
  moreover have "?t ! i = taken (M ! i) (es ! i)" using i l by simp
  moreover have "?t ! i \<le> sum_list ?t" using i l by (intro elem_le_sum_list) simp
  ultimately show "sum_list (map2 taken M (es[i := cut_front sz (es ! i)])) = sum_list ?t + sz"
    using i l by (simp add: sum_list_update)
qed

lemma early_mem_alloc_inv:
  assumes M: "limine_map_ok M" and inv: "early_inv M e" and run: "early_mem_alloc sz e = Some (a, e')"
  shows "early_inv M e'" and "early_mem_bytes_allocated e' = early_mem_bytes_allocated e + sz"
    and "length (early_mem_mappings e') = Suc (length (early_mem_mappings e))"
proof -
  have rel: "list_all2 entry_rel M (memmap e)" using inv by (simp add: early_inv_def)
  obtain i where i: "first_fit sz (memmap e) = Some i"
    and e': "e' = e\<lparr>early_mem_mappings := early_mem_mappings e @ [(start (memmap e ! i), sz)],
             memmap := (memmap e)[i := cut_front sz (memmap e ! i)],
             early_mem_bytes_allocated := early_mem_bytes_allocated e + sz\<rparr>"
    using run by (auto simp: early_mem_alloc_def Let_def kassert_def split: Option.bind_splits if_splits)
  note ff = first_fit_Some [OF i]
  have il: "i < length M" using ff rel by (auto dest: list_all2_lengthD)
  have iu: "usable (M ! i)"
    using ff rel il entry_relD(1) [of "M ! i" "memmap e ! i"] by (simp add: list_all2_conv_all_nth)
  have sz: "sz \<le> len (memmap e ! i)" using ff by simp
  note cut = cut_inv [OF rel il iu sz]
  have mp: "mappings_ok M (memmap e) (early_mem_mappings e)" using inv by (simp add: early_inv_def)
  show "early_inv M e'"
    using inv cut mappings_push [OF M rel mp il iu sz] unfolding e' early_inv_def by simp
  show "early_mem_bytes_allocated e' = early_mem_bytes_allocated e + sz"
    "length (early_mem_mappings e') = Suc (length (early_mem_mappings e))"
    unfolding e' by simp_all
qed

lemma early_mem_alloc_succeeds:
  assumes inv: "early_inv M e" and m: "m \<in> set M" "usable m"
    and room: "early_mem_bytes_allocated e + sz \<le> len m"
    and cnt: "length (early_mem_mappings e) < early_mem_max_allocations"
  obtains a e' where "early_mem_alloc sz e = Some (a, e')"
proof -
  obtain i where i: "i < length M" "M ! i = m" using m(1) by (auto simp: in_set_conv_nth)
  have rel: "list_all2 entry_rel M (memmap e)" using inv by (simp add: early_inv_def)
  then have r: "entry_rel m (memmap e ! i)" "i < length (memmap e)"
    using i by (auto simp: list_all2_conv_all_nth)
  have "start (memmap e ! i) - start m \<le> early_mem_bytes_allocated e"
    using taken_le_bytes [OF inv i(1)] i(2) m(2) by (simp add: taken_def)
  then have "sz \<le> len (memmap e ! i)" using entry_relD(2,3) [OF r(1) m(2)] room by linarith
  then have "first_fit sz (memmap e) \<noteq> None"
    using r entry_relD(1) [OF r(1)] m(2) unfolding first_fit_None by (metis nth_mem)
  then obtain j where "first_fit sz (memmap e) = Some j" by blast
  then show thesis
    using inv cnt that by (auto simp: early_mem_alloc_def early_inv_def Let_def)
qed

section \<open>The boot sequence\<close>

lemma foldl_max_ge:
  fixes f :: "'a \<Rightarrow> nat"
  shows "high \<le> foldl (\<lambda>high e. max high (f e)) high es \<and>
    (\<forall>m\<in>set es. f m \<le> foldl (\<lambda>high e. max high (f e)) high es)"
proof (induction es arbitrary: high)
  case Nil
  then show ?case by simp
next
  case (Cons e es)
  show ?case using Cons.IH [of "max high (f e)"] by auto
qed

lemma high_address_ge: "m \<in> set M \<Longrightarrow> start m + len m \<le> high_address M"
  using foldl_max_ge [of 0 "\<lambda>e. start e + len e" M] by (simp add: high_address_def)

definition copied_map :: "memmap_entry list \<Rightarrow> nat \<Rightarrow> early_state" where
  "copied_map M i =
     \<lparr>memmap = map (\<lambda>ent. if start ent = start (M ! i)
                          then cut_front (length M * sizeof_memmap_entry) ent else ent) M,
      early_mem_mappings = [],
      early_mem_total_pages = high_address M div PAGE_SIZE,
      early_mem_total_pages_usable = usable_bytes M div PAGE_SIZE,
      early_mem_bytes_allocated = length M * sizeof_memmap_entry,
      early_mem_is_initialized = True\<rparr>"

lemma copied_map_inv:
  assumes M: "limine_map_ok M" and ff: "first_fit (length M * sizeof_memmap_entry) M = Some i"
  shows "early_inv M (copied_map M i)"
proof -
  let ?sp = "length M * sizeof_memmap_entry"
  let ?cut = "\<lambda>ent. if start ent = start (M ! i) then cut_front ?sp ent else ent"
  note f = first_fit_Some [OF ff]
  have il: "i < length M" and iu: "usable (M ! i)" and sz: "?sp \<le> len (M ! i)" using f by auto
  have only: "start (M ! j) \<noteq> start (M ! i)" if j: "j < length M" "usable (M ! j)" "j \<noteq> i" for j
  proof
    assume eq: "start (M ! j) = start (M ! i)"
    have "start (M ! i) + len (M ! i) \<le> start (M ! j) \<or> start (M ! j) + len (M ! j) \<le> start (M ! i)"
      using M il iu j by (simp add: limine_map_ok_def)
    moreover have "0 < len (M ! i)" "0 < len (M ! j)" using M il iu j by (simp_all add: limine_map_ok_def)
    ultimately show False using eq by simp
  qed
  have rel: "list_all2 entry_rel M (map ?cut M)"
  proof (rule list_all2_all_nthI)
    fix j assume j: "j < length M"
    show "entry_rel (M ! j) (map ?cut M ! j)"
      using only [OF j] sz j by (cases "j = i") (auto simp: entry_rel_def)
  qed simp
  have "map2 taken M (map ?cut M) = (replicate (length M) 0)[i := ?sp]"
  proof (rule nth_equalityI)
    fix j assume "j < length (map2 taken M (map ?cut M))"
    then show "map2 taken M (map ?cut M) ! j = (replicate (length M) 0)[i := ?sp] ! j"
      using only [of j] iu by (cases "j = i") (auto simp: taken_def)
  qed simp
  then have "sum_list (map2 taken M (map ?cut M)) = ?sp" using il by (simp add: sum_list_update)
  then show ?thesis using rel by (simp add: early_inv_def copied_map_def mappings_ok_def)
qed

lemma early_mem_init_ok:
  assumes M: "limine_map_ok M" and m: "m \<in> set M" "usable m" and room: "boot_bytes M \<le> len m"
  obtains e where "early_mem_init M = Some (high_address M div PAGE_SIZE, e)" "early_inv M e"
    "early_mem_bytes_allocated e = length M * sizeof_memmap_entry + high_address M div PAGE_SIZE * sizeof_page"
    "length (early_mem_mappings e) = 1"
proof -
  let ?n = "high_address M div PAGE_SIZE"
  have room': "length M * sizeof_memmap_entry + ?n * sizeof_page \<le> len m"
    using room by (simp add: boot_bytes_def Let_def)
  have "first_fit (length M * sizeof_memmap_entry) M \<noteq> None"
    using m room' unfolding first_fit_None by fastforce
  then obtain i where ff: "first_fit (length M * sizeof_memmap_entry) M = Some i" by blast
  note inv = copied_map_inv [OF M ff]
  obtain a e where al: "early_mem_alloc (?n * sizeof_page) (copied_map M i) = Some (a, e)"
    by (rule early_mem_alloc_succeeds [OF inv m, of "?n * sizeof_page"])
      (use room' in \<open>simp_all add: copied_map_def early_mem_max_allocations_def PAGE_SIZE_def\<close>)
  note inv' = early_mem_alloc_inv [OF M inv al]
  have "early_mem_total_pages e = ?n" using inv'(1) by (simp add: early_inv_def)
  then have "early_mem_init M = Some (?n, e)"
    using ff al by (simp add: early_mem_init_def Let_def copied_map_def)
  then show thesis using that inv' by (simp add: copied_map_def)
qed

lemma alloc_bitmaps_ok:
  assumes M: "limine_map_ok M" and inv: "early_inv M e" and m: "m \<in> set M" "usable m"
    and room: "early_mem_bytes_allocated e + bitmap_bytes n os \<le> len m"
    and cnt: "length (early_mem_mappings e) + length os \<le> early_mem_max_allocations"
  shows "\<exists>e'. alloc_bitmaps n os e =
      Some (map (\<lambda>order. \<lparr>bitmap = replicate (n div 2 ^ order + 1) 0, zone_list = Null\<rparr>) os, e') \<and>
    early_inv M e' \<and> early_mem_bytes_allocated e' = early_mem_bytes_allocated e + bitmap_bytes n os"
  using inv room cnt
proof (induction os arbitrary: e)
  case Nil
  then show ?case by (simp add: bitmap_bytes_def)
next
  case (Cons order os)
  let ?sz = "n div 2 ^ order + 1"
  have bb: "bitmap_bytes n (order # os) = ?sz + bitmap_bytes n os" by (simp add: bitmap_bytes_def)
  obtain a e1 where al: "early_mem_alloc ?sz e = Some (a, e1)"
    by (rule early_mem_alloc_succeeds [OF Cons.prems(1) m, of ?sz]) (use Cons.prems bb in auto)
  note inv1 = early_mem_alloc_inv [OF M Cons.prems(1) al]
  obtain e2 where "alloc_bitmaps n os e1 =
      Some (map (\<lambda>order. \<lparr>bitmap = replicate (n div 2 ^ order + 1) 0, zone_list = Null\<rparr>) os, e2)"
    "early_inv M e2" "early_mem_bytes_allocated e2 = early_mem_bytes_allocated e1 + bitmap_bytes n os"
    using Cons.IH [OF inv1(1)] Cons.prems(2,3) bb inv1(2,3) by auto
  then show ?case using al inv1(2) bb by (simp add: order2size_def)
qed

section \<open>Leaving the boot phase\<close>

lemma align_up:
  assumes "PAGE_SIZE dvd b" "a \<le> b"
  shows "a \<le> ALIGN_UP a PAGE_SIZE" "ALIGN_UP a PAGE_SIZE \<le> b" "PAGE_SIZE dvd ALIGN_UP a PAGE_SIZE"
proof -
  have ps: "0 < PAGE_SIZE" by (simp add: PAGE_SIZE_def)
  let ?q = "(a + PAGE_SIZE - 1) div PAGE_SIZE"
  have "a + PAGE_SIZE - 1 < ?q * PAGE_SIZE + PAGE_SIZE"
    using ps by (metis add.commute dividend_less_times_div mult.commute)
  then show "a \<le> ALIGN_UP a PAGE_SIZE" using ps by (simp add: ALIGN_UP_def)
  obtain c where c: "b = c * PAGE_SIZE" using assms(1) by (metis dvdE mult.commute)
  have "?q < c + 1"
  proof (rule div_less_iff_less_mult [THEN iffD2])
    have "a + PAGE_SIZE - 1 < b + PAGE_SIZE" using assms(2) ps by linarith
    then show "a + PAGE_SIZE - 1 < (c + 1) * PAGE_SIZE" using c by simp
  qed (rule ps)
  then show "ALIGN_UP a PAGE_SIZE \<le> b" using c by (simp add: ALIGN_UP_def)
  show "PAGE_SIZE dvd ALIGN_UP a PAGE_SIZE" by (simp add: ALIGN_UP_def)
qed

lemma align_entry_rel:
  assumes "entry_rel m e" "usable m \<Longrightarrow> PAGE_SIZE dvd start m \<and> PAGE_SIZE dvd len m"
  shows "entry_rel m (align_entry e)" "taken m (align_entry e) = taken m e + align_loss e"
    "usable m \<Longrightarrow> PAGE_SIZE dvd start (align_entry e)" "PAGE_SIZE dvd taken m (align_entry e)"
proof -
  note r = entry_relD [OF assms(1)]
  have u: "PAGE_SIZE dvd start m + len m \<and> start e \<le> start m + len m" if "usable m"
    using assms(2) r(3) that by (metis dvd_add le_add1)
  note al = align_up [of "start m + len m" "start e"]
  have cut: "ALIGN_UP (start e) PAGE_SIZE - start e \<le> len e" if "usable m"
    using al u r(3) that by (metis diff_le_mono add_diff_cancel_left')
  show rel: "entry_rel m (align_entry e)"
    using assms(1) r al u cut by (auto simp: entry_rel_def align_entry_def)
  show "taken m (align_entry e) = taken m e + align_loss e"
    using r al u by (auto simp: taken_def align_entry_def align_loss_def)
  show st: "PAGE_SIZE dvd start (align_entry e)" if "usable m"
    using that r(1) al u by (simp add: align_entry_def)
  show "PAGE_SIZE dvd taken m (align_entry e)"
    using st assms(2) by (simp add: taken_def dvd_diff_nat)
qed

lemma taken_align_sum:
  "list_all2 (\<lambda>m e. taken m (align_entry e) = taken m e + align_loss e) M es \<Longrightarrow>
   sum_list (map2 taken M (map align_entry es)) =
     sum_list (map2 taken M es) + sum_list (map align_loss es)"
  by (induction rule: list_all2_induct) simp_all

lemma dvd_sum_map2:
  "list_all2 (\<lambda>m e. d dvd f m e) M es \<Longrightarrow> (d::nat) dvd sum_list (map2 f M es)"
  by (induction rule: list_all2_induct) simp_all

lemma usable_bytes_split:
  "list_all2 entry_rel M es \<Longrightarrow> usable_bytes M = usable_bytes es + sum_list (map2 taken M es)"
proof (induction rule: list_all2_induct)
  case Nil
  then show ?case by (simp add: usable_bytes_def)
next
  case (Cons m M e es)
  have "usable m \<Longrightarrow> len m = len e + taken m e" "\<not> usable m \<Longrightarrow> taken m e = 0"
    using entry_relD(2,3) [OF Cons(1)] by (simp_all add: taken_def)
  then show ?case using Cons entry_relD(1) [OF Cons(1)] by (simp add: usable_bytes_def)
qed

lemma page_mask_dvd: "bytes AND (PAGE_SIZE - 1) = 0 \<longleftrightarrow> PAGE_SIZE dvd bytes"
proof -
  have "bytes AND (PAGE_SIZE - 1) = bytes mod PAGE_SIZE"
    using take_bit_eq_mask [of 12 bytes] by (simp add: take_bit_eq_mod mask_eq_exp_minus_1 PAGE_SIZE_def)
  then show ?thesis by (simp add: dvd_eq_mod_eq_0)
qed

lemma early_mem_exit_ok:
  assumes M: "limine_map_ok M" and inv: "early_inv M e"
  obtains bytes e' where "early_mem_exit e = Some (bytes, e')" "early_mem_bytes_allocated e' = bytes"
    "PAGE_SIZE dvd bytes" "bytes = sum_list (map2 taken M (memmap e'))"
    "list_all2 entry_rel M (memmap e')" "\<forall>ent\<in>set (memmap e'). usable ent \<longrightarrow> PAGE_SIZE dvd start ent"
    "early_mem_total_pages_usable e' = sub64 (usable_bytes M div PAGE_SIZE) (bytes div PAGE_SIZE)"
    "early_mem_is_initialized e'" "early_mem_mappings e' = early_mem_mappings e"
    "mappings_ok M (memmap e') (early_mem_mappings e')" "early_mem_bytes_allocated e \<le> bytes"
proof -
  let ?es = "memmap e" and ?es' = "map align_entry (memmap e)"
  have rel: "list_all2 entry_rel M ?es" using inv by (simp add: early_inv_def)
  have l: "length ?es = length M" using rel by (auto dest: list_all2_lengthD)
  have al: "entry_rel (M ! i) (?es ! i)" "usable (M ! i) \<Longrightarrow> PAGE_SIZE dvd start (M ! i) \<and> PAGE_SIZE dvd len (M ! i)"
    if "i < length M" for i
    using rel M that by (auto simp: list_all2_conv_all_nth limine_map_ok_def)
  note ar = align_entry_rel [OF al]
  have rel': "list_all2 entry_rel M ?es'" using ar(1) l by (simp add: list_all2_conv_all_nth)
  define bytes where "bytes = early_mem_bytes_allocated e + sum_list (map align_loss ?es)"
  have sum: "bytes = sum_list (map2 taken M ?es')"
    using ar(2) l inv by (subst taken_align_sum) (auto simp: list_all2_conv_all_nth bytes_def early_inv_def)
  have dv: "PAGE_SIZE dvd bytes" unfolding sum
    using ar(4) l by (intro dvd_sum_map2) (simp add: list_all2_conv_all_nth)
  define e' where "e' = e\<lparr>memmap := ?es', early_mem_bytes_allocated := bytes,
    early_mem_total_pages_usable := sub64 (early_mem_total_pages_usable e) (bytes div PAGE_SIZE)\<rparr>"
  have run: "early_mem_exit e = Some (bytes, e')"
  proof -
    have "early_mem_is_initialized e" using inv by (simp add: early_inv_def)
    then show ?thesis
      unfolding early_mem_exit_def Let_def bytes_def [symmetric] page_mask_dvd using dv by (simp add: e'_def)
  qed
  have st: "\<forall>ent\<in>set ?es'. usable ent \<longrightarrow> PAGE_SIZE dvd start ent"
    using ar(3) l entry_relD(1) [OF ar(1)] by (auto simp: in_set_conv_nth)
  have mono: "start (?es ! i) \<le> start (?es' ! i)" if "i < length M" for i
    using that l by (simp add: align_entry_def)
  have mp: "mappings_ok M ?es' (early_mem_mappings e)"
  proof -
    have "mappings_ok M ?es (early_mem_mappings e)" using inv by (simp add: early_inv_def)
    then show ?thesis using mono unfolding mappings_ok_def by (fastforce intro: le_trans)
  qed
  show thesis
    by (rule that [OF run])
      (use dv sum rel' st mp inv bytes_def in \<open>simp_all add: e'_def early_inv_def\<close>)
qed

section \<open>Entries and pages\<close>

lemma usable_pages_iff:
  "x \<in> usable_pages es \<longleftrightarrow> (\<exists>e\<in>set es. usable e \<and> x \<in> pages_between (start e) (start e + len e))"
  by (induction es) auto

lemma slices_okI:
  assumes "\<And>i. i < length es \<Longrightarrow> usable (es ! i) \<Longrightarrow> PAGE_SIZE dvd start (es ! i) \<and>
      PAGE_SIZE dvd start (es ! i) + len (es ! i) \<and> (start (es ! i) + len (es ! i)) div PAGE_SIZE \<le> n"
    and "\<And>i j. i < j \<Longrightarrow> j < length es \<Longrightarrow> usable (es ! i) \<Longrightarrow> usable (es ! j) \<Longrightarrow>
      pages_between (start (es ! i)) (start (es ! i) + len (es ! i)) \<inter>
      pages_between (start (es ! j)) (start (es ! j) + len (es ! j)) = {}"
  shows "slices_ok n es"
  using assms
proof (induction es)
  case Nil
  then show ?case by simp
next
  case (Cons e es)
  have "slices_ok n es"
  proof (rule Cons.IH)
    show "PAGE_SIZE dvd start (es ! i) \<and> PAGE_SIZE dvd start (es ! i) + len (es ! i) \<and>
      (start (es ! i) + len (es ! i)) div PAGE_SIZE \<le> n" if "i < length es" "usable (es ! i)" for i
      using Cons.prems(1) [of "Suc i"] that by simp
    show "pages_between (start (es ! i)) (start (es ! i) + len (es ! i)) \<inter>
      pages_between (start (es ! j)) (start (es ! j) + len (es ! j)) = {}"
      if "i < j" "j < length es" "usable (es ! i)" "usable (es ! j)" for i j
      using Cons.prems(2) [of "Suc i" "Suc j"] that by simp
  qed
  moreover have "pages_between (start e) (start e + len e) \<inter> usable_pages es = {}" if "usable e"
  proof -
    have "pages_between (start e) (start e + len e) \<inter> pages_between (start x) (start x + len x) = {}"
      if "x \<in> set es" "usable x" for x
      using Cons.prems(2) [of 0 "Suc j" for j] that \<open>usable e\<close> by (auto simp: in_set_conv_nth)
    then show ?thesis by (fastforce simp: usable_pages_iff)
  qed
  moreover have "usable e \<Longrightarrow> PAGE_SIZE dvd start e \<and> PAGE_SIZE dvd start e + len e \<and>
      (start e + len e) div PAGE_SIZE \<le> n" using Cons.prems(1) [of 0] by simp
  ultimately show ?case by simp
qed

lemma card_usable_pages:
  assumes "slices_ok n es"
  shows "finite (usable_pages es) \<and> card (usable_pages es) * PAGE_SIZE = usable_bytes es"
  using assms
proof (induction es)
  case Nil
  then show ?case by (simp add: usable_bytes_def)
next
  case (Cons e es)
  have ps: "0 < PAGE_SIZE" by (simp add: PAGE_SIZE_def)
  show ?case
  proof (cases "usable e")
    case True
    have dv: "PAGE_SIZE dvd start e" "PAGE_SIZE dvd start e + len e"
      and dj: "pages_between (start e) (start e + len e) \<inter> usable_pages es = {}"
      using Cons.prems True by auto
    obtain a where a: "start e = a * PAGE_SIZE" using dv(1) by (metis dvdE mult.commute)
    have "PAGE_SIZE dvd len e" using dv by (meson dvd_add_right_iff)
    then obtain b where b: "len e = b * PAGE_SIZE" by (metis dvdE mult.commute)
    have "start e + len e = (a + b) * PAGE_SIZE" by (simp add: a b distrib_right)
    then have "pages_between (start e) (start e + len e) = {a..<a + b}"
      unfolding pages_between_def using a ps by simp
    then show ?thesis
      using Cons True dj b by (simp add: usable_bytes_def card_Un_disjoint distrib_right)
  next
    case False
    then show ?thesis using Cons by (simp add: usable_bytes_def)
  qed
qed

section \<open>The initial allocator\<close>

definition empty_zones :: "nat \<Rightarrow> buddy_zone list" where
  "empty_zones n =
     map (\<lambda>order. \<lparr>bitmap = replicate (n div 2 ^ order + 1) 0, zone_list = Null\<rparr>) [0..<Suc BUDDY_HIGH_ORDER]"

lemma empty_zones_rel:
  assumes "zones s = empty_zones (length (pages s))"
  shows "lists_rel s (\<lambda>_. [])" "bits_rel s (pairs (\<lambda>_. []))"
proof -
  have z: "zones s ! k = \<lparr>bitmap = replicate (length (pages s) div 2 ^ k + 1) 0, zone_list = Null\<rparr>"
    if "k \<le> BUDDY_HIGH_ORDER" for k
    using that unfolding assms empty_zones_def by (subst nth_map) (auto simp del: upt_Suc)
  have "length (pages s) div 2 ^ Suc k div 8 \<le> length (pages s) div 2 ^ k" for k
    by (simp add: div_mult2_eq [symmetric] div_le_mono2)
  then have "length (pages s) div 2 ^ Suc k div 8 < length (pages s) div 2 ^ k + 1" for k
    by (metis Suc_eq_plus1 le_imp_less_Suc)
  moreover have "length (zones s) = Suc BUDDY_HIGH_ORDER" unfolding assms empty_zones_def by simp
  ultimately show rel: "lists_rel s (\<lambda>_. [])" by (simp add: lists_rel_def z)
  show "bits_rel s (pairs (\<lambda>_. []))"
    unfolding bits_rel_def
  proof (intro allI impI)
    fix k n assume k: "k < BUDDY_HIGH_ORDER" and n: "n < length (pages s)"
    have kle: "k \<le> BUDDY_HIGH_ORDER" using k by simp
    have "n div 2 ^ Suc k div 8 < length (pages s) div 2 ^ k + 1"
      using lists_relD(3) [OF rel kle n] by (simp add: z [OF kle])
    then have "bit (bitmap (zones s ! k) ! (n div 2 ^ Suc k div 8)) (n div 2 ^ Suc k mod 8) = False"
      by (simp add: z [OF kle] del: replicate_Suc power_Suc)
    then show "order_status_at n k (zones s) = Some (of_bool (pairs (\<lambda>_. []) k (n div 2 ^ Suc k)))"
      unfolding order_status_bit [OF rel kle n] by (simp add: pairs_def)
  qed
qed

lemma slices_after_boot:
  assumes M: "limine_map_ok M" and rel: "list_all2 entry_rel M es"
    and st: "\<forall>ent\<in>set es. usable ent \<longrightarrow> PAGE_SIZE dvd start ent"
  shows "slices_ok (high_address M div PAGE_SIZE) es"
proof (rule slices_okI)
  have l: "length es = length M" using rel by (auto dest: list_all2_lengthD)
  have r: "entry_rel (M ! i) (es ! i)" if "i < length M" for i
    using rel that by (simp add: list_all2_conv_all_nth)
  have fin: "start (es ! i) + len (es ! i) = start (M ! i) + len (M ! i) \<and> usable (M ! i) \<and>
      start (M ! i) \<le> start (es ! i)" if "i < length es" "usable (es ! i)" for i
    using entry_relD [OF r [of i]] that l by simp
  have mi: "PAGE_SIZE dvd start (M ! i) + len (M ! i)" if "i < length M" "usable (M ! i)" for i
    using M that by (simp add: limine_map_ok_def)
  show "PAGE_SIZE dvd start (es ! i) \<and> PAGE_SIZE dvd start (es ! i) + len (es ! i) \<and>
      (start (es ! i) + len (es ! i)) div PAGE_SIZE \<le> high_address M div PAGE_SIZE"
    if "i < length es" "usable (es ! i)" for i
    using fin [OF that] mi [of i] st that l high_address_ge [of "M ! i" M] by (simp add: div_le_mono)
  show "pages_between (start (es ! i)) (start (es ! i) + len (es ! i)) \<inter>
      pages_between (start (es ! j)) (start (es ! j) + len (es ! j)) = {}"
    if "i < j" "j < length es" "usable (es ! i)" "usable (es ! j)" for i j
  proof -
    have i: "i < length es" using that by simp
    note fi = fin [OF i that(3)] and fj = fin [OF that(2,4)]
    have "start (M ! i) + len (M ! i) \<le> start (M ! j) \<or> start (M ! j) + len (M ! j) \<le> start (M ! i)"
      using M that i fi fj l unfolding limine_map_ok_def by auto
    then have "start (es ! i) + len (es ! i) \<le> start (es ! j) \<or> start (es ! j) + len (es ! j) \<le> start (es ! i)"
      using fi fj by linarith
    then show ?thesis by (auto simp: pages_between_def dest: div_le_mono [where k = PAGE_SIZE])
  qed
qed

lemma buddy_init_ok:
  assumes M: "limine_map_ok M" and inv: "early_inv M e" and m: "m \<in> set M" "usable m"
    and n: "n = high_address M div PAGE_SIZE" and s: "length (pages s) = n" "frame_allocator_total s = of_nat n"
    and room: "early_mem_bytes_allocated e + bitmap_bytes n [0..<Suc BUDDY_HIGH_ORDER] \<le> len m"
    and cnt: "length (early_mem_mappings e) + Suc BUDDY_HIGH_ORDER \<le> early_mem_max_allocations"
  obtains e' s' F bytes where "buddy_init e s = Some (e', s')" "buddy_rel s' F" "length (pages s') = n"
    "free_set F = usable_pages (memmap e')" "mappings_ok M (memmap e') (early_mem_mappings e')"
    "list_all2 entry_rel M (memmap e')" "\<forall>ent\<in>set (memmap e'). usable ent \<longrightarrow> PAGE_SIZE dvd start ent"
    "PAGE_SIZE dvd bytes" "early_mem_bytes_allocated e' = bytes"
    "frame_allocator_total s' = of_nat n"
    "frame_allocator_usable s' = of_nat (card (free_set F))"
    "frame_allocator_free s' = of_nat (sub64 (card (free_set F)) (bytes div PAGE_SIZE))"
    "early_mem_bytes_allocated e \<le> bytes"
proof -
  have nb: "unat (frame_allocator_total s) = n"
  proof -
    have "n \<le> high_address M" using n by simp
    moreover have "high_address M < 2 ^ 52" using M by (simp add: limine_map_ok_def)
    ultimately have "n < 2 ^ 64" by simp
    then show ?thesis using s(2) by (simp add: unat_of_nat take_bit_nat_eq_self)
  qed
  obtain e1 where e1: "alloc_bitmaps n [0..<Suc BUDDY_HIGH_ORDER] e = Some (empty_zones n, e1)" "early_inv M e1"
    "early_mem_bytes_allocated e \<le> early_mem_bytes_allocated e1"
    using alloc_bitmaps_ok [OF M inv m room] cnt unfolding empty_zones_def by auto
  have st1: "\<exists>x. early_mem_statistics e1 = Some x"
    using e1(2) by (simp add: early_mem_statistics_def early_inv_def)
  obtain bytes e2 where e2: "early_mem_exit e1 = Some (bytes, e2)" "early_mem_bytes_allocated e2 = bytes"
    "PAGE_SIZE dvd bytes" "bytes = sum_list (map2 taken M (memmap e2))"
    "list_all2 entry_rel M (memmap e2)" "\<forall>ent\<in>set (memmap e2). usable ent \<longrightarrow> PAGE_SIZE dvd start ent"
    "early_mem_total_pages_usable e2 = sub64 (usable_bytes M div PAGE_SIZE) (bytes div PAGE_SIZE)"
    "early_mem_is_initialized e2" "mappings_ok M (memmap e2) (early_mem_mappings e2)"
    "early_mem_bytes_allocated e1 \<le> bytes"
    by (rule early_mem_exit_ok [OF M e1(2)])
  note sl = slices_after_boot [OF M e2(5,6), folded n]
  note cu = card_usable_pages [OF sl]
  have ps: "0 < PAGE_SIZE" by (simp add: PAGE_SIZE_def)
  let ?c = "card (usable_pages (memmap e2))"
  have "usable_bytes M = ?c * PAGE_SIZE + bytes" using usable_bytes_split [OF e2(5)] cu e2(4) by simp
  then have "usable_bytes M div PAGE_SIZE = ?c + bytes div PAGE_SIZE" using ps by simp
  then have us: "early_mem_total_pages_usable e2 = ?c" using e2(7) by (simp add: sub64_def)
  have st2: "early_mem_statistics e2 = Some (?c, sub64 ?c (bytes div PAGE_SIZE))"
    using e2(2,8) us by (simp add: early_mem_statistics_def)
  define s1 where "s1 = set_orders (empty_zones n)
    (s\<lparr>frame_allocator_usable := of_nat ?c, frame_allocator_free := of_nat (sub64 ?c (bytes div PAGE_SIZE))\<rparr>)"
  have s1: "zones s1 = empty_zones (length (pages s1))" "length (pages s1) = n"
    using s(1) by (simp_all add: s1_def)
  note er = empty_zones_rel [OF s1(1)]
  have "free_ok (length (pages s1)) (\<lambda>_. [])" by (simp add: free_ok_def)
  from slice_entries_ok [OF er this, unfolded s1(2), OF sl]
  obtain s2 F where s2: "slice_entries (memmap e2) s1 = Some s2" "lists_rel s2 F"
    "bits_rel s2 (pairs (\<lambda>_. []))" "free_ok n F" "free_set F = usable_pages (memmap e2)"
    "length (pages s2) = n" "ctrl s2 = ctrl s1"
    by (auto simp: free_set_def)
  have "bits_rel s2 (pairs (\<lambda>k. if k < 0 then rev (F k) else []))" using s2(3) by simp
  from flip_lists_ok [OF s2(2), unfolded s2(6), OF s2(4) this]
  obtain s3 where s3: "flip_lists [0..<Suc BUDDY_HIGH_ORDER] s2 = Some s3" "lists_rel s3 F"
    "bits_rel s3 (pairs F)" "pages s3 = pages s2" "ctrl s3 = ctrl s2" by blast
  have run: "buddy_init e s = Some (e2, s3)"
    using e1(1) st1 e2(1) st2 s2(1) s3(1) by (auto simp: buddy_init_def nb Let_def s1_def [symmetric] simp del: upt_Suc)
  have br: "buddy_rel s3 F" using s3 s2(4,6) by (simp add: buddy_rel_def)
  have "ctrl s3 = ctrl s1" using s3(5) s2(7) by simp
  note ct = ctrl_eqD [OF this]
  show thesis
    by (rule that [OF run br _ s2(5) e2(9,5,6,3,2)])
      (use s3(4) s2(5,6) ct s e1(3) e2(10) in \<open>simp_all add: s1_def set_orders_def\<close>)
qed

lemma allocator_init_ok:
  assumes M: "limine_map_ok M" and m: "m \<in> set M" "usable m" and room: "boot_bytes M \<le> len m"
  obtains e s F bytes where "allocator_init M = Some (e, s)" "buddy_rel s F"
    "length (pages s) = high_address M div PAGE_SIZE"
    "free_set F = usable_pages (memmap e)" "mappings_ok M (memmap e) (early_mem_mappings e)"
    "list_all2 entry_rel M (memmap e)" "\<forall>ent\<in>set (memmap e). usable ent \<longrightarrow> PAGE_SIZE dvd start ent"
    "PAGE_SIZE dvd bytes" "early_mem_bytes_allocated e = bytes"
    "frame_allocator_total s = of_nat (high_address M div PAGE_SIZE)"
    "frame_allocator_usable s = of_nat (card (free_set F))"
    "frame_allocator_free s = of_nat (sub64 (card (free_set F)) (bytes div PAGE_SIZE))"
    "0 < bytes"
proof -
  let ?n = "high_address M div PAGE_SIZE"
  obtain e where e: "early_mem_init M = Some (?n, e)" "early_inv M e"
    "early_mem_bytes_allocated e = length M * sizeof_memmap_entry + ?n * sizeof_page"
    "length (early_mem_mappings e) = 1"
    by (rule early_mem_init_ok [OF M m room])
  obtain u f where uf: "early_mem_statistics e = Some (u, f)"
    using e(2) by (simp add: early_mem_statistics_def early_inv_def)
  let ?s = "\<lparr>pages = replicate ?n zero_page, frame_allocator_total = of_nat ?n,
        frame_allocator_usable = of_nat u, frame_allocator_free = of_nat f,
        buddy_allocator = \<lparr>allocation_count = 0, deallocation_count = 0, orders = []\<rparr>\<rparr>"
  have eq: "allocator_init M = buddy_init e ?s" by (simp add: allocator_init_def e(1) uf)
  have r: "early_mem_bytes_allocated e + bitmap_bytes ?n [0..<Suc BUDDY_HIGH_ORDER] \<le> len m"
    using room e(3) by (simp add: boot_bytes_def Let_def)
  have c: "length (early_mem_mappings e) + Suc BUDDY_HIGH_ORDER \<le> early_mem_max_allocations"
    using e(4) by (simp add: early_mem_max_allocations_def PAGE_SIZE_def BUDDY_HIGH_ORDER_def)
  have "0 < length M" using m(1) by (auto simp: length_pos_if_in_set)
  then have pos: "0 < early_mem_bytes_allocated e" using e(3) by (simp add: sizeof_memmap_entry_def)
  obtain e' s' F bytes where i: "buddy_init e ?s = Some (e', s')" "buddy_rel s' F" "length (pages s') = ?n"
    "free_set F = usable_pages (memmap e')" "mappings_ok M (memmap e') (early_mem_mappings e')"
    "list_all2 entry_rel M (memmap e')" "\<forall>ent\<in>set (memmap e'). usable ent \<longrightarrow> PAGE_SIZE dvd start ent"
    "PAGE_SIZE dvd bytes" "early_mem_bytes_allocated e' = bytes"
    "frame_allocator_total s' = of_nat ?n"
    "frame_allocator_usable s' = of_nat (card (free_set F))"
    "frame_allocator_free s' = of_nat (sub64 (card (free_set F)) (bytes div PAGE_SIZE))"
    "early_mem_bytes_allocated e \<le> bytes"
    by (rule buddy_init_ok [OF M e(2) m refl _ _ r c, of ?s]) simp_all
  have "0 < bytes" using pos i(13) by linarith
  with i(1-12) eq show thesis by (intro that [of e' s' F bytes]) simp_all
qed

lemma mapping_not_free:
  assumes M: "limine_map_ok M" and rel: "list_all2 entry_rel M es" and ms: "mappings_ok M es ms"
    and al: "\<forall>ent\<in>set es. usable ent \<longrightarrow> PAGE_SIZE dvd start ent" and a: "(a, l) \<in> set ms"
  shows "\<exists>x\<in>set M. usable x \<and> start x \<le> a \<and> a + l \<le> start x + len x"
    and "a \<le> byte \<Longrightarrow> byte < a + l \<Longrightarrow> byte div PAGE_SIZE \<notin> usable_pages es"
proof -
  obtain i where i: "i < length M" "usable (M ! i)" "start (M ! i) \<le> a" "a + l \<le> start (es ! i)"
    using ms a by (fastforce simp: mappings_ok_def)
  have r: "entry_rel (M ! j) (es ! j)" if "j < length M" for j using rel that by (simp add: list_all2_conv_all_nth)
  have l: "length es = length M" using rel by (auto dest: list_all2_lengthD)
  note ri = entry_relD [OF r [OF i(1)]]
  show "\<exists>x\<in>set M. usable x \<and> start x \<le> a \<and> a + l \<le> start x + len x"
    by (rule bexI [of _ "M ! i"]) (use i ri in auto)
  assume b: "a \<le> byte" "byte < a + l"
  show "byte div PAGE_SIZE \<notin> usable_pages es"
  proof
    assume "byte div PAGE_SIZE \<in> usable_pages es"
    then obtain j where j: "j < length M" "usable (es ! j)"
      "byte div PAGE_SIZE \<in> pages_between (start (es ! j)) (start (es ! j) + len (es ! j))"
      using l by (auto simp: usable_pages_iff in_set_conv_nth)
    note rj = entry_relD [OF r [OF j(1)]]
    have uj: "usable (M ! j)" using j(2) rj(1) by simp
    have "PAGE_SIZE dvd start (es ! j)" using al j l by simp
    then have lo: "start (es ! j) \<le> byte"
      using j(3) by (simp add: pages_between_def) (metis div_times_less_eq_dividend dvd_div_mult_self le_trans mult_le_mono1)
    have "PAGE_SIZE dvd start (M ! j) + len (M ! j)" using M uj j(1) by (simp add: limine_map_ok_def)
    then have hi: "byte < start (M ! j) + len (M ! j)"
      using j(3) rj(3) [OF uj]
      by (simp add: pages_between_def) (metis div_le_mono leD leI)
    show False
    proof (cases "j = i")
      case True
      then show False using lo b i(4) by simp
    next
      case False
      then have "start (M ! i) + len (M ! i) \<le> start (M ! j) \<or> start (M ! j) + len (M ! j) \<le> start (M ! i)"
        using M i(1,2) j(1) uj by (simp add: limine_map_ok_def)
      then show False using ri(2,3) [OF i(2)] rj(2,3) [OF uj] lo hi i(3,4) b by linarith
    qed
  qed
qed

end
