(* ===== verification/Frame_Contract.thy ===== *)
theory Frame_Contract
  imports Frame_Boot
begin

text \<open>
  The contract of the frame allocator as its clients see it, and what follows for a client.
  \<open>frame_provider\<close> is the interface: an allocation never stops the kernel and either fails
  without effect or takes an aligned block out of the set of free pages, a release of a block
  that the client holds puts it back, and neither touches the \<open>struct page\<close> of a page that is
  not free. \<open>alloc_trace\<close> is a client that allocates and releases blocks in any order; the
  lemmas of the locale give the invariant of every such run. The interpretation discharges the
  contract for \<open>buddy_alloc\<close> and \<open>buddy_free\<close>.
\<close>

section \<open>Client runs\<close>

inductive alloc_trace ::
  "(nat \<Rightarrow> 's \<Rightarrow> (nat ptr \<times> 's) option) \<Rightarrow> (nat ptr \<Rightarrow> nat \<Rightarrow> 's \<Rightarrow> 's option) \<Rightarrow> 's \<Rightarrow>
   's \<Rightarrow> (nat \<times> nat) list \<Rightarrow> bool"
  for alloc release s0 where
    boot: "alloc_trace alloc release s0 s0 []"
  | taken: "alloc_trace alloc release s0 s L \<Longrightarrow> alloc order s = Some (Ref p, s') \<Longrightarrow>
      alloc_trace alloc release s0 s' ((order, p) # L)"
  | failed: "alloc_trace alloc release s0 s L \<Longrightarrow> alloc order s = Some (Null, s') \<Longrightarrow>
      alloc_trace alloc release s0 s' L"
  | released: "alloc_trace alloc release s0 s L \<Longrightarrow> (order, p) \<in> set L \<Longrightarrow>
      release (Ref p) order s = Some s' \<Longrightarrow> alloc_trace alloc release s0 s' (remove1 (order, p) L)"

definition live :: "(nat \<times> nat) list \<Rightarrow> nat set" where
  "live L = (\<Union>(order, p)\<in>set L. blk order p)"

definition live_ok :: "nat \<Rightarrow> (nat \<times> nat) list \<Rightarrow> bool" where
  "live_ok n L \<longleftrightarrow>
     (\<forall>(order, p)\<in>set L. order \<le> BUDDY_HIGH_ORDER \<and> 2 ^ order dvd p \<and> p + 2 ^ order \<le> n) \<and>
     sorted_wrt (\<lambda>(a, p) (b, q). blk a p \<inter> blk b q = {}) L"

lemma live_Cons [simp]: "live ((order, p) # L) = blk order p \<union> live L"
  by (simp add: live_def)

lemma live_Nil [simp]: "live [] = {}"
  by (simp add: live_def)

lemma live_ok_Cons:
  "live_ok n ((order, p) # L) \<longleftrightarrow>
     order \<le> BUDDY_HIGH_ORDER \<and> 2 ^ order dvd p \<and> p + 2 ^ order \<le> n \<and> blk order p \<inter> live L = {} \<and> live_ok n L"
  by (auto simp: live_ok_def live_def)

lemma live_remove:
  assumes "live_ok n L" "(order, p) \<in> set L"
  shows "live_ok n (remove1 (order, p) L)" "live L = blk order p \<union> live (remove1 (order, p) L)"
    "blk order p \<inter> live (remove1 (order, p) L) = {}"
  using assms
proof (induction L)
  case (Cons a L)
  { case 1 then show ?case using Cons.IH(1,2) by (cases a) (auto simp: live_ok_Cons) }
  { case 2 then show ?case using Cons.IH(2) by (cases a) (auto simp: live_ok_Cons) }
  { case 3 then show ?case using Cons.IH(2,3) by (cases a) (auto simp: live_ok_Cons) }
qed simp_all

section \<open>The contract\<close>

locale frame_provider =
  fixes ok :: "'s \<Rightarrow> nat set \<Rightarrow> bool"
    and size_of :: "'s \<Rightarrow> nat"
    and alloc :: "nat \<Rightarrow> 's \<Rightarrow> (nat ptr \<times> 's) option"
    and release :: "nat ptr \<Rightarrow> nat \<Rightarrow> 's \<Rightarrow> 's option"
  assumes alloc_ok: "ok s A \<Longrightarrow>
      alloc order s = Some (Null, s) \<or>
      (\<exists>p s'. alloc order s = Some (Ref p, s') \<and> order \<le> BUDDY_HIGH_ORDER \<and> 2 ^ order dvd p \<and>
         p + 2 ^ order \<le> size_of s \<and> blk order p \<subseteq> A \<and> ok s' (A - blk order p) \<and> size_of s' = size_of s)"
    and release_ok: "ok s A \<Longrightarrow> order \<le> BUDDY_HIGH_ORDER \<Longrightarrow> 2 ^ order dvd p \<Longrightarrow>
      p + 2 ^ order \<le> size_of s \<Longrightarrow> blk order p \<inter> A = {} \<Longrightarrow>
      \<exists>s'. release (Ref p) order s = Some s' \<and> ok s' (A \<union> blk order p) \<and> size_of s' = size_of s"
    and ok_finite: "ok s A \<Longrightarrow> finite A"
begin

lemma alloc_RefD:
  assumes "ok s A" "alloc order s = Some (Ref p, s')"
  shows "order \<le> BUDDY_HIGH_ORDER" "2 ^ order dvd p" "p + 2 ^ order \<le> size_of s" "blk order p \<subseteq> A"
    "ok s' (A - blk order p)" "size_of s' = size_of s"
  using alloc_ok [OF assms(1), of order] assms(2) by auto

lemma alloc_NullD:
  assumes "ok s A" "alloc order s = Some (Null, s')"
  shows "s' = s"
  using alloc_ok [OF assms(1), of order] assms(2) by auto

lemma trace_inv:
  assumes "alloc_trace alloc release s0 s L" "ok s0 A"
  shows "\<exists>B. ok s B \<and> size_of s = size_of s0 \<and> live_ok (size_of s0) L \<and> B \<inter> live L = {} \<and> B \<union> live L = A"
  using assms
proof (induction rule: alloc_trace.induct)
  case boot
  then show ?case by (auto simp: live_ok_def)
next
  case (taken s L order p s')
  then obtain B where B: "ok s B" "size_of s = size_of s0" "live_ok (size_of s0) L" "B \<inter> live L = {}" "B \<union> live L = A"
    by blast
  note r = alloc_RefD [OF B(1) taken.hyps(2)]
  have "live_ok (size_of s0) ((order, p) # L)" using r B by (auto simp: live_ok_Cons)
  moreover have "B - blk order p \<union> live ((order, p) # L) = A" "(B - blk order p) \<inter> live ((order, p) # L) = {}"
    using r(4) B(4,5) by auto
  ultimately show ?case using r(5,6) B(2) by auto
next
  case (failed s L order s')
  then obtain B where B: "ok s B" "size_of s = size_of s0" "live_ok (size_of s0) L" "B \<inter> live L = {}" "B \<union> live L = A"
    by blast
  have "s' = s" using alloc_NullD [OF B(1) failed.hyps(2)] .
  then show ?case using B by blast
next
  case (released s L order p s')
  then obtain B where B: "ok s B" "size_of s = size_of s0" "live_ok (size_of s0) L" "B \<inter> live L = {}" "B \<union> live L = A"
    by blast
  note rm = live_remove [OF B(3) released.hyps(2)]
  have h: "order \<le> BUDDY_HIGH_ORDER" "2 ^ order dvd p" "p + 2 ^ order \<le> size_of s"
    using B(2,3) released.hyps(2) by (auto simp: live_ok_def)
  have dj: "blk order p \<inter> B = {}" using rm(2) B(4) by auto
  have s': "ok s' (B \<union> blk order p)" "size_of s' = size_of s"
    using release_ok [OF B(1) h dj] released.hyps(3) by simp_all
  have "B \<union> blk order p \<union> live (remove1 (order, p) L) = A" "(B \<union> blk order p) \<inter> live (remove1 (order, p) L) = {}"
    using rm B(4,5) by auto
  then show ?case using s' B(2) rm(1) by auto
qed

lemma trace_progress:
  assumes "alloc_trace alloc release s0 s L" "ok s0 A"
  shows "alloc order s \<noteq> None" "(k, p) \<in> set L \<Longrightarrow> release (Ref p) k s \<noteq> None"
proof -
  obtain B where B: "ok s B" "size_of s = size_of s0" "live_ok (size_of s0) L" "B \<inter> live L = {}"
    using trace_inv [OF assms] by blast
  show "alloc order s \<noteq> None" using alloc_ok [OF B(1), of order] by auto
  assume kp: "(k, p) \<in> set L"
  have h: "k \<le> BUDDY_HIGH_ORDER" "2 ^ k dvd p" "p + 2 ^ k \<le> size_of s"
    using B(2,3) kp by (auto simp: live_ok_def)
  have dj: "blk k p \<inter> B = {}" using live_remove(2) [OF B(3) kp] B(4) by auto
  show "release (Ref p) k s \<noteq> None" using release_ok [OF B(1) h dj] by auto
qed

lemma card_live: "live_ok n L \<Longrightarrow> finite (live L) \<and> card (live L) = (\<Sum>(order, p)\<leftarrow>L. 2 ^ order)"
proof (induction L)
  case (Cons a L)
  then show ?case by (cases a) (auto simp: live_ok_Cons card_Un_disjoint)
qed simp

lemma trace_conserves:
  assumes "alloc_trace alloc release s0 s L" "ok s0 A"
  shows "\<exists>B. ok s B \<and> card B + (\<Sum>(order, p)\<leftarrow>L. 2 ^ order) = card A"
proof -
  obtain B where B: "ok s B" "live_ok (size_of s0) L" "B \<inter> live L = {}" "B \<union> live L = A"
    using trace_inv [OF assms] by blast
  have "card A = card B + card (live L)"
    using B(3,4) ok_finite [OF B(1)] card_live [OF B(2)] by (auto simp: card_Un_disjoint)
  then show ?thesis using B(1) card_live [OF B(2)] by auto
qed

end

section \<open>The buddy allocator provides it\<close>

definition frames_ok :: "frame_state \<Rightarrow> nat set \<Rightarrow> bool" where
  "frames_ok s A \<longleftrightarrow> (\<exists>F. buddy_rel s F \<and> free_set F = A)"

lemma buddy_alloc_contract:
  assumes "buddy_rel s F"
  shows "buddy_alloc order s = Some (Null, s) \<or>
    (\<exists>p s' F'. buddy_alloc order s = Some (Ref p, s') \<and> order \<le> BUDDY_HIGH_ORDER \<and>
       spec_alloc order F = Some (p, F') \<and> buddy_rel s' F' \<and> 2 ^ order dvd p \<and>
       p + 2 ^ order \<le> length (pages s) \<and> blk order p \<subseteq> free_set F \<and>
       free_set F' = free_set F - blk order p \<and> length (pages s') = length (pages s))"
proof (cases "spec_alloc order F = None \<or> BUDDY_HIGH_ORDER < order")
  case True
  then show ?thesis using buddy_alloc_fails [OF assms] by blast
next
  case False
  then obtain p F' where sp: "spec_alloc order F = Some (p, F')" and o: "order \<le> BUDDY_HIGH_ORDER" by auto
  have ok: "free_ok (length (pages s)) F" using assms by (simp add: buddy_rel_def)
  note sa = spec_alloc_ok [OF ok sp]
  note h = heldD [OF sa(2)]
  obtain s' where s': "buddy_alloc order s = Some (Ref p, s')" "buddy_rel s' F'"
    "same_outside (free_set F) (pages s) (pages s')"
    by (rule buddy_alloc_refines [OF assms sp o])
  have "free_set F' = free_set F - blk order p" "blk order p \<subseteq> free_set F" using sa(3) h(4) by auto
  then show ?thesis using s' sp o h by (auto simp: same_outside_def)
qed

interpretation frames: frame_provider frames_ok "\<lambda>s. length (pages s)" buddy_alloc buddy_free
proof
  fix s A order
  assume "frames_ok s A"
  then obtain F where F: "buddy_rel s F" "free_set F = A" by (auto simp: frames_ok_def)
  show "buddy_alloc order s = Some (Null, s) \<or>
      (\<exists>p s'. buddy_alloc order s = Some (Ref p, s') \<and> order \<le> BUDDY_HIGH_ORDER \<and> 2 ^ order dvd p \<and>
         p + 2 ^ order \<le> length (pages s) \<and> blk order p \<subseteq> A \<and> frames_ok s' (A - blk order p) \<and>
         length (pages s') = length (pages s))"
    using buddy_alloc_contract [OF F(1), of order] F(2) unfolding frames_ok_def by blast
next
  fix s A order p
  assume "frames_ok s A" and h: "order \<le> BUDDY_HIGH_ORDER" "2 ^ order dvd p" "p + 2 ^ order \<le> length (pages s)"
    "blk order p \<inter> A = {}"
  then obtain F where F: "buddy_rel s F" "free_set F = A" by (auto simp: frames_ok_def)
  have hd: "held (length (pages s)) F order p" using h F(2) by (simp add: held_def)
  have ok: "free_ok (length (pages s)) F" using F(1) by (simp add: buddy_rel_def)
  obtain s' where "buddy_free (Ref p) order s = Some s'" "buddy_rel s' (spec_free p order F)"
    "same_outside (free_set F \<union> blk order p) (pages s) (pages s')"
    by (rule buddy_free_refines [OF F(1) hd])
  then show "\<exists>s'. buddy_free (Ref p) order s = Some s' \<and> frames_ok s' (A \<union> blk order p) \<and>
      length (pages s') = length (pages s)"
    using spec_free_ok(2) [OF ok hd] F(2) unfolding frames_ok_def same_outside_def by metis
qed (auto simp: frames_ok_def)

end
