(* ===== verification/Frame_Props.thy ===== *)
theory Frame_Props
  imports Frame_Contract
begin

text \<open>
  The properties of the frame allocator, over the definitions of \<open>frame_alloc.c\<close> and
  \<open>mem_init.c\<close>. \<open>tiny_frames\<close> is a small concrete state on which the hypotheses are evaluated:
  four pages that are one free block of order 2. \<open>tiny_map\<close> is a memory map of 16 pages.
\<close>

section \<open>Concrete states\<close>

definition tiny_frames :: frame_state where
  "tiny_frames =
     \<lparr>pages = replicate 4 zero_page, frame_allocator_total = 4, frame_allocator_usable = 4,
      frame_allocator_free = 4,
      buddy_allocator = \<lparr>allocation_count = 0, deallocation_count = 0,
        orders = (empty_zones 4)[2 := \<lparr>bitmap = [1, 0], zone_list = Ref 0\<rparr>]\<rparr>\<rparr>"

definition tiny_blocks :: blocks where
  "tiny_blocks k = (if k = 2 then [0] else [])"

lemma tiny_rel: "buddy_rel tiny_frames tiny_blocks"
proof -
  have "free_ok (length (pages tiny_frames)) tiny_blocks"
    by (auto simp: free_ok_def tiny_blocks_def BUDDY_HIGH_ORDER_def tiny_frames_def)
  moreover have "lists_rel tiny_frames tiny_blocks" unfolding lists_rel_def all_le_upt by code_simp
  moreover have "bits_rel tiny_frames (pairs tiny_blocks)" unfolding bits_rel_def all_less_upt by code_simp
  ultimately show ?thesis by (simp add: buddy_rel_def)
qed

lemma tiny_free_set: "free_set tiny_blocks = {0..<4}"
  by (auto simp: free_set_def tiny_blocks_def BUDDY_HIGH_ORDER_def split: if_splits intro: bexI [of _ 2])

lemma tiny_coalesced: "coalesced tiny_blocks"
  by (auto simp: coalesced_def tiny_blocks_def)

definition no_frames :: frame_state where
  "no_frames =
     \<lparr>pages = replicate 4 zero_page, frame_allocator_total = 4, frame_allocator_usable = 4,
      frame_allocator_free = 0,
      buddy_allocator = \<lparr>allocation_count = 0, deallocation_count = 0, orders = empty_zones 4\<rparr>\<rparr>"

lemma no_frames_rel: "buddy_rel no_frames (\<lambda>_. [])"
  using empty_zones_rel [of no_frames] by (simp add: buddy_rel_def free_ok_def no_frames_def zones_def)

definition tiny_map :: "memmap_entry list" where
  "tiny_map = [\<lparr>start = 0, len = 0x1000, mtype = 1\<rparr>, \<lparr>start = 0x1000, len = 0xF000, mtype = 0\<rparr>]"

lemma tiny_map_ok: "limine_map_ok tiny_map"
  unfolding limine_map_ok_def all_less_upt by code_simp

lemma tiny_map_room: "boot_bytes tiny_map \<le> len (tiny_map ! 1)" "usable (tiny_map ! 1)" "tiny_map ! 1 \<in> set tiny_map"
  by code_simp+

section \<open>From boot on\<close>

text \<open>
  C12. From every well-formed memory map with one usable entry large enough for the boot-time
  tables, \<open>allocator_init\<close> succeeds, and after any sequence of allocations and releases of held
  blocks: the held blocks are aligned, inside the page table, pairwise disjoint and made of
  usable memory only; the next allocation of any order and the release of any held block do not
  stop the kernel.
\<close>

theorem frames_stay_disjoint:
  assumes "limine_map_ok M" "m \<in> set M" "usable m" "boot_bytes M \<le> len m"
  shows "\<exists>e s0. allocator_init M = Some (e, s0) \<and>
    (\<forall>s L. alloc_trace buddy_alloc buddy_free s0 s L \<longrightarrow>
       live_ok (length (pages s0)) L \<and> live L \<subseteq> usable_pages (memmap e) \<and>
       (\<forall>order. buddy_alloc order s \<noteq> None) \<and>
       (\<forall>(order, p)\<in>set L. buddy_free (Ref p) order s \<noteq> None))"
proof -
  obtain e s0 F where i: "allocator_init M = Some (e, s0)" "buddy_rel s0 F" "free_set F = usable_pages (memmap e)"
    by (rule allocator_init_ok [OF assms])
  have ok: "frames_ok s0 (usable_pages (memmap e))" using i by (auto simp: frames_ok_def)
  have "live_ok (length (pages s0)) L \<and> live L \<subseteq> usable_pages (memmap e) \<and>
      (\<forall>order. buddy_alloc order s \<noteq> None) \<and> (\<forall>(order, p)\<in>set L. buddy_free (Ref p) order s \<noteq> None)"
    if tr: "alloc_trace buddy_alloc buddy_free s0 s L" for s L
    using frames.trace_inv [OF tr ok] frames.trace_progress [OF tr ok] by auto
  then show ?thesis using i(1) by blast
qed

theorem frames_stay_disjoint_witness:
  "\<exists>e s0. allocator_init tiny_map = Some (e, s0) \<and>
    (\<forall>s L. alloc_trace buddy_alloc buddy_free s0 s L \<longrightarrow>
       live_ok (length (pages s0)) L \<and> live L \<subseteq> usable_pages (memmap e) \<and>
       (\<forall>order. buddy_alloc order s \<noteq> None) \<and>
       (\<forall>(order, p)\<in>set L. buddy_free (Ref p) order s \<noteq> None))"
  by (rule frames_stay_disjoint [OF tiny_map_ok tiny_map_room(3,2,1)])

text \<open>
  C13. No page is lost or made up: after any sequence of allocations and releases, the free
  pages and the pages of the held blocks together are as many as the pages that were free at
  the start.
\<close>

theorem frames_conserved:
  assumes "buddy_rel s0 F" "alloc_trace buddy_alloc buddy_free s0 s L"
  shows "\<exists>F'. buddy_rel s F' \<and> card (free_set F') + (\<Sum>(order, p)\<leftarrow>L. 2 ^ order) = card (free_set F)"
proof -
  have "frames_ok s0 (free_set F)" using assms(1) by (auto simp: frames_ok_def)
  from frames.trace_conserves [OF assms(2) this] show ?thesis by (auto simp: frames_ok_def)
qed

theorem frames_conserved_witness:
  "\<exists>s. alloc_trace buddy_alloc buddy_free tiny_frames s [(1, 0)] \<and>
    (\<exists>F'. buddy_rel s F' \<and> card (free_set F') + (\<Sum>(order, p)\<leftarrow>[(1::nat, 0::nat)]. 2 ^ order) = card (free_set tiny_blocks))"
proof -
  have "map_option fst (buddy_alloc 1 tiny_frames) = Some (Ref 0)" by code_simp
  then obtain s where "buddy_alloc 1 tiny_frames = Some (Ref 0, s)" by auto
  then have tr: "alloc_trace buddy_alloc buddy_free tiny_frames s [(1, 0)]"
    using alloc_trace.taken [OF alloc_trace.boot] by fastforce
  from frames_conserved [OF tiny_rel tr] tr show ?thesis by blast
qed

section \<open>Allocation\<close>

text \<open>
  C14. When some free block of the requested or a higher order exists, \<open>buddy_alloc\<close> returns an
  aligned block that was entirely free, removes exactly its pages from the free pages, keeps
  the lists and bitmaps consistent, leaves the \<open>struct page\<close> of every page that was not free
  alone, and accounts for the block in the counters.
\<close>

theorem buddy_alloc_takes_block:
  assumes "buddy_rel s F" "order \<le> k" "k \<le> BUDDY_HIGH_ORDER" "F k \<noteq> []"
  shows "\<exists>p s' F'. buddy_alloc order s = Some (Ref p, s') \<and> buddy_rel s' F' \<and>
    2 ^ order dvd p \<and> p + 2 ^ order \<le> length (pages s) \<and> blk order p \<subseteq> free_set F \<and>
    free_set F' = free_set F - blk order p \<and> same_outside (free_set F) (pages s) (pages s') \<and>
    frame_allocator_free s' = frame_allocator_free s - 2 ^ order \<and>
    allocation_count (buddy_allocator s') = allocation_count (buddy_allocator s) + 1"
proof -
  have o: "order \<le> BUDDY_HIGH_ORDER" using assms(2,3) by simp
  have ok: "free_ok (length (pages s)) F" using assms(1) by (simp add: buddy_rel_def)
  have "spec_alloc order F \<noteq> None" using assms(2-4) by (auto simp: spec_alloc_None)
  then obtain p F' where sp: "spec_alloc order F = Some (p, F')" by auto
  note sa = spec_alloc_ok [OF ok sp]
  note h = heldD [OF sa(2)]
  have fs: "free_set F' = free_set F - blk order p" "blk order p \<subseteq> free_set F" using sa(3) h(4) by auto
  obtain s' where "buddy_alloc order s = Some (Ref p, s')" "buddy_rel s' F'"
    "same_outside (free_set F) (pages s) (pages s')"
    "frame_allocator_free s' = frame_allocator_free s - 2 ^ order"
    "allocation_count (buddy_allocator s') = allocation_count (buddy_allocator s) + 1"
    by (rule buddy_alloc_refines [OF assms(1) sp o])
  with fs h show ?thesis by blast
qed

theorem buddy_alloc_takes_block_witness:
  "\<exists>p s' F'. buddy_alloc 1 tiny_frames = Some (Ref p, s') \<and> buddy_rel s' F' \<and>
    2 ^ 1 dvd p \<and> p + 2 ^ 1 \<le> length (pages tiny_frames) \<and> blk 1 p \<subseteq> free_set tiny_blocks \<and>
    free_set F' = free_set tiny_blocks - blk 1 p \<and>
    same_outside (free_set tiny_blocks) (pages tiny_frames) (pages s') \<and>
    frame_allocator_free s' = frame_allocator_free tiny_frames - 2 ^ 1 \<and>
    allocation_count (buddy_allocator s') = allocation_count (buddy_allocator tiny_frames) + 1"
  by (rule buddy_alloc_takes_block [OF tiny_rel, of 1 2])
    (simp_all add: BUDDY_HIGH_ORDER_def tiny_blocks_def)

text \<open>
  C20. \<open>buddy_alloc\<close> returns \<open>NULL\<close> exactly when the order is above the highest one or no block
  of the requested or a higher order is free, and then it changes nothing.
\<close>

theorem buddy_alloc_null_iff:
  assumes "buddy_rel s F"
  shows "(buddy_alloc order s = Some (Null, s) \<longleftrightarrow>
      BUDDY_HIGH_ORDER < order \<or> (\<forall>k. order \<le> k \<and> k \<le> BUDDY_HIGH_ORDER \<longrightarrow> F k = [])) \<and>
    (\<forall>s'. buddy_alloc order s = Some (Null, s') \<longrightarrow> s' = s)"
proof (cases "BUDDY_HIGH_ORDER < order \<or> spec_alloc order F = None")
  case True
  then have "buddy_alloc order s = Some (Null, s)" using buddy_alloc_fails [OF assms] by blast
  then show ?thesis using True by (auto simp: spec_alloc_None)
next
  case False
  then obtain p F' where sp: "spec_alloc order F = Some (p, F')" by auto
  have o: "order \<le> BUDDY_HIGH_ORDER" using False by simp
  obtain s' where "buddy_alloc order s = Some (Ref p, s')" by (rule buddy_alloc_refines [OF assms sp o])
  then show ?thesis using False by (auto simp: spec_alloc_None)
qed

theorem buddy_alloc_null_iff_witness:
  "buddy_alloc 3 tiny_frames = Some (Null, tiny_frames)"
  using buddy_alloc_null_iff [OF tiny_rel, of 3] by (simp add: tiny_blocks_def)

text \<open>
  C17. Allocation is complete on a coalesced allocator: if any aligned block of the requested
  size consists of free pages only, however these pages are spread over the lists, then
  \<open>buddy_alloc\<close> succeeds.
\<close>

theorem buddy_alloc_complete:
  assumes "buddy_rel s F" "coalesced F" "order \<le> BUDDY_HIGH_ORDER" "2 ^ order dvd p" "blk order p \<subseteq> free_set F"
  shows "\<exists>q s'. buddy_alloc order s = Some (Ref q, s')"
proof -
  have ok: "free_ok (length (pages s)) F" using assms(1) by (simp add: buddy_rel_def)
  have "spec_alloc order F \<noteq> None"
    using coalesced_complete [OF ok assms(2,4,5,3)] by (auto simp: spec_alloc_None)
  then obtain q F' where "spec_alloc order F = Some (q, F')" by auto
  from buddy_alloc_refines [OF assms(1) this assms(3)] show ?thesis by metis
qed

theorem buddy_alloc_complete_witness: "\<exists>q s'. buddy_alloc 0 tiny_frames = Some (Ref q, s')"
  by (rule buddy_alloc_complete [OF tiny_rel tiny_coalesced, of 0 3])
    (auto simp: tiny_free_set)

section \<open>Release\<close>

text \<open>
  C15. Releasing an aligned block inside the page table that shares no page with a free block
  never stops the kernel, makes exactly its pages free, keeps the lists and bitmaps consistent,
  touches the \<open>struct page\<close> of no page outside the free pages and the block, and accounts for
  the block in the counters.
\<close>

theorem buddy_free_returns_block:
  assumes "buddy_rel s F" "order \<le> BUDDY_HIGH_ORDER" "2 ^ order dvd p" "p + 2 ^ order \<le> length (pages s)"
    "blk order p \<inter> free_set F = {}"
  shows "\<exists>s' F'. buddy_free (Ref p) order s = Some s' \<and> buddy_rel s' F' \<and>
    free_set F' = free_set F \<union> blk order p \<and>
    same_outside (free_set F \<union> blk order p) (pages s) (pages s') \<and>
    frame_allocator_free s' = frame_allocator_free s + 2 ^ order \<and>
    deallocation_count (buddy_allocator s') = deallocation_count (buddy_allocator s) + 1"
proof -
  have hd: "held (length (pages s)) F order p" using assms by (simp add: held_def)
  have ok: "free_ok (length (pages s)) F" using assms(1) by (simp add: buddy_rel_def)
  obtain s' where "buddy_free (Ref p) order s = Some s'" "buddy_rel s' (spec_free p order F)"
    "same_outside (free_set F \<union> blk order p) (pages s) (pages s')"
    "frame_allocator_free s' = frame_allocator_free s + 2 ^ order"
    "deallocation_count (buddy_allocator s') = deallocation_count (buddy_allocator s) + 1"
    by (rule buddy_free_refines [OF assms(1) hd])
  then show ?thesis using spec_free_ok(2) [OF ok hd] by blast
qed

theorem buddy_free_returns_block_witness:
  "\<exists>s' F'. buddy_free (Ref 2) 1 no_frames = Some s' \<and> buddy_rel s' F' \<and>
    free_set F' = free_set (\<lambda>_. []) \<union> blk 1 2 \<and>
    same_outside (free_set (\<lambda>_. []) \<union> blk 1 2) (pages no_frames) (pages s') \<and>
    frame_allocator_free s' = frame_allocator_free no_frames + 2 ^ 1 \<and>
    deallocation_count (buddy_allocator s') = deallocation_count (buddy_allocator no_frames) + 1"
  by (rule buddy_free_returns_block [OF no_frames_rel])
    (simp_all add: BUDDY_HIGH_ORDER_def no_frames_def free_set_def)

text \<open>
  C16. An allocation followed by the release of the block it returned restores the set of free
  pages and the free page counter, and neither step stops the kernel.
\<close>

theorem alloc_free_roundtrip:
  assumes "buddy_rel s F" "buddy_alloc order s = Some (Ref p, s1)"
  shows "\<exists>s2 F2. buddy_free (Ref p) order s1 = Some s2 \<and> buddy_rel s2 F2 \<and> free_set F2 = free_set F \<and>
    frame_allocator_free s2 = frame_allocator_free s"
proof -
  have ok: "free_ok (length (pages s)) F" using assms(1) by (simp add: buddy_rel_def)
  have o: "order \<le> BUDDY_HIGH_ORDER" using assms(2) by (simp add: buddy_alloc_def split: if_splits)
  have "spec_alloc order F \<noteq> None"
  proof
    assume "spec_alloc order F = None"
    then show False using buddy_alloc_fails [OF assms(1), of order] assms(2) by simp
  qed
  then obtain q F1 where sp: "spec_alloc order F = Some (q, F1)" by auto
  obtain s' where s': "buddy_alloc order s = Some (Ref q, s')" "buddy_rel s' F1"
    "same_outside (free_set F) (pages s) (pages s')" "frame_allocator_free s' = frame_allocator_free s - 2 ^ order"
    by (rule buddy_alloc_refines [OF assms(1) sp o])
  have [simp]: "q = p" "s' = s1" using s'(1) assms(2) by simp_all
  note sa = spec_alloc_ok [OF ok sp]
  have len: "length (pages s1) = length (pages s)" using s'(3) by (simp add: same_outside_def)
  have hd: "held (length (pages s1)) F1 order p" using sa(2) len by simp
  obtain s2 where "buddy_free (Ref p) order s1 = Some s2" "buddy_rel s2 (spec_free p order F1)"
    "frame_allocator_free s2 = frame_allocator_free s1 + 2 ^ order"
    using s'(2) hd by (auto elim: buddy_free_refines)
  moreover have "free_set (spec_free p order F1) = free_set F"
    using spec_free_ok(2) [OF _ hd] sa(1,3) len by simp
  ultimately show ?thesis using s'(4) by auto
qed

theorem alloc_free_roundtrip_witness:
  "\<exists>p s1 s2 F2. buddy_alloc 0 tiny_frames = Some (Ref p, s1) \<and> buddy_free (Ref p) 0 s1 = Some s2 \<and>
    buddy_rel s2 F2 \<and> free_set F2 = free_set tiny_blocks \<and>
    frame_allocator_free s2 = frame_allocator_free tiny_frames"
proof -
  have "map_option fst (buddy_alloc 0 tiny_frames) = Some (Ref 0)" by code_simp
  then obtain s1 where "buddy_alloc 0 tiny_frames = Some (Ref 0, s1)" by auto
  from alloc_free_roundtrip [OF tiny_rel this] this show ?thesis by blast
qed

text \<open>
  C19. Coalescing is an invariant: a release merges as far as possible and an allocation splits
  no further than needed, so if no two buddies are free at the same order before, none are
  after an allocation and none are after a release.
\<close>

theorem buddies_stay_coalesced:
  assumes "buddy_rel s F" "coalesced F" "held (length (pages s)) F order p"
  shows "(\<exists>s' F'. buddy_free (Ref p) order s = Some s' \<and> buddy_rel s' F' \<and> coalesced F') \<and>
    (buddy_alloc k s = Some (Null, s) \<or>
     (\<exists>q s' F'. buddy_alloc k s = Some (Ref q, s') \<and> buddy_rel s' F' \<and> coalesced F'))"
proof
  have ok: "free_ok (length (pages s)) F" using assms(1) by (simp add: buddy_rel_def)
  obtain s' where "buddy_free (Ref p) order s = Some s'" "buddy_rel s' (spec_free p order F)"
    by (rule buddy_free_refines [OF assms(1,3)])
  then show "\<exists>s' F'. buddy_free (Ref p) order s = Some s' \<and> buddy_rel s' F' \<and> coalesced F'"
    using coalesced_free [OF ok assms(3,2)] by blast
  show "buddy_alloc k s = Some (Null, s) \<or>
     (\<exists>q s' F'. buddy_alloc k s = Some (Ref q, s') \<and> buddy_rel s' F' \<and> coalesced F')"
    using buddy_alloc_contract [OF assms(1), of k] coalesced_alloc [OF ok _ assms(2)] by blast
qed

theorem buddies_stay_coalesced_witness:
  "(\<exists>s' F'. buddy_free (Ref 2) 1 no_frames = Some s' \<and> buddy_rel s' F' \<and> coalesced F') \<and>
    (buddy_alloc 0 no_frames = Some (Null, no_frames) \<or>
     (\<exists>q s' F'. buddy_alloc 0 no_frames = Some (Ref q, s') \<and> buddy_rel s' F' \<and> coalesced F'))"
  by (rule buddies_stay_coalesced [OF no_frames_rel])
    (simp_all add: coalesced_def held_def no_frames_def free_set_def BUDDY_HIGH_ORDER_def)

section \<open>Boot\<close>



text \<open>
  C21. The free page counter starts wrong. \<open>early_mem_exit\<close> subtracts the pages of the boot-time
  allocations from the usable pages, and \<open>early_mem_statistics\<close>, called once more after it,
  subtracts them again: after \<open>allocator_init\<close> the counter of usable pages is the number of
  free pages, and the counter of free pages is that number less all the boot-time pages
  (wrapping at 64 bits), of which there is at least one.
\<close>

theorem boot_free_counter_low:
  assumes "limine_map_ok M" "m \<in> set M" "usable m" "boot_bytes M \<le> len m"
  shows "\<exists>e s F. allocator_init M = Some (e, s) \<and> buddy_rel s F \<and>
    frame_allocator_usable s = of_nat (card (free_set F)) \<and>
    frame_allocator_free s =
      of_nat (sub64 (card (free_set F)) (early_mem_bytes_allocated e div PAGE_SIZE)) \<and>
    PAGE_SIZE \<le> early_mem_bytes_allocated e"
proof -
  obtain e s F bytes where i: "allocator_init M = Some (e, s)" "buddy_rel s F"
    "PAGE_SIZE dvd bytes" "early_mem_bytes_allocated e = bytes"
    "frame_allocator_usable s = of_nat (card (free_set F))"
    "frame_allocator_free s = of_nat (sub64 (card (free_set F)) (bytes div PAGE_SIZE))"
    "0 < bytes"
    by (rule allocator_init_ok [OF assms])
  have "PAGE_SIZE \<le> bytes" using i(3,7) by (rule dvd_imp_le)
  then show ?thesis using i by blast
qed

theorem boot_free_counter_low_witness:
  "\<exists>e s F. allocator_init tiny_map = Some (e, s) \<and> buddy_rel s F \<and>
    frame_allocator_usable s = of_nat (card (free_set F)) \<and>
    frame_allocator_free s =
      of_nat (sub64 (card (free_set F)) (early_mem_bytes_allocated e div PAGE_SIZE)) \<and>
    PAGE_SIZE \<le> early_mem_bytes_allocated e"
  by (rule boot_free_counter_low [OF tiny_map_ok tiny_map_room(3,2,1)])

end
