(* ===== verification/C_Memory.thy ===== *)
theory C_Memory
  imports Kernel_Prelude
begin

text \<open>
  The freestanding C library of the kernel: \<open>kernel/src/std/memory.c\<close> and
  \<open>kernel/src/std/string.c\<close>. Memory is one array of bytes, an address an index into it, and
  an access behind the mapped bytes is a fault (\<open>None\<close>). Every function is the loop of the source
  on addresses, so overlapping arguments and missing terminators behave as in C. A character
  argument is the byte it denotes.
\<close>

section \<open>Bytes\<close>

type_synonym memory = "u8 list"

definition rd :: "memory \<Rightarrow> nat \<Rightarrow> u8 option" where
  "rd m a = (if a < length m then Some (m ! a) else None)"

definition wr :: "memory \<Rightarrow> nat \<Rightarrow> u8 \<Rightarrow> memory option" where
  "wr m a v = (if a < length m then Some (m[a := v]) else None)"

definition bytes_at :: "memory \<Rightarrow> nat \<Rightarrow> nat \<Rightarrow> u8 list" where
  "bytes_at m a n = take n (drop a m)"

definition patch :: "memory \<Rightarrow> nat \<Rightarrow> u8 list \<Rightarrow> memory" where
  "patch m a bs = take a m @ bs @ drop (a + length bs) m"

text \<open>\<open>cstr_at m p s\<close>: at \<open>p\<close> stands the null-terminated string \<open>s\<close>.\<close>

definition cstr_at :: "memory \<Rightarrow> nat \<Rightarrow> u8 list \<Rightarrow> bool" where
  "cstr_at m p s \<longleftrightarrow> 0 \<notin> set s \<and> bytes_at m p (length s + 1) = s @ [0]"

section \<open>memory.c\<close>

fun memcpy_loop :: "nat \<Rightarrow> memory \<Rightarrow> nat \<Rightarrow> nat \<Rightarrow> memory option" where
  "memcpy_loop 0 m pdest psrc = Some m"
| "memcpy_loop (Suc n) m pdest psrc = do {
     v \<leftarrow> rd m psrc;
     m' \<leftarrow> wr m pdest v;
     memcpy_loop n m' (Suc pdest) (Suc psrc)
   }"

definition memcpy :: "memory \<Rightarrow> nat \<Rightarrow> nat \<Rightarrow> nat \<Rightarrow> memory option" where
  "memcpy m dest src n = memcpy_loop n m dest src"

fun memset :: "memory \<Rightarrow> nat \<Rightarrow> u8 \<Rightarrow> nat \<Rightarrow> memory option" where
  "memset m s c 0 = Some m"
| "memset m s c (Suc n) = do {
     m' \<leftarrow> wr m s c;
     memset m' (Suc s) c n
   }"

fun memmove_back :: "nat \<Rightarrow> memory \<Rightarrow> nat \<Rightarrow> nat \<Rightarrow> memory option" where
  "memmove_back 0 m pdest psrc = Some m"
| "memmove_back (Suc i) m pdest psrc = do {
     v \<leftarrow> rd m (psrc + i);
     m' \<leftarrow> wr m (pdest + i) v;
     memmove_back i m' pdest psrc
   }"

definition memmove :: "memory \<Rightarrow> nat \<Rightarrow> nat \<Rightarrow> nat \<Rightarrow> memory option" where
  "memmove m dest src n =
     (if dest < src then memcpy_loop n m dest src
      else if src < dest then memmove_back n m dest src
      else Some m)"

fun memcmp :: "memory \<Rightarrow> nat \<Rightarrow> nat \<Rightarrow> nat \<Rightarrow> int option" where
  "memcmp m p1 p2 0 = Some 0"
| "memcmp m p1 p2 (Suc n) = do {
     a \<leftarrow> rd m p1;
     b \<leftarrow> rd m p2;
     if a \<noteq> b then Some (if a < b then -1 else 1) else memcmp m (Suc p1) (Suc p2) n
   }"

section \<open>string.c\<close>

function strlen_loop :: "memory \<Rightarrow> nat \<Rightarrow> nat option" where
  "strlen_loop m cpy =
     (if cpy < length m then if m ! cpy \<noteq> 0 then strlen_loop m (Suc cpy) else Some cpy else None)"
  by pat_completeness auto
termination
  by (relation "measure (\<lambda>(m, cpy). length m - cpy)") auto

declare strlen_loop.simps [simp del]

definition strlen :: "memory \<Rightarrow> nat \<Rightarrow> nat option" where
  "strlen m s = map_option (\<lambda>cpy. cpy - s) (strlen_loop m s)"

function strcpy_loop :: "memory \<Rightarrow> nat \<Rightarrow> nat \<Rightarrow> memory option" where
  "strcpy_loop m dest src =
     (if src < length m
      then if m ! src \<noteq> 0
           then if dest < length m then strcpy_loop (m[dest := m ! src]) (Suc dest) (Suc src) else None
           else wr m dest 0
      else None)"
  by pat_completeness auto
termination
  by (relation "measure (\<lambda>(m, _, src). length m - src)") auto

declare strcpy_loop.simps [simp del]

definition strcpy :: "memory \<Rightarrow> nat \<Rightarrow> nat \<Rightarrow> memory option" where
  "strcpy m dest src = strcpy_loop m dest src"

text \<open>The copy loop of \<open>strncpy\<close> and \<open>strncat\<close>: it returns the address after the last byte written
  and the count of bytes left.\<close>

fun strncpy_loop :: "nat \<Rightarrow> memory \<Rightarrow> nat \<Rightarrow> nat \<Rightarrow> (memory \<times> nat \<times> nat) option" where
  "strncpy_loop n m dest src = do {
     c \<leftarrow> rd m src;
     (if c \<noteq> 0
      then (case n of
              0 \<Rightarrow> Some (m, dest, 0)
            | Suc n' \<Rightarrow> do { m' \<leftarrow> wr m dest c; strncpy_loop n' m' (Suc dest) (Suc src) })
      else Some (m, dest, n))
   }"

declare strncpy_loop.simps [simp del]

definition strncpy :: "memory \<Rightarrow> nat \<Rightarrow> nat \<Rightarrow> nat \<Rightarrow> memory option" where
  "strncpy m dest src n = do {
     (m', d, left) \<leftarrow> strncpy_loop n m dest src;
     memset m' d 0 left
   }"

definition strcat :: "memory \<Rightarrow> nat \<Rightarrow> nat \<Rightarrow> memory option" where
  "strcat m dest src = do {
     l \<leftarrow> strlen m dest;
     strcpy m (dest + l) src
   }"

definition strncat :: "memory \<Rightarrow> nat \<Rightarrow> nat \<Rightarrow> nat \<Rightarrow> memory option" where
  "strncat m dest src n = do {
     l \<leftarrow> strlen m dest;
     (m', d, _) \<leftarrow> strncpy_loop n m (dest + l) src;
     wr m' d 0
   }"

function strcmp :: "memory \<Rightarrow> nat \<Rightarrow> nat \<Rightarrow> int option" where
  "strcmp m s1 s2 =
     (if s1 < length m \<and> s2 < length m
      then if m ! s1 \<noteq> 0 \<and> m ! s1 = m ! s2 then strcmp m (Suc s1) (Suc s2)
           else Some (uint (m ! s1) - uint (m ! s2))
      else None)"
  by pat_completeness auto
termination
  by (relation "measure (\<lambda>(m, s1, _). length m - s1)") auto

declare strcmp.simps [simp del]

fun strncmp :: "memory \<Rightarrow> nat \<Rightarrow> nat \<Rightarrow> nat \<Rightarrow> int option" where
  "strncmp m s1 s2 0 = Some 0"
| "strncmp m s1 s2 (Suc n) = do {
     a \<leftarrow> rd m s1;
     b \<leftarrow> rd m s2;
     if a \<noteq> b then Some (uint a - uint b)
     else if a = 0 then Some 0
     else strncmp m (Suc s1) (Suc s2) n
   }"

text \<open>\<open>strchr\<close>, \<open>strrchr\<close> and \<open>strstr\<close> return a pointer or \<open>NULL\<close>: an address or \<open>None\<close> inside
  the option of faults.\<close>

function strchr :: "memory \<Rightarrow> nat \<Rightarrow> u8 \<Rightarrow> nat option option" where
  "strchr m s c =
     (if s < length m
      then if m ! s \<noteq> 0
           then if m ! s = c then Some (Some s) else strchr m (Suc s) c
           else if c = 0 then Some (Some s) else Some None
      else None)"
  by pat_completeness auto
termination
  by (relation "measure (\<lambda>(m, s, _). length m - s)") auto

declare strchr.simps [simp del]

fun strrchr_loop :: "memory \<Rightarrow> nat \<Rightarrow> nat \<Rightarrow> u8 \<Rightarrow> nat option option" where
  "strrchr_loop m s k c = do {
     v \<leftarrow> rd m (s + k);
     if v = c then Some (Some (s + k))
     else (case k of 0 \<Rightarrow> Some None | Suc k' \<Rightarrow> strrchr_loop m s k' c)
   }"

declare strrchr_loop.simps [simp del]

definition strrchr :: "memory \<Rightarrow> nat \<Rightarrow> u8 \<Rightarrow> nat option option" where
  "strrchr m s c = do {
     n \<leftarrow> strlen m s;
     strrchr_loop m s n c
   }"

text \<open>The inner loop of \<open>strstr\<close>: whether the needle matches at the given place.\<close>

function strstr_match :: "memory \<Rightarrow> nat \<Rightarrow> nat \<Rightarrow> bool option" where
  "strstr_match m h n =
     (if n < length m
      then if m ! n = 0 then Some True
           else if h < length m
                then if m ! h = m ! n then strstr_match m (Suc h) (Suc n) else Some False
                else None
      else None)"
  by pat_completeness auto
termination
  by (relation "measure (\<lambda>(m, _, n). length m - n)") auto

declare strstr_match.simps [simp del]

function strstr :: "memory \<Rightarrow> nat \<Rightarrow> nat \<Rightarrow> nat option option" where
  "strstr m haystack needle =
     (if haystack < length m
      then if m ! haystack = 0 then Some None
           else do {
             found \<leftarrow> strstr_match m haystack needle;
             if found then Some (Some haystack) else strstr m (Suc haystack) needle
           }
      else None)"
  by pat_completeness auto
termination
  by (relation "measure (\<lambda>(m, h, _). length m - h)") auto

declare strstr.simps [simp del]

text \<open>
  \<open>strtok_r\<close> returns \<open>NULL\<close> unconditionally at its fourth statement: the \<open>return\<close> belongs to no
  branch of the \<open>if\<close> chain before it, and everything after it is dead.
\<close>

definition strtok_r :: "memory \<Rightarrow> nat option \<Rightarrow> nat \<Rightarrow> nat option \<Rightarrow> (nat option \<times> memory \<times> nat option) option" where
  "strtok_r m s delim saved = Some (None, m, saved)"

end
