(* ===== verification/C_Strings.thy ===== *)
theory C_Strings
  imports C_Memory
begin

text \<open>
  What the functions of \<open>memory.c\<close> and \<open>string.c\<close> compute, stated on the strings and byte blocks
  that stand in memory.
\<close>

named_theorems cstr_simps \<open>strings in memory, one character at a time\<close>

section \<open>Blocks and strings\<close>

lemma bytes_at_0 [simp]: "bytes_at m p 0 = []"
  by (simp add: bytes_at_def)

lemma bytes_at_Suc:
  "bytes_at m p (Suc n) = (if p < length m then m ! p # bytes_at m (Suc p) n else [])"
  by (simp add: bytes_at_def Cons_nth_drop_Suc [symmetric])

lemma length_bytes_at: "length (bytes_at m p n) = min n (length m - p)"
  by (simp add: bytes_at_def)

lemma cstr_at_Nil [cstr_simps]: "cstr_at m p [] \<longleftrightarrow> p < length m \<and> m ! p = 0"
  by (auto simp: cstr_at_def bytes_at_Suc)

lemma cstr_at_Cons [cstr_simps]:
  "cstr_at m p (c # s) \<longleftrightarrow> p < length m \<and> m ! p = c \<and> c \<noteq> 0 \<and> cstr_at m (Suc p) s"
  by (auto simp: cstr_at_def bytes_at_Suc)

lemma cstr_at_bound: "cstr_at m p s \<Longrightarrow> p + length s < length m"
proof (induction s arbitrary: p)
  case (Cons c s)
  then show ?case using Cons.IH [of "Suc p"] by (simp add: cstr_simps)
qed (simp add: cstr_simps)

lemma cstr_at_nth: "cstr_at m p s \<Longrightarrow> i < length s \<Longrightarrow> m ! (p + i) = s ! i"
proof (induction s arbitrary: p i)
  case (Cons c s)
  then show ?case using Cons.IH [of "Suc p"] by (cases i) (simp_all add: cstr_simps)
qed simp

lemma cstr_at_end: "cstr_at m p s \<Longrightarrow> m ! (p + length s) = 0"
proof (induction s arbitrary: p)
  case (Cons c s)
  then show ?case using Cons.IH [of "Suc p"] by (simp add: cstr_simps)
qed (simp add: cstr_simps)

lemma cstr_at_suffix: "cstr_at m p (xs @ ys) \<Longrightarrow> cstr_at m (p + length xs) ys"
proof (induction xs arbitrary: p)
  case (Cons c xs)
  then show ?case using Cons.IH [of "Suc p"] by (simp add: cstr_simps)
qed simp

lemma cstr_at_unique: "cstr_at m p s \<Longrightarrow> cstr_at m p t \<Longrightarrow> s = t"
proof (induction s arbitrary: p t)
  case Nil
  then show ?case by (cases t) (auto simp: cstr_simps)
next
  case (Cons c s)
  then show ?case by (cases t) (auto simp: cstr_simps)
qed

lemma cstr_at_cong:
  assumes "cstr_at m p s" "length m' = length m" "\<And>i. p \<le> i \<Longrightarrow> i \<le> p + length s \<Longrightarrow> m' ! i = m ! i"
  shows "cstr_at m' p s"
  using assms
proof (induction s arbitrary: p)
  case Nil
  then show ?case by (simp add: cstr_simps)
next
  case (Cons c s)
  have "cstr_at m' (Suc p) s" by (rule Cons.IH) (use Cons.prems in \<open>auto simp: cstr_simps\<close>)
  then show ?case using Cons.prems by (auto simp: cstr_simps)
qed

lemma length_patch [simp]: "a + length bs \<le> length m \<Longrightarrow> length (patch m a bs) = length m"
  by (simp add: patch_def)

lemma nth_patch:
  assumes "a + length bs \<le> length m"
  shows "patch m a bs ! i = (if a \<le> i \<and> i < a + length bs then bs ! (i - a) else m ! i)"
  using assms by (auto simp: patch_def nth_append)

lemma patch_Nil [simp]: "a \<le> length m \<Longrightarrow> patch m a [] = m"
  by (simp add: patch_def)

lemma patch_Cons:
  assumes "a + length bs < length m"
  shows "patch (m[a := b]) (Suc a) bs = patch m a (b # bs)"
proof (rule nth_equalityI)
  fix i assume "i < length (patch (m[a := b]) (Suc a) bs)"
  then show "patch (m[a := b]) (Suc a) bs ! i = patch m a (b # bs) ! i"
    using assms by (auto simp: nth_patch nth_list_update nth_Cons')
qed (use assms in simp)

lemma patch_single: "a < length m \<Longrightarrow> m[a := b] = patch m a [b]"
  using patch_Cons [of a "[]" m b] by simp

lemma patch_snoc:
  assumes "a + length bs < length m"
  shows "patch (m[a + length bs := b]) a bs = patch m a (bs @ [b])"
proof (rule nth_equalityI)
  fix i assume "i < length (patch (m[a + length bs := b]) a bs)"
  then show "patch (m[a + length bs := b]) a bs ! i = patch m a (bs @ [b]) ! i"
    using assms by (auto simp: nth_patch nth_list_update nth_append not_less less_Suc_eq)
qed (use assms in simp)

lemma bytes_at_update: "a < p \<or> p + n \<le> a \<Longrightarrow> bytes_at (m[a := v]) p n = bytes_at m p n"
  by (intro nth_equalityI) (auto simp: bytes_at_def nth_list_update)

section \<open>Copying blocks\<close>

lemma memcpy_loop_ok:
  assumes "d + n \<le> length m" "s + n \<le> length m" "d \<le> s \<or> s + n \<le> d"
  shows "memcpy_loop n m d s = Some (patch m d (bytes_at m s n))"
  using assms
proof (induction n arbitrary: m d s)
  case 0
  then show ?case by simp
next
  case (Suc n)
  let ?m = "m[d := m ! s]"
  have eq: "bytes_at ?m (Suc s) n = bytes_at m (Suc s) n"
    using Suc.prems(3) by (intro bytes_at_update) auto
  have "memcpy_loop n ?m (Suc d) (Suc s) = Some (patch ?m (Suc d) (bytes_at m (Suc s) n))"
    using Suc.IH [of "Suc d" ?m "Suc s"] Suc.prems eq by auto
  moreover have "patch ?m (Suc d) (bytes_at m (Suc s) n) = patch m d (bytes_at m s (Suc n))"
    using Suc.prems by (simp add: patch_Cons length_bytes_at bytes_at_Suc)
  ultimately show ?case using Suc.prems by (simp add: rd_def wr_def)
qed

lemma memmove_back_ok:
  assumes "d + n \<le> length m" "s + n \<le> length m" "s \<le> d"
  shows "memmove_back n m d s = Some (patch m d (bytes_at m s n))"
  using assms
proof (induction n arbitrary: m)
  case 0
  then show ?case by simp
next
  case (Suc n)
  let ?m = "m[d + n := m ! (s + n)]"
  have eq: "bytes_at ?m s n = bytes_at m s n"
    using Suc.prems(3) by (intro bytes_at_update) auto
  have sn: "bytes_at m s (Suc n) = bytes_at m s n @ [m ! (s + n)]"
    using Suc.prems by (simp add: bytes_at_def take_Suc_conv_app_nth)
  have "memmove_back n ?m d s = Some (patch ?m d (bytes_at m s n))"
    using Suc.IH [of ?m] Suc.prems eq by auto
  moreover have "patch ?m d (bytes_at m s n) = patch m d (bytes_at m s (Suc n))"
    using patch_snoc [of d "bytes_at m s n" m] Suc.prems by (simp add: sn length_bytes_at)
  ultimately show ?case using Suc.prems by (simp add: rd_def wr_def)
qed

lemma memset_ok: "s + n \<le> length m \<Longrightarrow> memset m s c n = Some (patch m s (replicate n c))"
proof (induction n arbitrary: m s)
  case (Suc n)
  have "memset (m[s := c]) (Suc s) c n = Some (patch (m[s := c]) (Suc s) (replicate n c))"
    using Suc by simp
  then show ?case using Suc.prems by (simp add: wr_def patch_Cons)
qed simp

lemma bytes_self: "s + n \<le> length m \<Longrightarrow> patch m s (bytes_at m s n) = m"
  by (rule nth_equalityI) (auto simp: nth_patch length_bytes_at bytes_at_def)

lemma memmove_ok:
  assumes "d + n \<le> length m" "s + n \<le> length m"
  shows "memmove m d s n = Some (patch m d (bytes_at m s n))"
  using assms memcpy_loop_ok [OF assms] memmove_back_ok [OF assms] bytes_self [OF assms(2)]
  by (cases d s rule: linorder_cases) (simp_all add: memmove_def)

section \<open>String functions\<close>

lemma strlen_loop_ok: "cstr_at m p s \<Longrightarrow> strlen_loop m p = Some (p + length s)"
  by (induction s arbitrary: p) (auto simp: cstr_simps strlen_loop.simps)

lemma strlen_ok: "cstr_at m p s \<Longrightarrow> strlen m p = Some (length s)"
  by (simp add: strlen_def strlen_loop_ok)

lemma strcpy_ok:
  assumes "cstr_at m src s" "dest + length s < length m" "dest \<le> src \<or> src + length s < dest"
  shows "strcpy m dest src = Some (patch m dest (s @ [0]))"
  unfolding strcpy_def using assms
proof (induction s arbitrary: m dest src)
  case Nil
  then show ?case by (subst strcpy_loop.simps) (simp add: cstr_simps wr_def patch_single)
next
  case (Cons c s)
  let ?m = "m[dest := c]"
  have c: "src < length m" "m ! src = c" "c \<noteq> 0" "cstr_at m (Suc src) s" using Cons.prems(1) by (simp_all add: cstr_simps)
  have "cstr_at ?m (Suc src) s"
    by (rule cstr_at_cong [OF c(4)]) (use Cons.prems(3) in auto)
  then have "strcpy_loop ?m (Suc dest) (Suc src) = Some (patch ?m (Suc dest) (s @ [0]))"
    using Cons.IH [of ?m "Suc src" "Suc dest"] Cons.prems by auto
  then show ?case
    using c Cons.prems by (subst strcpy_loop.simps) (simp add: patch_Cons)
qed

lemma uint_pos: "x \<noteq> 0 \<Longrightarrow> 0 < uint x" for x :: u8
  by (simp add: uint_0_iff order.strict_iff_order)

lemma strcmp_ok:
  assumes "cstr_at m p s" "cstr_at m q t"
  shows "\<exists>d. strcmp m p q = Some d \<and> (d = 0 \<longleftrightarrow> s = t) \<and> (d < 0 \<longleftrightarrow> (s, t) \<in> lexord {(a, b). a < b})"
  using assms
proof (induction s arbitrary: p q t)
  case Nil
  then show ?case
    by (cases t) (auto simp: cstr_simps strcmp.simps [of m p q] word_less_def uint_0_iff intro: uint_pos)
next
  case (Cons c s)
  then show ?case
    by (cases t) (auto simp: cstr_simps strcmp.simps [of m p q] word_less_def uint_0_iff dest: word_uint_eqI)
qed

lemma strchr_ok:
  assumes "cstr_at m p s"
  shows "strchr m p c = Some
    (if c = 0 then Some (p + length s)
     else if c \<in> set s then Some (p + length (takeWhile (\<lambda>x. x \<noteq> c) s)) else None)"
  using assms
proof (induction s arbitrary: p)
  case Nil
  then show ?case by (auto simp: cstr_simps strchr.simps [of m p])
next
  case (Cons d s)
  then show ?case by (auto simp: cstr_simps strchr.simps [of m p])
qed

lemma strstr_match_ok:
  assumes "cstr_at m h s" "cstr_at m n t"
  shows "strstr_match m h n = Some (take (length t) s = t)"
  using assms
proof (induction t arbitrary: h n s)
  case Nil
  then show ?case by (simp add: cstr_simps strstr_match.simps [of m h n])
next
  case (Cons c t)
  then show ?case by (cases s) (auto simp: cstr_simps strstr_match.simps [of m h n])
qed

lemma strstr_ok:
  assumes "cstr_at m h s" "cstr_at m n t"
  shows "strstr m h n = Some (map_option (\<lambda>i. h + i)
    (List.find (\<lambda>i. take (length t) (drop i s) = t) [0..<length s]))"
  using assms(1)
proof (induction s arbitrary: h)
  case Nil
  then show ?case by (simp add: cstr_simps strstr.simps [of m h])
next
  case (Cons c s)
  have c: "h < length m" "m ! h = c" "c \<noteq> 0" "cstr_at m (Suc h) s" using Cons.prems by (simp_all add: cstr_simps)
  note mt = strstr_match_ok [OF Cons.prems assms(2)]
  have up: "[0..<length (c # s)] = 0 # map Suc [0..<length s]"
    by (simp add: map_Suc_upt upt_conv_Cons del: upt_Suc)
  have fm: "List.find (\<lambda>i. take (length t) (drop i (c # s)) = t) (map Suc xs) =
      map_option Suc (List.find (\<lambda>i. take (length t) (drop i s) = t) xs)" for xs
    by (induction xs) auto
  show ?case
    unfolding up using c mt Cons.IH [OF c(4)]
    by (subst strstr.simps) (auto simp: fm option.map_comp comp_def)
qed

lemma strrchr_loop_ok:
  assumes "s + k < length m"
  shows "strrchr_loop m s k c =
    Some (map_option (\<lambda>i. s + i) (List.find (\<lambda>i. m ! (s + i) = c) (rev [0..<Suc k])))"
  using assms
proof (induction k)
  case 0
  then show ?case by (simp add: strrchr_loop.simps rd_def)
next
  case (Suc k)
  then show ?case by (subst strrchr_loop.simps) (simp add: rd_def)
qed

lemma memcmp_ok:
  assumes "p + n \<le> length m" "q + n \<le> length m"
  shows "\<exists>d. memcmp m p q n = Some d \<and> (d = 0 \<longleftrightarrow> bytes_at m p n = bytes_at m q n) \<and>
    (d < 0 \<longleftrightarrow> (bytes_at m p n, bytes_at m q n) \<in> lexord {(a, b). a < b})"
  using assms
proof (induction n arbitrary: p q)
  case 0
  then show ?case by simp
next
  case (Suc n)
  then show ?case using Suc.IH [of "Suc p" "Suc q"] by (auto simp: rd_def bytes_at_Suc)
qed

lemma strncpy_loop_ok:
  assumes "cstr_at m src s" "dest + min n (length s) \<le> length m" "dest \<le> src \<or> src + length s < dest"
  shows "strncpy_loop n m dest src =
    Some (patch m dest (take n s), dest + min n (length s), n - length s)"
  using assms
proof (induction s arbitrary: m dest src n)
  case Nil
  then show ?case by (subst strncpy_loop.simps) (simp add: cstr_simps rd_def)
next
  case (Cons c s)
  have c: "src < length m" "m ! src = c" "c \<noteq> 0" "cstr_at m (Suc src) s" using Cons.prems(1) by (simp_all add: cstr_simps)
  show ?case
  proof (cases n)
    case 0
    then show ?thesis using c Cons.prems by (subst strncpy_loop.simps) (simp add: rd_def)
  next
    case (Suc k)
    let ?m = "m[dest := c]"
    have "cstr_at ?m (Suc src) s"
      by (rule cstr_at_cong [OF c(4)]) (use Cons.prems(3) in auto)
    then have "strncpy_loop k ?m (Suc dest) (Suc src) =
        Some (patch ?m (Suc dest) (take k s), Suc dest + min k (length s), k - length s)"
      using Cons.IH [of ?m "Suc src" "Suc dest" k] Cons.prems(2,3) Suc by auto
    moreover have "patch ?m (Suc dest) (take k s) = patch m dest (take n (c # s))"
      using Cons.prems(2) Suc by (simp add: patch_Cons min_def split: if_splits)
    ultimately show ?thesis using c Cons.prems(2) Suc by (subst strncpy_loop.simps) (simp add: rd_def wr_def)
  qed
qed

lemma patch_append:
  assumes "a + length bs + length cs \<le> length m"
  shows "patch (patch m a bs) (a + length bs) cs = patch m a (bs @ cs)"
proof (rule nth_equalityI)
  fix i assume "i < length (patch (patch m a bs) (a + length bs) cs)"
  then show "patch (patch m a bs) (a + length bs) cs ! i = patch m a (bs @ cs) ! i"
    using assms by (auto simp: nth_patch nth_append)
qed (use assms in simp)

lemma strncpy_ok:
  assumes "cstr_at m src s" "dest + n \<le> length m" "dest \<le> src \<or> src + length s < dest"
  shows "strncpy m dest src n = Some (patch m dest (take n s @ replicate (n - length s) 0))"
proof -
  have "strncpy_loop n m dest src = Some (patch m dest (take n s), dest + min n (length s), n - length s)"
    using assms by (intro strncpy_loop_ok) auto
  moreover have "patch (patch m dest (take n s)) (dest + min n (length s)) (replicate (n - length s) 0) =
      patch m dest (take n s @ replicate (n - length s) 0)"
    using patch_append [of dest "take n s" "replicate (n - length s) 0" m] assms(2)
    by (simp add: min.commute)
  ultimately show ?thesis
    using assms(2) by (simp add: strncpy_def memset_ok)
qed

end
