(* ===== verification/Pathn.thy ===== *)
theory Pathn
  imports C_Strings
begin

text \<open>
  Path names, \<open>kernel/src/std/pathn.c\<close>: buffering a path and cutting it into sections at the
  separator. The functions work on memory like those of \<open>string.c\<close>; the lemmas relate them to
  the section list of a path, \<open>sections\<close>.
\<close>

section \<open>Model\<close>

definition SEPERATOR :: u8 where
  "SEPERATOR = 47"

definition MAX_SECTION_LENGTH :: nat where
  "MAX_SECTION_LENGTH = 256"

definition path_is_root :: "memory \<Rightarrow> nat \<Rightarrow> bool option" where
  "path_is_root m path = map_option (\<lambda>c. c = SEPERATOR) (rd m path)"

definition pathn_buffer :: "memory \<Rightarrow> nat \<Rightarrow> nat \<Rightarrow> memory option" where
  "pathn_buffer m buffer path = do {
     m1 \<leftarrow> strncpy m buffer path 255;
     l \<leftarrow> strlen m1 path;
     wr m1 (buffer + l) 0
   }"

definition pathn_buffer_n :: "memory \<Rightarrow> nat \<Rightarrow> nat \<Rightarrow> nat \<Rightarrow> memory option" where
  "pathn_buffer_n m buffer path n = do {
     m1 \<leftarrow> strncpy m buffer path (if n < 255 then n else 255);
     wr m1 (buffer + n) 0
   }"

function skip_seperators :: "memory \<Rightarrow> nat \<Rightarrow> nat option" where
  "skip_seperators m p =
     (if p < length m then if m ! p = SEPERATOR then skip_seperators m (Suc p) else Some p else None)"
  by pat_completeness auto
termination
  by (relation "measure (\<lambda>(m, p). length m - p)") auto

declare skip_seperators.simps [simp del]

text \<open>The result is the rest of the path, \<open>None\<close> for \<open>NULL\<close>, and the memory with the section in
  \<open>buffer\<close>.\<close>

definition copy_first_section :: "memory \<Rightarrow> nat \<Rightarrow> nat \<Rightarrow> (memory \<times> nat option) option" where
  "copy_first_section m pathname buffer = do {
     p \<leftarrow> skip_seperators m pathname;
     next_sep \<leftarrow> strchr m p SEPERATOR;
     (case next_sep of
        None \<Rightarrow> do { m' \<leftarrow> strcpy m buffer p; Some (m', None) }
      | Some q \<Rightarrow>
          let len = (if MAX_SECTION_LENGTH - 1 < q - p then MAX_SECTION_LENGTH - 1 else q - p) in
          do { m1 \<leftarrow> strncpy m buffer p len; m2 \<leftarrow> wr m1 (buffer + len) 0; Some (m2, Some q) })
   }"

text \<open>
  \<open>split_path\<close> returns the address of the first section, or \<open>NULL\<close>, and writes its length through
  a pointer; \<open>len0\<close> is the value there before the call. A null path is \<open>None\<close>.
\<close>

definition split_path :: "memory \<Rightarrow> nat option \<Rightarrow> nat \<Rightarrow> (nat option \<times> nat) option" where
  "split_path m path len0 =
     (case path of
        None \<Rightarrow> Some (None, 0)
      | Some p \<Rightarrow> do {
          c \<leftarrow> rd m p;
          if c = 0 then Some (None, 0)
          else do {
            start \<leftarrow> skip_seperators m p;
            c' \<leftarrow> rd m start;
            if c' = 0 then Some (None, len0)
            else do {
              delimiter \<leftarrow> strchr m start SEPERATOR;
              (case delimiter of
                 None \<Rightarrow> do { l \<leftarrow> strlen m start; Some (Some start, l) }
               | Some d \<Rightarrow> Some (Some start, d - start))
            }
          }
        })"

section \<open>Sections of a path\<close>

definition is_sep :: "u8 \<Rightarrow> bool" where
  "is_sep c \<longleftrightarrow> c = SEPERATOR"

definition first_section :: "u8 list \<Rightarrow> u8 list" where
  "first_section s = takeWhile (\<lambda>c. \<not> is_sep c) (dropWhile is_sep s)"

definition after_section :: "u8 list \<Rightarrow> u8 list" where
  "after_section s = dropWhile (\<lambda>c. \<not> is_sep c) (dropWhile is_sep s)"

lemma section_split: "s = takeWhile is_sep s @ first_section s @ after_section s"
  by (simp add: first_section_def after_section_def)

lemma first_section_empty: "first_section s = [] \<longleftrightarrow> dropWhile is_sep s = []"
  unfolding first_section_def
  by (metis (no_types, lifting) hd_dropWhile takeWhile_eq_Nil_iff)

lemma skip_seperators_ok:
  assumes "cstr_at m p s"
  shows "skip_seperators m p = Some (p + length (takeWhile is_sep s))"
  using assms
proof (induction s arbitrary: p)
  case Nil
  then show ?case by (simp add: cstr_simps skip_seperators.simps [of m p] SEPERATOR_def)
next
  case (Cons c s)
  then show ?case
    using Cons.IH [of "Suc p"] by (simp add: cstr_simps skip_seperators.simps [of m p] is_sep_def)
qed

lemma after_skip:
  assumes "cstr_at m p s"
  shows "cstr_at m (p + length (takeWhile is_sep s)) (dropWhile is_sep s)"
  using cstr_at_suffix [of m p "takeWhile is_sep s" "dropWhile is_sep s"] assms by simp

lemma split_path_ok:
  assumes s: "cstr_at m p s"
  shows "split_path m (Some p) len0 =
    Some (if s = [] then (None, 0)
          else if first_section s = [] then (None, len0)
          else (Some (p + length (takeWhile is_sep s)), length (first_section s)))"
proof (cases s)
  case Nil
  then show ?thesis using s by (simp add: split_path_def cstr_simps rd_def)
next
  case (Cons c t)
  have p: "p < length m" "m ! p = c" "c \<noteq> 0" using s Cons by (simp_all add: cstr_simps)
  define q where "q = p + length (takeWhile is_sep s)"
  define t where "t = dropWhile is_sep s"
  have qt: "cstr_at m q t" using after_skip [OF s] by (simp add: q_def t_def)
  have sk: "skip_seperators m p = Some q" using skip_seperators_ok [OF s] by (simp add: q_def)
  have fs: "first_section s = takeWhile (\<lambda>x. x \<noteq> SEPERATOR) t"
    by (simp add: first_section_def t_def is_sep_def)
  have emp: "first_section s = [] \<longleftrightarrow> t = []" by (simp add: first_section_empty t_def)
  have start: "split_path m (Some p) len0 = do {
      c' \<leftarrow> rd m q;
      if c' = 0 then Some (None, len0)
      else do {
        delimiter \<leftarrow> strchr m q SEPERATOR;
        (case delimiter of
           None \<Rightarrow> do { l \<leftarrow> strlen m q; Some (Some q, l) }
         | Some d \<Rightarrow> Some (Some q, d - q))
      }
    }"
    using p sk by (simp add: split_path_def rd_def)
  have res: "split_path m (Some p) len0 =
    Some (if t = [] then (None, len0) else (Some q, length (first_section s)))"
  proof (cases t)
    case Nil
    then show ?thesis using qt by (simp add: start cstr_simps rd_def)
  next
    case (Cons d u)
    then have "rd m q = Some d" "d \<noteq> 0" using qt by (simp_all add: cstr_simps rd_def)
    moreover have "SEPERATOR \<noteq> 0" by (simp add: SEPERATOR_def)
    moreover have "takeWhile (\<lambda>x. x \<noteq> SEPERATOR) t = t" if "SEPERATOR \<notin> set t"
      using that by (intro takeWhile_eq_all_conv [THEN iffD2]) auto
    ultimately show ?thesis
      using strchr_ok [OF qt, of SEPERATOR] strlen_ok [OF qt] Cons unfolding start fs by simp
  qed
  then show ?thesis using Cons emp by (simp add: q_def)
qed

lemma first_section_clean: "c \<in> set (first_section s) \<Longrightarrow> \<not> is_sep c"
  by (auto simp: first_section_def dest: set_takeWhileD)

end
