(* ===== verification/String_Props.thy ===== *)
theory String_Props
  imports Pathn
begin

text \<open>
  The properties of the C library functions and of the path functions. \<open>demo_mem\<close> is a small
  memory with the strings \<open>"ab"\<close> at 1 and \<open>"/ab"\<close> at 0, followed by free bytes.
\<close>

definition demo_mem :: memory where
  "demo_mem = [47, 97, 98, 0] @ replicate 260 7"

lemma demo_ab: "cstr_at demo_mem 1 [97, 98]" "cstr_at demo_mem 0 [47, 97, 98]"
  by (simp_all add: cstr_simps demo_mem_def)

lemma demo_length: "length demo_mem = 264"
  by (simp add: demo_mem_def)

text \<open>
  C22. \<open>memmove\<close> is right for every pair of mapped blocks, overlapping or not: the destination
  receives the bytes that the source held before the call and nothing else changes.
  \<open>memcpy\<close> agrees with it whenever the destination does not start inside the source.
\<close>

theorem memmove_moves_old_bytes:
  assumes "d + n \<le> length m" "s + n \<le> length m"
  shows "memmove m d s n = Some (patch m d (bytes_at m s n)) \<and>
    (d \<le> s \<or> s + n \<le> d \<longrightarrow> memcpy m d s n = memmove m d s n)"
  using memmove_ok [OF assms] memcpy_loop_ok [OF assms] by (simp add: memcpy_def)

theorem memmove_moves_old_bytes_witness:
  "memmove demo_mem 1 0 3 = Some (patch demo_mem 1 (bytes_at demo_mem 0 3)) \<and>
    memcpy demo_mem 0 1 3 = memmove demo_mem 0 1 3"
  using memmove_moves_old_bytes [of 1 3 demo_mem 0] memmove_moves_old_bytes [of 0 3 demo_mem 1]
  by (simp add: demo_length)

text \<open>
  C23. \<open>strcmp\<close> of two strings is zero exactly when they are equal and negative exactly when the
  first is smaller in the lexicographic order of unsigned bytes.
\<close>

theorem strcmp_lexicographic:
  assumes "cstr_at m p s" "cstr_at m q t"
  shows "\<exists>d. strcmp m p q = Some d \<and> (d = 0 \<longleftrightarrow> s = t) \<and> (d < 0 \<longleftrightarrow> (s, t) \<in> lexord {(a, b). a < b})"
  by (rule strcmp_ok [OF assms])

theorem strcmp_lexicographic_witness:
  "\<exists>d. strcmp demo_mem 0 1 = Some d \<and> (d = 0 \<longleftrightarrow> [47, 97, 98] = [97, 98 :: u8]) \<and>
    (d < 0 \<longleftrightarrow> ([47, 97, 98], [97, 98 :: u8]) \<in> lexord {(a, b). a < b})"
  by (rule strcmp_lexicographic [OF demo_ab(2,1)])

lemma cstr_patch:
  assumes "a + length s < length m" "0 \<notin> set s"
  shows "cstr_at (patch m a (s @ [0])) a s"
proof -
  have "length s + 1 = length (s @ [0])" by simp
  moreover have "bytes_at (patch m a bs) a (length bs) = bs" if "a + length bs \<le> length m" for bs
    using that by (simp add: bytes_at_def patch_def)
  ultimately show ?thesis using assms unfolding cstr_at_def by (metis Suc_leI add_Suc_right length_append_singleton)
qed

text \<open>
  C24. Concatenation: if \<open>dest\<close> holds \<open>s\<close>, \<open>src\<close> holds \<open>t\<close>, the result fits and \<open>src\<close> ends before \<open>dest\<close>
  or starts after the result, then after \<open>strcat\<close> the string at \<open>dest\<close> is \<open>s\<close> followed by \<open>t\<close>, the
  length \<open>strlen\<close> reports is the sum, and no byte outside the result has changed.
\<close>

theorem strcat_appends:
  assumes "cstr_at m dest s" "cstr_at m src t" "dest + length s + length t < length m"
    "src + length t < dest \<or> dest + length s + length t < src"
  shows "\<exists>m'. strcat m dest src = Some m' \<and> cstr_at m' dest (s @ t) \<and>
    strlen m' dest = Some (length s + length t) \<and>
    (\<forall>i. i < dest \<or> dest + length s + length t < i \<longrightarrow> m' ! i = m ! i)"
proof -
  let ?d = "dest + length s"
  let ?m = "patch m ?d (t @ [0])"
  have "strcpy m ?d src = Some ?m" using assms by (intro strcpy_ok) auto
  then have run: "strcat m dest src = Some ?m" using strlen_ok [OF assms(1)] by (simp add: strcat_def)
  have nz: "0 \<notin> set s" "0 \<notin> set t" using assms(1,2) by (simp_all add: cstr_at_def)
  have "?m = patch m dest ((s @ t) @ [0])"
  proof (rule nth_equalityI)
    fix i assume "i < length ?m"
    then show "?m ! i = patch m dest ((s @ t) @ [0]) ! i"
      using assms(3) cstr_at_nth [OF assms(1), of "i - dest"] by (auto simp: nth_patch nth_append)
  qed (use assms(3) in simp)
  then have at: "cstr_at ?m dest (s @ t)" using cstr_patch [of dest "s @ t" m] assms(3) nz by simp
  moreover have "\<forall>i. i < dest \<or> dest + length s + length t < i \<longrightarrow> ?m ! i = m ! i"
    using assms(3) by (simp add: nth_patch)
  ultimately show ?thesis using run strlen_ok [OF at] by auto
qed

theorem strcat_appends_witness:
  "\<exists>m'. strcat (patch demo_mem 4 [99, 0]) 4 1 = Some m' \<and> cstr_at m' 4 ([99] @ [97, 98]) \<and>
    strlen m' 4 = Some (length [99 :: u8] + length [97, 98 :: u8]) \<and>
    (\<forall>i. i < 4 \<or> 4 + length [99 :: u8] + length [97, 98 :: u8] < i \<longrightarrow> m' ! i = patch demo_mem 4 [99, 0] ! i)"
  by (rule strcat_appends) (simp_all add: cstr_simps demo_mem_def patch_def)

text \<open>
  C25. \<open>split_path\<close> finds the first section of a path: it skips exactly the leading separators and
  returns the start and the length of the longest run without a separator after them, or \<open>NULL\<close>
  when there is none; the section it returns is not empty and contains no separator, and what
  is before it are separators only.
\<close>

theorem split_path_first_section:
  assumes "cstr_at m p s"
  shows "split_path m (Some p) len0 =
    Some (if s = [] then (None, 0)
          else if first_section s = [] then (None, len0)
          else (Some (p + length (takeWhile is_sep s)), length (first_section s))) \<and>
    s = takeWhile is_sep s @ first_section s @ after_section s \<and>
    (\<forall>c\<in>set (first_section s). \<not> is_sep c) \<and> (after_section s = [] \<or> is_sep (hd (after_section s)))"
  using split_path_ok [OF assms] section_split [of s] first_section_clean [of _ s]
    hd_dropWhile [of "\<lambda>c. \<not> is_sep c" "dropWhile is_sep s"]
  by (auto simp: after_section_def)

theorem split_path_first_section_witness:
  "split_path demo_mem (Some 0) 9 = Some (Some 1, 2)"
  using split_path_first_section [OF demo_ab(2), of 9]
  by (simp add: first_section_def is_sep_def SEPERATOR_def)

text \<open>
  C26. \<open>pathn_buffer\<close> copies a path of at most 255 characters into the buffer and terminates it.
  For every length it writes one zero byte at \<open>buffer\<close> plus the length of the path: a path of
  256 characters or more makes it write behind the 256 bytes that the interface assumes.
\<close>

theorem pathn_buffer_terminator:
  assumes "cstr_at m path s" "buffer + 255 \<le> length m" "buffer + length s < length m"
    "path + length s < buffer \<or> buffer + 255 \<le> path"
  shows "\<exists>m'. pathn_buffer m buffer path = Some m' \<and>
    (length s \<le> 255 \<longrightarrow> cstr_at m' buffer s) \<and> m' ! (buffer + length s) = 0 \<and>
    (\<forall>i. i < buffer \<or> buffer + 255 \<le> i \<and> i \<noteq> buffer + length s \<longrightarrow> m' ! i = m ! i)"
proof -
  let ?bs = "take 255 s @ replicate (255 - length s) 0"
  let ?m1 = "patch m buffer ?bs"
  let ?m = "?m1[buffer + length s := 0]"
  have lb: "length ?bs = 255" by simp
  have m1: "strncpy m buffer path 255 = Some ?m1" using assms by (intro strncpy_ok) auto
  have "cstr_at ?m1 path s"
    by (rule cstr_at_cong [OF assms(1)]) (use assms(2,4) lb in \<open>auto simp: nth_patch\<close>)
  then have run: "pathn_buffer m buffer path = Some ?m"
    using m1 assms(2,3) lb by (simp add: pathn_buffer_def strlen_ok wr_def)
  have nz: "0 \<notin> set s" using assms(1) by (simp add: cstr_at_def)
  have "cstr_at ?m buffer s" if l: "length s \<le> 255"
  proof (rule cstr_at_cong)
    show "cstr_at (patch m buffer (s @ [0])) buffer s" by (rule cstr_patch [OF assms(3) nz])
    show "length ?m = length (patch m buffer (s @ [0]))" using assms(2,3) lb by simp
    show "?m ! i = patch m buffer (s @ [0]) ! i" if "buffer \<le> i" "i \<le> buffer + length s" for i
      using that assms(2,3) lb l by (auto simp: nth_patch nth_append nth_list_update)
  qed
  moreover have "?m ! (buffer + length s) = 0" using assms(2,3) lb by simp
  moreover have "\<forall>i. i < buffer \<or> buffer + 255 \<le> i \<and> i \<noteq> buffer + length s \<longrightarrow> ?m ! i = m ! i"
    using assms(2) lb by (auto simp: nth_patch)
  ultimately show ?thesis using run by blast
qed

theorem pathn_buffer_terminator_witness:
  "\<exists>m'. pathn_buffer demo_mem 4 1 = Some m' \<and>
    (length [97, 98 :: u8] \<le> 255 \<longrightarrow> cstr_at m' 4 [97, 98]) \<and> m' ! (4 + length [97, 98 :: u8]) = 0 \<and>
    (\<forall>i. i < 4 \<or> 4 + 255 \<le> i \<and> i \<noteq> 4 + length [97, 98 :: u8] \<longrightarrow> m' ! i = demo_mem ! i)"
  by (rule pathn_buffer_terminator [OF demo_ab(1)]) (simp_all add: demo_length)

end
