(* ===== verification/Slab.thy ===== *)
theory Slab
  imports Frame_Contract C_Memory
begin

text \<open>
  The kernel heap, \<open>kernel/src/mm/slab.c\<close> with \<open>kernel/include/kheap.h\<close>, without the optional
  sanitizer (\<open>CONFIG_SLAB_SANITIZE\<close> is not defined). A slab is a block of pages whose first
  \<open>struct page\<close> carries the slab's data, so the slab state is the page table of the frame
  allocator, the table of caches and the words that link the free objects. Virtual addresses of
  objects are natural numbers: the physical address plus \<open>hhdm\<close>; 0 is \<open>NULL\<close>. Each operation runs
  under the lock of its cache.
\<close>

section \<open>State\<close>

definition KMALLOC_MAX_CACHE_SIZE :: nat where
  "KMALLOC_MAX_CACHE_SIZE = PAGE_SIZE * 2"

definition KMALLOC_ALLOC_MIN :: nat where
  "KMALLOC_ALLOC_MIN = 16"

definition KMALLOC_ALLOC_MAX :: nat where
  "KMALLOC_ALLOC_MAX = 8192"

definition KMALLOC_ALLOC_SIZES :: nat where
  "KMALLOC_ALLOC_SIZES = 10"

definition STRUCT_PAGE_FLAG_COMPOSITE_TAIL :: u32 where
  "STRUCT_PAGE_FLAG_COMPOSITE_TAIL = 2"

definition STRUCT_PAGE_FLAG_SLAB_COMPOSITE_HEAD :: u32 where
  "STRUCT_PAGE_FLAG_SLAB_COMPOSITE_HEAD = 4"

definition STRUCT_PAGE_FLAG_KMALLOC_BUDDY :: u32 where
  "STRUCT_PAGE_FLAG_KMALLOC_BUDDY = 8"

record slab_cache =
  named :: bool
  pages_per_slab :: nat
  obj_size :: nat
  obj_md_size :: nat
  c_total_objs :: nat
  c_total_objs_allocated :: nat
  full_slab_count :: nat
  partial_slab_count :: nat
  empty_slab_count :: nat
  full_slabs :: page_ptr
  partial_slabs :: page_ptr
  empty_slabs :: page_ptr

record kheap =
  frames :: frame_state
  kmalloc_generic_caches :: "slab_cache list"
  slab_initialized :: bool
  words :: "nat \<Rightarrow> nat"
  hhdm :: nat

definition zero_cache :: slab_cache where
  "zero_cache = \<lparr>named = False, pages_per_slab = 0, obj_size = 0, obj_md_size = 0, c_total_objs = 0,
     c_total_objs_allocated = 0, full_slab_count = 0, partial_slab_count = 0, empty_slab_count = 0,
     full_slabs = Null, partial_slabs = Null, empty_slabs = Null\<rparr>"

definition kmalloc_pps_mappings :: "nat list" where
  "kmalloc_pps_mappings = [1, 1, 1, 1, 2, 4, 8, 8, 16, 16]"

text \<open>Access to the page table, to one page and to one cache.\<close>

definition heap_pages :: "kheap \<Rightarrow> page_heap" where
  "heap_pages k = pages (frames k)"

definition set_pages :: "page_heap \<Rightarrow> kheap \<Rightarrow> kheap" where
  "set_pages h k = k\<lparr>frames := (frames k)\<lparr>pages := h\<rparr>\<rparr>"

definition get_page :: "kheap \<Rightarrow> page_ptr \<Rightarrow> page option" where
  "get_page k p = (case p of Ref i \<Rightarrow> if i < length (heap_pages k) then Some (heap_pages k ! i) else None | _ \<Rightarrow> None)"

definition put_page :: "kheap \<Rightarrow> page_ptr \<Rightarrow> page \<Rightarrow> kheap option" where
  "put_page k p pg =
     (case p of Ref i \<Rightarrow> if i < length (heap_pages k) then Some (set_pages ((heap_pages k)[i := pg]) k) else None
      | _ \<Rightarrow> None)"

definition get_cache :: "kheap \<Rightarrow> nat \<Rightarrow> slab_cache option" where
  "get_cache k c = (if c < length (kmalloc_generic_caches k) then Some (kmalloc_generic_caches k ! c) else None)"

definition put_cache :: "kheap \<Rightarrow> nat \<Rightarrow> slab_cache \<Rightarrow> kheap option" where
  "put_cache k c sc =
     (if c < length (kmalloc_generic_caches k)
      then Some (k\<lparr>kmalloc_generic_caches := (kmalloc_generic_caches k)[c := sc]\<rparr>) else None)"

section \<open>Size classes\<close>

fun size2block_loop :: "nat \<Rightarrow> nat \<Rightarrow> nat" where
  "size2block_loop sz order = (if sz div 2 \<noteq> 0 then size2block_loop (sz div 2) (Suc order) else order)"

declare size2block_loop.simps [simp del]

definition size2block :: "nat \<Rightarrow> nat option" where
  "size2block sz = do {
     kassert (sz \<noteq> 0);
     Some (size2block_loop ((sz - 1) div 8) 0)
   }"

section \<open>Slab lists\<close>

definition slab_list_link :: "page_heap \<Rightarrow> page_ptr \<Rightarrow> page_ptr \<Rightarrow> (page_heap \<times> page_ptr) option" where
  "slab_list_link h new head = do {
     h1 \<leftarrow> put1 h new Null;
     h2 \<leftarrow> put0 h1 new head;
     h3 \<leftarrow> (if head \<noteq> Null then put1 h2 head new else Some h2);
     Some (h3, new)
   }"

definition slab_list_unlink :: "page_heap \<Rightarrow> page_ptr \<Rightarrow> page_ptr \<Rightarrow> (page_heap \<times> page_ptr) option" where
  "slab_list_unlink h entry head = do {
     kassert (head \<noteq> Null);
     head' \<leftarrow> (if head = entry then get0 h entry else Some head);
     p \<leftarrow> get1 h entry;
     h1 \<leftarrow> (if p \<noteq> Null then do { n \<leftarrow> get0 h entry; put0 h p n } else Some h);
     n \<leftarrow> get0 h1 entry;
     h2 \<leftarrow> (if n \<noteq> Null then do { p' \<leftarrow> get1 h1 entry; put1 h1 n p' } else Some h1);
     h3 \<leftarrow> put1 h2 entry Poison;
     h4 \<leftarrow> put0 h3 entry Poison;
     Some (h4, head')
   }"

section \<open>Composite pages\<close>

fun mark_tail :: "nat \<Rightarrow> nat \<Rightarrow> page_ptr \<Rightarrow> page_heap \<Rightarrow> page_heap option" where
  "mark_tail i 0 head h = Some h"
| "mark_tail i (Suc n) head h =
     (let j = i + Suc n in
      if j < length h \<and> pflags (h ! j) AND STRUCT_PAGE_FLAG_COMPOSITE_TAIL = 0
      then mark_tail i n head
             (h[j := (h ! j)\<lparr>pflags := pflags (h ! j) OR STRUCT_PAGE_FLAG_COMPOSITE_TAIL, link0 := head\<rparr>])
      else None)"

definition mark_composite_page :: "page_ptr \<Rightarrow> nat \<Rightarrow> page_heap \<Rightarrow> page_heap option" where
  "mark_composite_page head num_pgs h = do {
     i \<leftarrow> page2idx h head;
     kassert (num_pgs \<noteq> 0 \<and> pflags (h ! i) AND STRUCT_PAGE_FLAG_SLAB_COMPOSITE_HEAD = 0);
     mark_tail i (num_pgs - 1) head
       (h[i := (h ! i)\<lparr>pflags := pflags (h ! i) OR STRUCT_PAGE_FLAG_SLAB_COMPOSITE_HEAD\<rparr>])
   }"

fun unmark_tail :: "nat \<Rightarrow> nat \<Rightarrow> page_heap \<Rightarrow> page_heap option" where
  "unmark_tail i 0 h = Some h"
| "unmark_tail i (Suc n) h =
     (let j = i + Suc n in
      if j < length h \<and> pflags (h ! j) AND STRUCT_PAGE_FLAG_COMPOSITE_TAIL \<noteq> 0
      then unmark_tail i n
             (h[j := (h ! j)\<lparr>pflags := pflags (h ! j) AND NOT STRUCT_PAGE_FLAG_COMPOSITE_TAIL\<rparr>])
      else None)"

definition unmark_composite_page :: "page_ptr \<Rightarrow> nat \<Rightarrow> page_heap \<Rightarrow> page_heap option" where
  "unmark_composite_page head num_pgs h = do {
     i \<leftarrow> page2idx h head;
     unmark_tail i (num_pgs - 1)
       (h[i := (h ! i)\<lparr>pflags := pflags (h ! i) AND NOT STRUCT_PAGE_FLAG_SLAB_COMPOSITE_HEAD\<rparr>])
   }"

section \<open>Caches\<close>

definition init_slab_cache :: "slab_cache \<Rightarrow> nat \<Rightarrow> slab_cache option" where
  "init_slab_cache c alloc_size = do {
     kassert (\<not> named c);
     kassert (alloc_size AND (alloc_size - 1) = 0 \<and> KMALLOC_ALLOC_MIN \<le> alloc_size \<and>
              alloc_size \<le> KMALLOC_ALLOC_MAX);
     let i = size2order (alloc_size div 2 ^ 5);
     kassert (i < length kmalloc_pps_mappings);
     Some (c\<lparr>named := True, empty_slabs := Null, full_slabs := Null, partial_slabs := Null,
             obj_size := alloc_size, c_total_objs := 0, c_total_objs_allocated := 0,
             full_slab_count := 0, partial_slab_count := 0, empty_slab_count := 0,
             obj_md_size := alloc_size, pages_per_slab := kmalloc_pps_mappings ! i\<rparr>)
   }"

fun init_caches :: "nat list \<Rightarrow> kheap \<Rightarrow> kheap option" where
  "init_caches [] k = Some k"
| "init_caches (i # is) k = do {
     c \<leftarrow> get_cache k i;
     c' \<leftarrow> init_slab_cache c (2 ^ (i + 4));
     k' \<leftarrow> put_cache k i c';
     init_caches is k'
   }"

definition slab_init :: "kheap \<Rightarrow> kheap option" where
  "slab_init k = do {
     k' \<leftarrow> init_caches [0..<KMALLOC_ALLOC_SIZES] k;
     Some (k'\<lparr>slab_initialized := True\<rparr>)
   }"

definition slab2addr :: "kheap \<Rightarrow> page_ptr \<Rightarrow> nat option" where
  "slab2addr k s = map_option (push_bit PAGE_SHIFT) (page2idx (heap_pages k) s)"

text \<open>The loop that links the objects of a new slab: object \<open>i\<close> points to object \<open>i + 1\<close>.\<close>

fun link_objects :: "nat \<Rightarrow> nat \<Rightarrow> nat \<Rightarrow> (nat \<Rightarrow> nat) \<Rightarrow> nat \<Rightarrow> nat" where
  "link_objects data sz 0 w = w"
| "link_objects data sz (Suc n) w = (link_objects data sz n w)(data + n * sz := data + Suc n * sz)"

definition new_slab :: "nat \<Rightarrow> nat \<Rightarrow> kheap \<Rightarrow> kheap option" where
  "new_slab c page_count k = do {
     let alloc_order = size2order page_count;
     (s, fs) \<leftarrow> page_alloc alloc_order (frames k);
     let k1 = k\<lparr>frames := fs\<rparr>;
     pg \<leftarrow> get_page k1 s;
     sc \<leftarrow> get_cache k1 c;
     kassert (obj_md_size sc \<noteq> 0);
     let total = unat (of_nat (order2size alloc_order * PAGE_SIZE div obj_md_size sc) :: u16);
     kassert (total = pages_per_slab sc * PAGE_SIZE div obj_md_size sc);
     base \<leftarrow> slab2addr k1 s;
     let slab_data = base + hhdm k;
     k2 \<leftarrow> put_page k1 s (pg\<lparr>this_cache := Some c, total_objs := of_nat total, used_objs := 0,
                            freelist := slab_data\<rparr>);
     let w = (link_objects slab_data (obj_md_size sc) (total - 1) (words k2))
               (slab_data + (total - 1) * obj_md_size sc := 0);
     (h, head) \<leftarrow> slab_list_link (heap_pages k2) s (full_slabs sc);
     k3 \<leftarrow> put_cache (set_pages h (k2\<lparr>words := w\<rparr>)) c
             (sc\<lparr>full_slabs := head, full_slab_count := full_slab_count sc + 1,
                 c_total_objs := c_total_objs sc + total\<rparr>);
     h' \<leftarrow> mark_composite_page s (order2size alloc_order) (heap_pages k3);
     Some (set_pages h' k3)
   }"

definition attempt_free_full :: "nat \<Rightarrow> kheap \<Rightarrow> kheap option" where
  "attempt_free_full c k = do {
     sc \<leftarrow> get_cache k c;
     b \<leftarrow> size2block (obj_md_size sc);
     if full_slab_count sc > b + 1 then do {
       let s = full_slabs sc;
       (h, head) \<leftarrow> slab_list_unlink (heap_pages k) s (full_slabs sc);
       let k1 = set_pages h k;
       pg \<leftarrow> get_page k1 s;
       k2 \<leftarrow> put_cache k1 c (sc\<lparr>full_slabs := head, full_slab_count := full_slab_count sc - 1,
                              c_total_objs := c_total_objs sc - unat (total_objs pg)\<rparr>);
       h' \<leftarrow> unmark_composite_page s (pages_per_slab sc) (heap_pages k2);
       fs \<leftarrow> page_free s (size2order (pages_per_slab sc)) ((frames k2)\<lparr>pages := h'\<rparr>);
       Some (k2\<lparr>frames := fs\<rparr>)
     } else Some k
   }"

text \<open>Taking the first object off the free list of a slab and counting it.\<close>

definition take_object :: "page_ptr \<Rightarrow> kheap \<Rightarrow> (nat \<times> kheap) option" where
  "take_object s k = do {
     pg \<leftarrow> get_page k s;
     let ret = freelist pg;
     kassert (ret \<noteq> 0);
     c \<leftarrow> this_cache pg;
     k1 \<leftarrow> put_page k s (pg\<lparr>freelist := words k ret, used_objs := used_objs pg + 1\<rparr>);
     sc \<leftarrow> get_cache k1 c;
     k2 \<leftarrow> put_cache k1 c (sc\<lparr>c_total_objs_allocated := c_total_objs_allocated sc + 1\<rparr>);
     Some (ret, k2)
   }"

definition alloc_partial :: "nat \<Rightarrow> page_ptr \<Rightarrow> kheap \<Rightarrow> (nat \<times> kheap) option" where
  "alloc_partial c part k = do {
     (ret, k1) \<leftarrow> take_object part k;
     pg \<leftarrow> get_page k1 part;
     if used_objs pg = total_objs pg then do {
       kassert (freelist pg = 0);
       sc \<leftarrow> get_cache k1 c;
       (h1, p) \<leftarrow> slab_list_unlink (heap_pages k1) part (partial_slabs sc);
       (h2, e) \<leftarrow> slab_list_link h1 part (empty_slabs sc);
       k2 \<leftarrow> put_cache (set_pages h2 k1) c
               (sc\<lparr>partial_slabs := p, partial_slab_count := partial_slab_count sc - 1,
                   empty_slabs := e, empty_slab_count := empty_slab_count sc + 1\<rparr>);
       Some (ret, k2)
     } else Some (ret, k1)
   }"

definition alloc_full :: "nat \<Rightarrow> page_ptr \<Rightarrow> kheap \<Rightarrow> (nat \<times> kheap) option" where
  "alloc_full c full k = do {
     sc \<leftarrow> get_cache k c;
     (h1, f) \<leftarrow> slab_list_unlink (heap_pages k) full (full_slabs sc);
     (h2, p) \<leftarrow> slab_list_link h1 full (partial_slabs sc);
     k1 \<leftarrow> put_cache (set_pages h2 k) c
             (sc\<lparr>full_slabs := f, full_slab_count := full_slab_count sc - 1,
                 partial_slabs := p, partial_slab_count := partial_slab_count sc + 1\<rparr>);
     take_object full k1
   }"

definition cache_alloc :: "nat \<Rightarrow> kheap \<Rightarrow> (nat \<times> kheap) option" where
  "cache_alloc c k = do {
     sc \<leftarrow> get_cache k c;
     if partial_slabs sc \<noteq> Null then alloc_partial c (partial_slabs sc) k
     else if full_slabs sc \<noteq> Null then alloc_full c (full_slabs sc) k
     else do {
       k1 \<leftarrow> new_slab c (pages_per_slab sc) k;
       sc1 \<leftarrow> get_cache k1 c;
       alloc_full c (full_slabs sc1) k1
     }
   }"

definition find_corresponding_slab :: "nat \<Rightarrow> kheap \<Rightarrow> page_ptr option" where
  "find_corresponding_slab addr k = do {
     let this = phys2page (addr - hhdm k);
     pg \<leftarrow> get_page k this;
     if pflags pg AND STRUCT_PAGE_FLAG_SLAB_COMPOSITE_HEAD \<noteq> 0 then Some this
     else if pflags pg AND STRUCT_PAGE_FLAG_COMPOSITE_TAIL \<noteq> 0 then Some (link0 pg)
     else None
   }"

section \<open>The exported interface\<close>

text \<open>A block of pages taken from the frame allocator keeps its order in the union word.\<close>

definition kmalloc :: "nat \<Rightarrow> kheap \<Rightarrow> (nat \<times> kheap) option" where
  "kmalloc sz k =
     (if KMALLOC_MAX_CACHE_SIZE < sz then do {
        (ret, fs) \<leftarrow> page_alloc (psize2order sz) (frames k);
        let k1 = k\<lparr>frames := fs\<rparr>;
        pg \<leftarrow> get_page k1 ret;
        k2 \<leftarrow> put_page k1 ret (pg\<lparr>pflags := pflags pg OR STRUCT_PAGE_FLAG_KMALLOC_BUDDY,
                                  link0 := Raw (of_nat (psize2order sz))\<rparr>);
        a \<leftarrow> page2phys (heap_pages k2) ret;
        Some (hhdm k + a, k2)
      }
      else if sz = 0 then Some (0, k)
      else do {
        kassert (slab_initialized k);
        i \<leftarrow> size2block sz;
        kassert (i < KMALLOC_ALLOC_SIZES);
        cache_alloc i k
      })"

definition put_object :: "nat \<Rightarrow> page_ptr \<Rightarrow> kheap \<Rightarrow> kheap option" where
  "put_object addr s k = do {
     pg \<leftarrow> get_page k s;
     put_page (k\<lparr>words := (words k)(addr := freelist pg)\<rparr>) s (pg\<lparr>freelist := addr\<rparr>)
   }"

definition move_slab_back :: "nat \<Rightarrow> page_ptr \<Rightarrow> kheap \<Rightarrow> kheap option" where
  "move_slab_back c s k = do {
     pg \<leftarrow> get_page k s;
     sc \<leftarrow> get_cache k c;
     if used_objs pg = total_objs pg then do {
       (h1, e) \<leftarrow> slab_list_unlink (heap_pages k) s (empty_slabs sc);
       (h2, p) \<leftarrow> slab_list_link h1 s (partial_slabs sc);
       put_cache (set_pages h2 k) c
         (sc\<lparr>empty_slabs := e, empty_slab_count := empty_slab_count sc - 1,
             partial_slabs := p, partial_slab_count := partial_slab_count sc + 1\<rparr>)
     } else if used_objs pg = 1 then do {
       (h1, p) \<leftarrow> slab_list_unlink (heap_pages k) s (partial_slabs sc);
       (h2, f) \<leftarrow> slab_list_link h1 s (full_slabs sc);
       k1 \<leftarrow> put_cache (set_pages h2 k) c
         (sc\<lparr>partial_slabs := p, partial_slab_count := partial_slab_count sc - 1,
             full_slabs := f, full_slab_count := full_slab_count sc + 1\<rparr>);
       attempt_free_full c k1
     } else Some k
   }"

definition kfree :: "nat \<Rightarrow> kheap \<Rightarrow> kheap option" where
  "kfree addr k =
     (if addr = 0 then Some k
      else do {
        let p = phys2page (addr - hhdm k);
        pg \<leftarrow> get_page k p;
        if pflags pg AND STRUCT_PAGE_FLAG_KMALLOC_BUDDY \<noteq> 0 then do {
          ord \<leftarrow> (case link0 pg of Raw w \<Rightarrow> Some (unat w) | _ \<Rightarrow> None);
          k1 \<leftarrow> put_page k p (pg\<lparr>pflags := pflags pg AND NOT STRUCT_PAGE_FLAG_KMALLOC_BUDDY, link0 := Raw 0\<rparr>);
          fs \<leftarrow> page_free p ord (frames k1);
          Some (k1\<lparr>frames := fs\<rparr>)
        } else do {
          s \<leftarrow> find_corresponding_slab addr k;
          k1 \<leftarrow> put_object addr s k;
          spg \<leftarrow> get_page k1 s;
          c \<leftarrow> this_cache spg;
          k2 \<leftarrow> move_slab_back c s k1;
          spg2 \<leftarrow> get_page k2 s;
          k3 \<leftarrow> put_page k2 s (spg2\<lparr>used_objs := used_objs spg2 - 1\<rparr>);
          sc \<leftarrow> get_cache k3 c;
          put_cache k3 c (sc\<lparr>c_total_objs_allocated := c_total_objs_allocated sc - 1\<rparr>)
        }
      })"

text \<open>The number of bytes \<open>krealloc\<close> copies from the old object.\<close>

definition krealloc_copy_size :: "nat \<Rightarrow> nat \<Rightarrow> kheap \<Rightarrow> nat option" where
  "krealloc_copy_size addr sz k = do {
     pg \<leftarrow> get_page k (phys2page (addr - hhdm k));
     if pflags pg AND STRUCT_PAGE_FLAG_KMALLOC_BUDDY \<noteq> 0
     then (case link0 pg of Raw w \<Rightarrow> Some (min (unat w) sz) | _ \<Rightarrow> None)
     else do {
       s \<leftarrow> find_corresponding_slab addr k;
       spg \<leftarrow> get_page k s;
       c \<leftarrow> this_cache spg;
       sc \<leftarrow> get_cache k c;
       Some (min (obj_size sc) sz)
     }
   }"

text \<open>\<open>krealloc\<close>: the new address, the number of bytes copied, and the state.\<close>

definition krealloc :: "nat \<Rightarrow> nat \<Rightarrow> kheap \<Rightarrow> (nat \<times> nat \<times> kheap) option" where
  "krealloc addr sz k = do {
     (new, k1) \<leftarrow> kmalloc sz k;
     if addr = 0 then Some (new, 0, k1)
     else do {
       n \<leftarrow> krealloc_copy_size addr sz k1;
       k2 \<leftarrow> kfree addr k1;
       Some (new, n, k2)
     }
   }"

end
