(* ===== verification/Slab_Sizes.thy ===== *)
theory Slab_Sizes
  imports Slab
begin

text \<open>
  The size computations of the heap: the size classes of \<open>kmalloc\<close> and the orders of its large
  blocks. All of them are loops that halve a number; they are read through one fact on the
  position of the highest bit.
\<close>

section \<open>Halving loops\<close>

lemma size2block_loop_log:
  assumes "0 < q"
  obtains r where "size2block_loop q order = order + r" "2 ^ r \<le> q" "q < 2 ^ Suc r"
proof -
  have "\<exists>r. size2block_loop q order = order + r \<and> 2 ^ r \<le> q \<and> q < 2 ^ Suc r"
    using assms
  proof (induction q order rule: size2block_loop.induct)
    case (1 q order)
    show ?case
    proof (cases "q div 2 \<noteq> 0")
      case True
      then obtain r where "size2block_loop (q div 2) (Suc order) = Suc order + r" "2 ^ r \<le> q div 2" "q div 2 < 2 ^ Suc r"
        using 1(1) by auto
      moreover from this have "2 ^ Suc r \<le> q" "q < 2 ^ Suc (Suc r)" by simp_all
      ultimately show ?thesis using True by (intro exI [of _ "Suc r"]) (subst size2block_loop.simps, simp)
    next
      case False
      then have "q = 1" using 1(2) by auto
      then show ?thesis by (intro exI [of _ 0]) (simp add: size2block_loop.simps)
    qed
  qed
  then show thesis using that by blast
qed

lemma size2order_loop_eq: "size2order_loop sz order = size2block_loop sz order"
proof (induction sz order rule: size2order_loop.induct)
  case (1 sz order)
  then show ?case by (subst size2order_loop.simps, subst size2block_loop.simps) auto
qed

lemma size2order_pow2 [simp]: "size2order (2 ^ k) = k"
proof -
  obtain r where r: "size2block_loop (2 ^ k) 0 = 0 + r" "2 ^ r \<le> (2::nat) ^ k" "(2::nat) ^ k < 2 ^ Suc r"
    by (rule size2block_loop_log [of "2 ^ k" 0]) simp
  have "r \<le> k" using r(2) by (simp add: power_le_imp_le_exp)
  moreover have "k < Suc r" using r(3) by (rule power_less_imp_less_exp [rotated]) simp
  ultimately show ?thesis using r(1) by (simp add: size2order_def size2order_loop_eq)
qed

lemma psize2order_loop_ok:
  "psize2order_loop sz order \<ge> order \<and> sz div 2 ^ (psize2order_loop sz order - order) \<le> PAGE_SIZE \<and>
   (\<forall>j<psize2order_loop sz order - order. PAGE_SIZE < sz div 2 ^ j)"
proof (induction sz order rule: psize2order_loop.induct)
  case (1 sz order)
  show ?case
  proof (cases "PAGE_SIZE < sz")
    case True
    let ?r = "psize2order_loop (sz div 2) (Suc order)"
    note ih = 1(1) [OF True]
    have eq: "psize2order_loop sz order = ?r" using True by (subst psize2order_loop.simps) simp
    have d: "?r - order = Suc (?r - Suc order)" using ih by linarith
    have "PAGE_SIZE < sz div 2 ^ j" if "j < ?r - order" for j
      using that ih d True by (cases j) (auto simp: div_mult2_eq)
    then show ?thesis using ih unfolding eq d by (auto simp: div_mult2_eq)
  next
    case False
    then have "psize2order_loop sz order = order" by (subst psize2order_loop.simps) simp
    then show ?thesis using False by simp
  qed
qed

lemma psize2order_least:
  "sz div 2 ^ psize2order sz \<le> PAGE_SIZE" "j < psize2order sz \<Longrightarrow> PAGE_SIZE < sz div 2 ^ j"
  using psize2order_loop_ok [of 0 sz] by (simp_all add: psize2order_def)

lemma psize2order_unaligned:
  assumes "r < 2 ^ k"
  shows "psize2order (PAGE_SIZE * 2 ^ k + r) = k"
proof -
  let ?sz = "PAGE_SIZE * 2 ^ k + r"
  have dk: "?sz div 2 ^ k = PAGE_SIZE" using assms by simp
  have "\<not> k < psize2order ?sz" using psize2order_least(2) [of k ?sz] dk by auto
  moreover have "\<not> psize2order ?sz < k"
  proof
    assume lt: "psize2order ?sz < k"
    let ?j = "psize2order ?sz"
    have "PAGE_SIZE * 2 ^ k div 2 ^ ?j \<le> ?sz div 2 ^ ?j" by (intro div_le_mono) simp
    moreover have "PAGE_SIZE * 2 ^ k div 2 ^ ?j = PAGE_SIZE * 2 ^ (k - ?j)"
    proof -
      have "(2::nat) ^ k = 2 ^ (k - ?j) * 2 ^ ?j" using lt by (simp flip: power_add)
      then have "PAGE_SIZE * 2 ^ k = PAGE_SIZE * 2 ^ (k - ?j) * 2 ^ ?j" by simp
      then show ?thesis by (metis nonzero_mult_div_cancel_right power_not_zero zero_neq_numeral)
    qed
    moreover have "PAGE_SIZE * 2 \<le> PAGE_SIZE * 2 ^ (k - ?j)"
      using lt by (intro mult_le_mono2) (metis one_le_numeral power_increasing power_one_right zero_less_diff Suc_leI One_nat_def)
    moreover have "0 < PAGE_SIZE" by (simp add: PAGE_SIZE_def)
    ultimately show False using psize2order_least(1) [of ?sz] by linarith
  qed
  ultimately show ?thesis by simp
qed

lemma size2block_class:
  assumes "0 < sz" "sz \<le> KMALLOC_MAX_CACHE_SIZE"
  obtains i where "size2block sz = Some i" "i < KMALLOC_ALLOC_SIZES" "sz \<le> 2 ^ (i + 4)"
    "i = 0 \<or> 2 ^ (i + 3) < sz"
proof (cases "(sz - 1) div 8 = 0")
  case True
  then have "sz \<le> 8" using assms(1) by simp
  moreover have "size2block sz = Some 0" using True assms(1) by (simp add: size2block_def size2block_loop.simps)
  ultimately show thesis by (intro that [of 0]) (simp_all add: KMALLOC_ALLOC_SIZES_def)
next
  case False
  then obtain r where r: "size2block_loop ((sz - 1) div 8) 0 = 0 + r" "2 ^ r \<le> (sz - 1) div 8" "(sz - 1) div 8 < 2 ^ Suc r"
    using size2block_loop_log [of "(sz - 1) div 8" 0] by auto
  have run: "size2block sz = Some r" using r(1) assms(1) by (simp add: size2block_def)
  have lo: "8 * 2 ^ r \<le> sz - 1" using r(2) by linarith
  have hi: "sz - 1 < 16 * 2 ^ r" using r(3) by simp
  have "(2::nat) ^ r < 2 ^ 10" using lo assms by (simp add: KMALLOC_MAX_CACHE_SIZE_def PAGE_SIZE_def)
  then have "r < 10" by (rule power_less_imp_less_exp [rotated]) simp
  moreover have "8 * 2 ^ r < sz" "sz \<le> 16 * 2 ^ r" using lo hi assms(1) by linarith+
  ultimately show thesis
    using run by (intro that [of r]) (simp_all add: KMALLOC_ALLOC_SIZES_def power_add)
qed

end
