(* ===== verification/Slab_Props.thy ===== *)
theory Slab_Props
  imports Slab_Sizes Frame_Props "HOL-Library.Code_Target_Nat"
begin

text \<open>
  What the kernel heap promises about sizes, and how the page flags lead from an object back to
  its slab.
\<close>

lemma flag_set [simp]: "(f OR b) AND b = (b :: u32)"
  by (auto intro!: bit_eqI simp: bit_simps)

section \<open>Size classes\<close>

lemma init_slab_cache_ok:
  assumes "i < KMALLOC_ALLOC_SIZES" "\<not> named c"
  shows "\<exists>c'. init_slab_cache c (2 ^ (i + 4)) = Some c' \<and> obj_size c' = 2 ^ (i + 4)"
proof -
  have "i \<in> set [0..<10]" using assms(1) by (simp add: KMALLOC_ALLOC_SIZES_def)
  moreover have "list_all (\<lambda>i. (2::nat) ^ (i + 4) AND (2 ^ (i + 4) - 1) = 0 \<and> 16 \<le> (2::nat) ^ (i + 4) \<and>
      (2::nat) ^ (i + 4) \<le> 8192 \<and> size2order (2 ^ (i + 4) div 2 ^ 5) < length kmalloc_pps_mappings) [0..<10]"
    by code_simp
  ultimately show ?thesis using assms(2)
    by (auto simp: init_slab_cache_def list_all_iff KMALLOC_ALLOC_MIN_def KMALLOC_ALLOC_MAX_def Let_def)
qed

lemma init_caches_ok:
  assumes "distinct is" "\<forall>i \<in> set is. i < KMALLOC_ALLOC_SIZES \<and> \<not> named (kmalloc_generic_caches k ! i)"
    "length (kmalloc_generic_caches k) = KMALLOC_ALLOC_SIZES"
  shows "\<exists>k'. init_caches is k = Some k' \<and> length (kmalloc_generic_caches k') = KMALLOC_ALLOC_SIZES \<and>
    (\<forall>i < KMALLOC_ALLOC_SIZES. if i \<in> set is then obj_size (kmalloc_generic_caches k' ! i) = 2 ^ (i + 4)
       else kmalloc_generic_caches k' ! i = kmalloc_generic_caches k ! i)"
  using assms
proof (induction "is" arbitrary: k)
  case (Cons i "is")
  let ?cs = "kmalloc_generic_caches k"
  obtain c' where c': "init_slab_cache (?cs ! i) (2 ^ (i + 4)) = Some c'" "obj_size c' = 2 ^ (i + 4)"
    using init_slab_cache_ok [of i "?cs ! i"] Cons.prems(2) by auto
  define k1 where "k1 = k\<lparr>kmalloc_generic_caches := ?cs[i := c']\<rparr>"
  have "\<exists>k'. init_caches is k1 = Some k' \<and> length (kmalloc_generic_caches k') = KMALLOC_ALLOC_SIZES \<and>
    (\<forall>j < KMALLOC_ALLOC_SIZES. if j \<in> set is then obj_size (kmalloc_generic_caches k' ! j) = 2 ^ (j + 4)
       else kmalloc_generic_caches k' ! j = kmalloc_generic_caches k1 ! j)"
    using Cons.prems by (intro Cons.IH) (auto simp: k1_def nth_list_update)
  moreover have "init_caches (i # is) k = init_caches is k1"
    using Cons.prems c' by (simp add: get_cache_def put_cache_def k1_def)
  ultimately show ?case using Cons.prems c' by (auto simp: k1_def nth_list_update)
qed simp

text \<open>C27. Once \<open>slab_init\<close> has set up the caches, \<open>kmalloc\<close> of a size up to \<open>KMALLOC_MAX_CACHE_SIZE\<close>
  allocates from the smallest cache whose objects hold that size.\<close>

theorem kmalloc_smallest_class:
  assumes caches: "kmalloc_generic_caches k = replicate KMALLOC_ALLOC_SIZES zero_cache"
    and sz: "0 < sz" "sz \<le> KMALLOC_MAX_CACHE_SIZE"
  shows "\<exists>k1 i sc. slab_init k = Some k1 \<and> get_cache k1 i = Some sc \<and> kmalloc sz k1 = cache_alloc i k1 \<and>
           sz \<le> obj_size sc \<and> (\<forall>j sc'. get_cache k1 j = Some sc' \<longrightarrow> sz \<le> obj_size sc' \<longrightarrow> i \<le> j)"
proof -
  obtain k1 where k1: "slab_init k = Some k1" "slab_initialized k1"
    "length (kmalloc_generic_caches k1) = KMALLOC_ALLOC_SIZES"
    "\<forall>i < KMALLOC_ALLOC_SIZES. obj_size (kmalloc_generic_caches k1 ! i) = 2 ^ (i + 4)"
    using init_caches_ok [of "[0..<KMALLOC_ALLOC_SIZES]" k] caches
    by (auto simp: slab_init_def zero_cache_def)
  obtain i where i: "size2block sz = Some i" "i < KMALLOC_ALLOC_SIZES" "sz \<le> 2 ^ (i + 4)"
    "i = 0 \<or> 2 ^ (i + 3) < sz" using size2block_class [OF sz] by blast
  have least: "i \<le> j" if "sz \<le> 2 ^ (j + 4)" for j
  proof (rule ccontr)
    assume "\<not> i \<le> j"
    then have "(2::nat) ^ (j + 4) \<le> 2 ^ (i + 3)" "i \<noteq> 0" by (auto intro!: power_increasing)
    then show False using i(4) that by linarith
  qed
  have "kmalloc sz k1 = cache_alloc i k1" using sz k1(2) i(1,2) by (simp add: kmalloc_def)
  then show ?thesis using k1 i(2,3) least
    by (intro exI [of _ k1] exI [of _ i] exI [of _ "kmalloc_generic_caches k1 ! i"])
      (auto simp: get_cache_def split: if_splits)
qed

definition tiny_heap :: kheap where
  "tiny_heap = \<lparr>frames = tiny_frames, kmalloc_generic_caches = replicate KMALLOC_ALLOC_SIZES zero_cache,
     slab_initialized = False, words = (\<lambda>_. 0), hhdm = 65536\<rparr>"

theorem kmalloc_smallest_class_witness:
  "\<exists>k1 i sc. slab_init tiny_heap = Some k1 \<and> get_cache k1 i = Some sc \<and> kmalloc 100 k1 = cache_alloc i k1 \<and> 100 \<le> obj_size sc"
  using kmalloc_smallest_class [of tiny_heap 100]
  by (auto simp: tiny_heap_def KMALLOC_MAX_CACHE_SIZE_def PAGE_SIZE_def)

section \<open>Large blocks\<close>

lemma kmalloc_large:
  assumes "KMALLOC_MAX_CACHE_SIZE < sz" "page_alloc (psize2order sz) (frames k) = Some (Ref p, fs)" "p < length (pages fs)"
  shows "\<exists>k'. kmalloc sz k = Some (hhdm k + p * PAGE_SIZE, k') \<and> hhdm k' = hhdm k \<and>
    heap_pages k' = (pages fs)[p := (pages fs ! p)\<lparr>pflags := pflags (pages fs ! p) OR STRUCT_PAGE_FLAG_KMALLOC_BUDDY,
                                                   link0 := Raw (of_nat (psize2order sz))\<rparr>]"
proof -
  have "push_bit PAGE_SHIFT p = p * PAGE_SIZE" by (simp add: PAGE_SHIFT_def PAGE_SIZE_def push_bit_eq_mult)
  then show ?thesis using assms
    by (simp add: kmalloc_def Let_def get_page_def put_page_def heap_pages_def set_pages_def page2phys_def page2idx_def)
qed

text \<open>C29. \<open>kmalloc\<close> of a size that exceeds a block of \<open>2 ^ n\<close> pages by less than \<open>2 ^ n\<close> bytes returns a
  block of exactly \<open>2 ^ n\<close> pages, which is smaller than the size requested: the order computation
  rounds each halving down.\<close>

theorem kmalloc_undersized_block:
  assumes "1 \<le> n" "0 < r" "r < 2 ^ n"
    and "page_alloc n (frames k) = Some (Ref p, fs)" "p < length (pages fs)"
  shows "\<exists>k'. kmalloc (PAGE_SIZE * 2 ^ n + r) k = Some (hhdm k + p * PAGE_SIZE, k') \<and>
           link0 (heap_pages k' ! p) = Raw (of_nat n) \<and> order2size n * PAGE_SIZE < PAGE_SIZE * 2 ^ n + r"
proof -
  have "(2::nat) ^ 1 \<le> 2 ^ n" using assms(1) by (intro power_increasing) auto
  then have "KMALLOC_MAX_CACHE_SIZE < PAGE_SIZE * 2 ^ n + r"
    using assms(2) by (simp add: KMALLOC_MAX_CACHE_SIZE_def PAGE_SIZE_def)
  then have "\<exists>k'. kmalloc (PAGE_SIZE * 2 ^ n + r) k = Some (hhdm k + p * PAGE_SIZE, k') \<and> hhdm k' = hhdm k \<and>
      heap_pages k' = (pages fs)[p := (pages fs ! p)\<lparr>pflags := pflags (pages fs ! p) OR STRUCT_PAGE_FLAG_KMALLOC_BUDDY,
                                                   link0 := Raw (of_nat n)\<rparr>]"
    using kmalloc_large [of "PAGE_SIZE * 2 ^ n + r" k p fs] assms(4,5) psize2order_unaligned [OF assms(3)] by simp
  then show ?thesis using assms(2,5) by (auto simp: order2size_def)
qed

lemma tiny_alloc:
  "\<exists>fs. page_alloc 1 (frames tiny_heap) = Some (Ref 0, fs) \<and> 0 < length (pages fs)"
proof -
  have "map_option (\<lambda>(p, fs). (p, length (pages fs))) (page_alloc 1 tiny_frames) = Some (Ref 0, 4)" by code_simp
  then show ?thesis by (auto simp: tiny_heap_def)
qed

theorem kmalloc_undersized_block_witness:
  "\<exists>k'. kmalloc 8193 tiny_heap = Some (65536, k') \<and> order2size 1 * PAGE_SIZE < 8193"
proof -
  obtain fs where "page_alloc 1 (frames tiny_heap) = Some (Ref 0, fs)" "0 < length (pages fs)" using tiny_alloc by blast
  from kmalloc_undersized_block [OF _ _ _ this, of 1] show ?thesis
    by (auto simp: PAGE_SIZE_def tiny_heap_def)
qed



section \<open>From an object to its slab\<close>

lemma mark_tail_spec:
  assumes "i + n < length h" "\<And>j. i < j \<Longrightarrow> j \<le> i + n \<Longrightarrow> pflags (h ! j) AND STRUCT_PAGE_FLAG_COMPOSITE_TAIL = 0"
  shows "\<exists>h'. mark_tail i n head h = Some h' \<and> length h' = length h \<and>
    (\<forall>j. h' ! j = (if i < j \<and> j \<le> i + n
        then (h ! j)\<lparr>pflags := pflags (h ! j) OR STRUCT_PAGE_FLAG_COMPOSITE_TAIL, link0 := head\<rparr> else h ! j))"
  using assms
proof (induction i n head h rule: mark_tail.induct)
  case (2 i n head h)
  let ?j = "i + Suc n"
  let ?h = "h[?j := (h ! ?j)\<lparr>pflags := pflags (h ! ?j) OR STRUCT_PAGE_FLAG_COMPOSITE_TAIL, link0 := head\<rparr>]"
  have j: "?j < length h" "pflags (h ! ?j) AND STRUCT_PAGE_FLAG_COMPOSITE_TAIL = 0" using 2(2,3) by auto
  have "\<exists>h'. mark_tail i n head ?h = Some h' \<and> length h' = length ?h \<and>
    (\<forall>j. h' ! j = (if i < j \<and> j \<le> i + n
        then (?h ! j)\<lparr>pflags := pflags (?h ! j) OR STRUCT_PAGE_FLAG_COMPOSITE_TAIL, link0 := head\<rparr> else ?h ! j))"
    using 2(2,3) j by (intro 2(1)) auto
  then show ?case using j 2(2) by (auto simp: Let_def nth_list_update)
qed auto

lemma unmark_tail_spec:
  assumes "i + n < length h" "\<And>j. i < j \<Longrightarrow> j \<le> i + n \<Longrightarrow> pflags (h ! j) AND STRUCT_PAGE_FLAG_COMPOSITE_TAIL \<noteq> 0"
  shows "\<exists>h'. unmark_tail i n h = Some h' \<and> length h' = length h \<and>
    (\<forall>j. h' ! j = (if i < j \<and> j \<le> i + n
        then (h ! j)\<lparr>pflags := pflags (h ! j) AND NOT STRUCT_PAGE_FLAG_COMPOSITE_TAIL\<rparr> else h ! j))"
  using assms
proof (induction i n h rule: unmark_tail.induct)
  case (2 i n h)
  let ?j = "i + Suc n"
  let ?h = "h[?j := (h ! ?j)\<lparr>pflags := pflags (h ! ?j) AND NOT STRUCT_PAGE_FLAG_COMPOSITE_TAIL\<rparr>]"
  have j: "?j < length h" "pflags (h ! ?j) AND STRUCT_PAGE_FLAG_COMPOSITE_TAIL \<noteq> 0" using 2(2,3) by auto
  have "\<exists>h'. unmark_tail i n ?h = Some h' \<and> length h' = length ?h \<and>
    (\<forall>j. h' ! j = (if i < j \<and> j \<le> i + n
        then (?h ! j)\<lparr>pflags := pflags (?h ! j) AND NOT STRUCT_PAGE_FLAG_COMPOSITE_TAIL\<rparr> else ?h ! j))"
    using 2(2,3) j by (intro 2(1)) auto
  then show ?case using j 2(2) by (auto simp: Let_def nth_list_update)
qed auto

lemma flag_clear_set: "f AND b = 0 \<Longrightarrow> (f OR b) AND NOT b = (f :: u32)"
proof -
  assume *: "f AND b = 0"
  have "\<not> bit b i" if "bit f i" for i using arg_cong [OF *, of "\<lambda>w. bit w i"] that by (simp add: bit_and_iff)
  then show ?thesis by (auto intro!: bit_eqI simp: bit_simps dest: bit_imp_le_length)
qed

lemma flags_apart: "(f OR STRUCT_PAGE_FLAG_COMPOSITE_TAIL) AND STRUCT_PAGE_FLAG_SLAB_COMPOSITE_HEAD =
    f AND STRUCT_PAGE_FLAG_SLAB_COMPOSITE_HEAD"
  by (auto intro!: bit_eqI simp: bit_simps STRUCT_PAGE_FLAG_COMPOSITE_TAIL_def STRUCT_PAGE_FLAG_SLAB_COMPOSITE_HEAD_def
      bit_numeral_rec split: nat.splits)

lemma mark_composite_spec:
  assumes "0 < n" "i + n \<le> length h" "pflags (h ! i) AND STRUCT_PAGE_FLAG_SLAB_COMPOSITE_HEAD = 0"
    and "\<And>j. i < j \<Longrightarrow> j < i + n \<Longrightarrow> pflags (h ! j) AND STRUCT_PAGE_FLAG_COMPOSITE_TAIL = 0"
  shows "\<exists>h'. mark_composite_page (Ref i) n h = Some h' \<and> length h' = length h \<and>
    h' ! i = (h ! i)\<lparr>pflags := pflags (h ! i) OR STRUCT_PAGE_FLAG_SLAB_COMPOSITE_HEAD\<rparr> \<and>
    (\<forall>j. j \<noteq> i \<longrightarrow> h' ! j = (if i < j \<and> j < i + n
        then (h ! j)\<lparr>pflags := pflags (h ! j) OR STRUCT_PAGE_FLAG_COMPOSITE_TAIL, link0 := Ref i\<rparr> else h ! j))"
proof -
  let ?h = "h[i := (h ! i)\<lparr>pflags := pflags (h ! i) OR STRUCT_PAGE_FLAG_SLAB_COMPOSITE_HEAD\<rparr>]"
  have i: "i < length h" using assms(1,2) by linarith
  have "\<exists>h'. mark_tail i (n - 1) (Ref i) ?h = Some h' \<and> length h' = length ?h \<and>
    (\<forall>j. h' ! j = (if i < j \<and> j \<le> i + (n - 1)
        then (?h ! j)\<lparr>pflags := pflags (?h ! j) OR STRUCT_PAGE_FLAG_COMPOSITE_TAIL, link0 := Ref i\<rparr> else ?h ! j))"
    using assms by (intro mark_tail_spec) auto
  moreover have "mark_composite_page (Ref i) n h = mark_tail i (n - 1) (Ref i) ?h"
    using assms i by (simp add: mark_composite_page_def page2idx_def)
  moreover have "j \<le> i + (n - 1) \<longleftrightarrow> j < i + n" for j using assms(1) by linarith
  ultimately show ?thesis using i by (auto simp: nth_list_update)
qed

text \<open>C28. \<open>mark_composite_page\<close> makes the pages of a slab lead back to it: the address of every byte of
  the block is resolved to the head page by \<open>find_corresponding_slab\<close>, and \<open>unmark_composite_page\<close>
  then restores the flags of all pages.\<close>

theorem composite_pages_lead_to_slab:
  assumes n: "0 < n" and len: "i + n \<le> length (heap_pages k)"
    and head: "pflags (heap_pages k ! i) AND STRUCT_PAGE_FLAG_SLAB_COMPOSITE_HEAD = 0"
    and tails: "\<And>j. i < j \<Longrightarrow> j < i + n \<Longrightarrow> pflags (heap_pages k ! j) AND STRUCT_PAGE_FLAG_COMPOSITE_TAIL = 0 \<and>
           pflags (heap_pages k ! j) AND STRUCT_PAGE_FLAG_SLAB_COMPOSITE_HEAD = 0"
  shows "\<exists>h' h''. mark_composite_page (Ref i) n (heap_pages k) = Some h' \<and>
           (\<forall>off. off < n * PAGE_SIZE \<longrightarrow> find_corresponding_slab (hhdm k + i * PAGE_SIZE + off) (set_pages h' k) = Some (Ref i)) \<and>
           unmark_composite_page (Ref i) n h' = Some h'' \<and> map pflags h'' = map pflags (heap_pages k)"
proof -
  let ?h = "heap_pages k"
  obtain h' where h': "mark_composite_page (Ref i) n ?h = Some h'" "length h' = length ?h"
    "h' ! i = (?h ! i)\<lparr>pflags := pflags (?h ! i) OR STRUCT_PAGE_FLAG_SLAB_COMPOSITE_HEAD\<rparr>"
    "\<And>j. j \<noteq> i \<Longrightarrow> h' ! j = (if i < j \<and> j < i + n
        then (?h ! j)\<lparr>pflags := pflags (?h ! j) OR STRUCT_PAGE_FLAG_COMPOSITE_TAIL, link0 := Ref i\<rparr> else ?h ! j)"
    using mark_composite_spec [OF n len head] tails by auto
  have i: "i < length ?h" using n len by linarith
  have nz: "STRUCT_PAGE_FLAG_SLAB_COMPOSITE_HEAD \<noteq> 0" "STRUCT_PAGE_FLAG_COMPOSITE_TAIL \<noteq> 0"
    by (simp_all add: STRUCT_PAGE_FLAG_SLAB_COMPOSITE_HEAD_def STRUCT_PAGE_FLAG_COMPOSITE_TAIL_def)
  have find: "find_corresponding_slab (hhdm k + i * PAGE_SIZE + off) (set_pages h' k) = Some (Ref i)"
    if off: "off < n * PAGE_SIZE" for off
  proof -
    define j where "j = i + off div PAGE_SIZE"
    have j: "i \<le> j" "j < i + n" using off by (auto simp: j_def less_mult_imp_div_less)
    have "(i * PAGE_SIZE + off) div PAGE_SIZE = j" by (simp add: j_def PAGE_SIZE_def)
    then show ?thesis using h' j i len tails [of j] nz
      by (cases "j = i") (auto simp: find_corresponding_slab_def phys2page_def get_page_def heap_pages_def set_pages_def Let_def flags_apart)
  qed
  let ?g = "h'[i := (h' ! i)\<lparr>pflags := pflags (h' ! i) AND NOT STRUCT_PAGE_FLAG_SLAB_COMPOSITE_HEAD\<rparr>]"
  have "\<exists>h''. unmark_tail i (n - 1) ?g = Some h'' \<and> length h'' = length ?g \<and>
    (\<forall>j. h'' ! j = (if i < j \<and> j \<le> i + (n - 1)
        then (?g ! j)\<lparr>pflags := pflags (?g ! j) AND NOT STRUCT_PAGE_FLAG_COMPOSITE_TAIL\<rparr> else ?g ! j))"
    using n len h' nz by (intro unmark_tail_spec) auto
  then obtain h'' where h'': "unmark_tail i (n - 1) ?g = Some h''" "length h'' = length h'"
    "\<And>j. h'' ! j = (if i < j \<and> j \<le> i + (n - 1)
        then (?g ! j)\<lparr>pflags := pflags (?g ! j) AND NOT STRUCT_PAGE_FLAG_COMPOSITE_TAIL\<rparr> else ?g ! j)" by auto
  have "unmark_composite_page (Ref i) n h' = Some h''" using h''(1) h'(2) i by (simp add: unmark_composite_page_def page2idx_def)
  moreover have "pflags (h'' ! j) = pflags (?h ! j)" if "j < length ?h" for j
    using that h''(3) [of j] h'(2,3) h'(4) [of j] head tails [of j] n i by (cases "j = i") (auto simp: flag_clear_set nth_list_update)
  then have "map pflags h'' = map pflags ?h" using h''(2) h'(2) by (intro nth_equalityI) auto
  ultimately show ?thesis using h'(1) find by blast
qed

theorem composite_pages_lead_to_slab_witness:
  "\<exists>h'. mark_composite_page (Ref 1) 3 (heap_pages tiny_heap) = Some h' \<and>
     find_corresponding_slab 80000 (set_pages h' tiny_heap) = Some (Ref 1)"
proof -
  have pgs: "heap_pages tiny_heap = replicate 4 zero_page" "pflags zero_page = 0"
    by (simp_all only: tiny_heap_def heap_pages_def tiny_frames_def zero_page_def page.simps kheap.simps frame_state.simps)
  have "\<exists>h' h''. mark_composite_page (Ref 1) 3 (heap_pages tiny_heap) = Some h' \<and>
      (\<forall>off. off < 3 * PAGE_SIZE \<longrightarrow>
         find_corresponding_slab (hhdm tiny_heap + 1 * PAGE_SIZE + off) (set_pages h' tiny_heap) = Some (Ref 1)) \<and>
      unmark_composite_page (Ref 1) 3 h' = Some h'' \<and> map pflags h'' = map pflags (heap_pages tiny_heap)"
    by (rule composite_pages_lead_to_slab) (simp_all add: pgs)
  then obtain h' where h': "mark_composite_page (Ref 1) 3 (heap_pages tiny_heap) = Some h'"
    "\<And>off. off < 3 * PAGE_SIZE \<Longrightarrow>
         find_corresponding_slab (hhdm tiny_heap + 1 * PAGE_SIZE + off) (set_pages h' tiny_heap) = Some (Ref 1)" by blast
  show ?thesis using h'(1) h'(2) [of 10368] by (auto simp: PAGE_SIZE_def tiny_heap_def)
qed

end
