(* ===== verification/Rtc.thy ===== *)
theory Rtc
  imports Kernel_Prelude
begin

text \<open>
  The hardware clocks of \<open>kernel/src/arch/x86-64/timers.c\<close>: the programmable interval timer, the
  CMOS real time clock with the conversion of its date to a Unix time stamp, and the time stamp
  counter. The ports are a device outside the kernel: reading a CMOS register is a parameter
  \<open>rd\<close> that maps a device state and a register number to the value and the next device state,
  and a write is an entry of the list of port writes. Integers keep the width they have in C.
\<close>

section \<open>Programmable interval timer\<close>

definition PIT_OSCILLATOR_FREQUENCY :: u64 where
  "PIT_OSCILLATOR_FREQUENCY = 1193182"

definition DIV_ROUNDUP :: "u64 \<Rightarrow> u64 \<Rightarrow> u64" where
  "DIV_ROUNDUP a b = (a + b - 1) div b"

text \<open>The port writes of \<open>pit_rate_set\<close>; a rate of zero is a division fault.\<close>

definition pit_rate_set :: "u64 \<Rightarrow> (u16 \<times> u8) list option" where
  "pit_rate_set freq = do {
     kassert (freq \<noteq> 0);
     let reload_value = (ucast (DIV_ROUNDUP PIT_OSCILLATOR_FREQUENCY freq) :: u16);
     Some [(0x43, 0b00110100), (0x40, ucast reload_value), (0x40, ucast (drop_bit 8 reload_value))]
   }"

text \<open>Two reads of the data port after the latch command: low byte, then high byte.\<close>

definition pit_read_current :: "u8 \<Rightarrow> u8 \<Rightarrow> u16" where
  "pit_read_current lo hi = ucast lo OR push_bit 8 (ucast hi)"

section \<open>CMOS configuration\<close>

definition CMOS_SELECT :: u16 where
  "CMOS_SELECT = 0x70"

definition CMOS_DATA :: u16 where
  "CMOS_DATA = 0x71"

definition wrt_cmos_cfg_space :: "u8 \<Rightarrow> u8 \<Rightarrow> (u16 \<times> u8) list option" where
  "wrt_cmos_cfg_space reg v = do {
     kassert (reg = 0x0A \<or> reg = 0x0B \<or> reg = 0x0C \<or> reg = 0x0D);
     Some [(CMOS_SELECT, 0x80 OR reg), (CMOS_DATA, v)]
   }"

definition rtc_set_periodic :: "bool \<Rightarrow> u8 \<Rightarrow> (u16 \<times> u8) list" where
  "rtc_set_periodic enable prev =
     [(CMOS_SELECT, 0x8B), (CMOS_SELECT, 0x8B),
      (CMOS_DATA, if enable then 0x40 OR prev else NOT 0x40 AND prev)]"

definition rtc_set_rate :: "u8 \<Rightarrow> u8 \<Rightarrow> (u16 \<times> u8) list option" where
  "rtc_set_rate rate prev = do {
     kassert (\<not> ((rate < 3 \<and> rate \<noteq> 0) \<or> 15 < rate));
     Some [(CMOS_SELECT, 0x8A), (CMOS_SELECT, 0x8A), (CMOS_DATA, (prev AND 0xF0) OR rate)]
   }"

section \<open>Reading the clock\<close>

record rtc_time_ctx =
  second :: u8
  minute :: u8
  hour :: u8
  day :: u8
  month :: u8
  year :: u16
  century :: u8

definition TIME_CURRENT_YEAR :: u16 where
  "TIME_CURRENT_YEAR = 2023"

definition get_rtc_register :: "('d \<Rightarrow> u8 \<Rightarrow> u8 \<times> 'd) \<Rightarrow> u8 \<Rightarrow> 'd \<Rightarrow> u8 \<times> 'd" where
  "get_rtc_register rd reg d = rd d reg"

definition rtc_get_update_in_progress_flag :: "('d \<Rightarrow> u8 \<Rightarrow> u8 \<times> 'd) \<Rightarrow> 'd \<Rightarrow> u8 \<times> 'd" where
  "rtc_get_update_in_progress_flag rd d = (let (v, d') = rd d 0x0A in (v AND 0x80, d'))"

partial_function (option) rtc_wait :: "('d \<Rightarrow> u8 \<Rightarrow> u8 \<times> 'd) \<Rightarrow> 'd \<Rightarrow> 'd option" where
  "rtc_wait rd d =
     (let (f, d') = rtc_get_update_in_progress_flag rd d in if f \<noteq> 0 then rtc_wait rd d' else Some d')"

declare rtc_wait.simps [code]

text \<open>One pass over the date registers; without a century register that member keeps its value.\<close>

definition rtc_fields :: "('d \<Rightarrow> u8 \<Rightarrow> u8 \<times> 'd) \<Rightarrow> u8 \<Rightarrow> u8 \<Rightarrow> 'd \<Rightarrow> rtc_time_ctx \<times> 'd" where
  "rtc_fields rd century_reg old_century d =
     (let (s, d1) = get_rtc_register rd 0x00 d;
          (mi, d2) = get_rtc_register rd 0x02 d1;
          (h, d3) = get_rtc_register rd 0x04 d2;
          (dy, d4) = get_rtc_register rd 0x07 d3;
          (mo, d5) = get_rtc_register rd 0x08 d4;
          (y, d6) = get_rtc_register rd 0x09 d5;
          (c, d7) = (if century_reg \<noteq> 0 then get_rtc_register rd century_reg d6 else (old_century, d6))
      in (\<lparr>second = s, minute = mi, hour = h, day = dy, month = mo, year = ucast y, century = c\<rparr>, d7))"

text \<open>The loop that reads until two passes agree, from the pass \<open>prv\<close>.\<close>

partial_function (option) rtc_stable ::
  "('d \<Rightarrow> u8 \<Rightarrow> u8 \<times> 'd) \<Rightarrow> u8 \<Rightarrow> rtc_time_ctx \<Rightarrow> 'd \<Rightarrow> (rtc_time_ctx \<times> 'd) option" where
  "rtc_stable rd century_reg prv d =
     Option.bind (rtc_wait rd d)
       (\<lambda>d1. let (cur, d2) = rtc_fields rd century_reg (century prv) d1
             in if cur = prv then Some (cur, d2) else rtc_stable rd century_reg cur d2)"

declare rtc_stable.simps [code]

definition BCD2BIN :: "u8 \<Rightarrow> u8" where
  "BCD2BIN val = (val AND 0x0F) + drop_bit 4 val * 10"

definition BCD2BIN16 :: "u16 \<Rightarrow> u16" where
  "BCD2BIN16 val = (val AND 0x0F) + drop_bit 4 val * 10"

definition bcd_fields :: "u8 \<Rightarrow> rtc_time_ctx \<Rightarrow> rtc_time_ctx" where
  "bcd_fields century_reg c =
     c\<lparr>second := BCD2BIN (second c), minute := BCD2BIN (minute c),
       hour := ((hour c AND 0x0F) + drop_bit 4 (hour c AND 0x70) * 10) OR (hour c AND 0x80),
       day := BCD2BIN (day c), month := BCD2BIN (month c), year := BCD2BIN16 (year c),
       century := (if century_reg \<noteq> 0 then BCD2BIN (century c) else century c)\<rparr>"

text \<open>From the agreed pass to the result: BCD, twelve hour format, and the century.\<close>

definition rtc_decode :: "u8 \<Rightarrow> u8 \<Rightarrow> rtc_time_ctx \<Rightarrow> rtc_time_ctx" where
  "rtc_decode century_reg binary_reg c =
     (let c1 = (if binary_reg AND 0x04 = 0 then bcd_fields century_reg c else c);
          c2 = (if binary_reg AND 0x02 = 0 \<and> hour c1 AND 0x80 \<noteq> 0
                then c1\<lparr>hour := ((hour c1 AND 0x7F) + 12) mod 24\<rparr> else c1)
      in if century_reg \<noteq> 0 then c2\<lparr>year := year c2 + ucast (century c2) * 100\<rparr>
         else let y = TIME_CURRENT_YEAR div 100 * 100
              in c2\<lparr>year := (if y < TIME_CURRENT_YEAR then y + 100 else y)\<rparr>)"

definition rd_rtc :: "('d \<Rightarrow> u8 \<Rightarrow> u8 \<times> 'd) \<Rightarrow> u8 \<Rightarrow> 'd \<Rightarrow> (rtc_time_ctx \<times> 'd) option" where
  "rd_rtc rd century_reg d = do {
     d0 \<leftarrow> rtc_wait rd d;
     let (cur, d1) = rtc_fields rd century_reg 0 d0;
     (c, d2) \<leftarrow> rtc_stable rd century_reg cur d1;
     let (binary_reg, d3) = get_rtc_register rd 0x0B d2;
     Some (rtc_decode century_reg binary_reg c, d3)
   }"

section \<open>Unix time\<close>

definition GDN_EPOCH :: u32 where
  "GDN_EPOCH = 719162"

definition year_to_gdn :: "u64 \<Rightarrow> u64 \<times> bool" where
  "year_to_gdn y =
     (let y' = y - 1;
          cycle = y' div 400;
          year_in_cycle = y' mod 400;
          cent = year_in_cycle div 100;
          year_in_century = year_in_cycle mod 100;
          grp = year_in_century div 4;
          year_in_group = year_in_century mod 4
      in (146097 * cycle + 36524 * cent + 1461 * grp + 365 * year_in_group,
          year_in_group = 3 \<and> (year_in_century \<noteq> 99 \<or> year_in_cycle = 399)))"

definition month_to_gdn :: "u16 list" where
  "month_to_gdn = [0, 31, 59, 90, 120, 151, 181, 212, 243, 273, 304, 334]"

text \<open>Signed 32-bit arithmetic is arithmetic of 32-bit words; \<open>None\<close> is a read past the month table.\<close>

definition rtc_time_to_gdn :: "rtc_time_ctx \<Rightarrow> u32 option" where
  "rtc_time_to_gdn ctx =
     (let (g, is_leap) = year_to_gdn (ucast (year ctx) + 1900)
      in if unat (month ctx) < length month_to_gdn
         then Some (ucast g + (ucast (month_to_gdn ! unat (month ctx)) + of_bool (is_leap \<and> 1 < month ctx))
                    + (ucast (day ctx) - 1))
         else None)"

definition rtc_time2unix_stamp :: "rtc_time_ctx \<Rightarrow> u64 option" where
  "rtc_time2unix_stamp t = do {
     gdn \<leftarrow> rtc_time_to_gdn (t\<lparr>year := year t - 1900, month := month t - 1\<rparr>);
     Some (scast (gdn - GDN_EPOCH) * 86400 + ucast (hour t) * 3600 + ucast (minute t) * 60 + ucast (second t))
   }"

section \<open>Time stamp counter\<close>

text \<open>\<open>cpuid\<close> is the instruction: a parameter from the leaf to the registers \<open>eax\<close> and \<open>edx\<close>.\<close>

definition tsc_supported :: "(u32 \<Rightarrow> u32 \<times> u32) \<Rightarrow> bool" where
  "tsc_supported cpuid = (snd (cpuid 0x1) AND 0b1000 \<noteq> 0)"

definition tscp_supported :: "(u32 \<Rightarrow> u32 \<times> u32) \<Rightarrow> bool" where
  "tscp_supported cpuid = (snd (cpuid 0x80000001) AND push_bit 27 1 \<noteq> 0)"

definition tsc_invariant :: "(u32 \<Rightarrow> u32 \<times> u32) \<Rightarrow> bool" where
  "tsc_invariant cpuid = (snd (cpuid 0x80000007) AND 0x100 \<noteq> 0)"

definition rdtsc :: "u32 \<Rightarrow> u32 \<Rightarrow> u64" where
  "rdtsc hi lo = push_bit 32 (ucast hi) OR ucast lo"

definition cpu_base_freq :: "(u32 \<Rightarrow> u32 \<times> u32) \<Rightarrow> u64" where
  "cpu_base_freq cpuid =
     (if fst (cpuid 0x0) < 0x16 then 0 else ucast (fst (cpuid 0x16)) * 1000000)"

section \<open>Reference calendar\<close>

text \<open>The Gregorian calendar as a step from one day to the next.\<close>

definition leap :: "nat \<Rightarrow> bool" where
  "leap y \<longleftrightarrow> y mod 4 = 0 \<and> (y mod 100 \<noteq> 0 \<or> y mod 400 = 0)"

definition days_in_month :: "nat \<Rightarrow> nat \<Rightarrow> nat" where
  "days_in_month y m =
     (if m = 2 then if leap y then 29 else 28 else if m \<in> {4, 6, 9, 11} then 30 else 31)"

fun next_day :: "nat \<times> nat \<times> nat \<Rightarrow> nat \<times> nat \<times> nat" where
  "next_day (y, m, d) =
     (if d < days_in_month y m then (y, m, d + 1)
      else if m < 12 then (y, m + 1, 1) else (y + 1, 1, 1))"

fun valid_date :: "nat \<times> nat \<times> nat \<Rightarrow> bool" where
  "valid_date (y, m, d) \<longleftrightarrow> 1 \<le> y \<and> 1 \<le> m \<and> m \<le> 12 \<and> 1 \<le> d \<and> d \<le> days_in_month y m"

text \<open>The closed formula of the code on natural numbers.\<close>

definition gdn_of :: "nat \<times> nat \<times> nat \<Rightarrow> nat" where
  "gdn_of = (\<lambda>(y, m, d).
     146097 * ((y - 1) div 400) + 36524 * ((y - 1) mod 400 div 100) + 1461 * ((y - 1) mod 400 mod 100 div 4)
       + 365 * ((y - 1) mod 400 mod 100 mod 4)
       + ([0, 31, 59, 90, 120, 151, 181, 212, 243, 273, 304, 334] ! (m - 1)) + of_bool (leap y \<and> 2 < m) + (d - 1))"

end
