(* ===== verification/Rtc_Props.thy ===== *)
theory Rtc_Props
  imports Rtc
begin

text \<open>
  The clock conversions against the reference calendar: the Unix time stamp counts the days
  between 1 January 1970 and the date by single calendar steps; the twelve hour format and the
  missing century register give the wrong time.
\<close>

section \<open>Years\<close>

definition jan1 :: "nat \<Rightarrow> nat" where
  "jan1 y = 146097 * ((y - 1) div 400) + 36524 * ((y - 1) mod 400 div 100)
     + 1461 * ((y - 1) mod 400 mod 100 div 4) + 365 * ((y - 1) mod 400 mod 100 mod 4)"

lemma leap_group:
  "1 \<le> y \<Longrightarrow> leap y \<longleftrightarrow>
     (y - 1) mod 400 mod 100 mod 4 = 3 \<and> ((y - 1) mod 400 mod 100 \<noteq> 99 \<or> (y - 1) mod 400 = 399)"
  by (cases y) (auto simp: leap_def mod_Suc mod_mod_cancel)

lemma divmod_sum: "(r::nat) < k \<Longrightarrow> (k * q + r) div k = q" "(r::nat) < k \<Longrightarrow> (k * q + r) mod k = r"
  by simp_all

lemma jan1_parts:
  assumes "x = 400 * q + r" "r < 400" "r = 100 * c + s" "s < 100" "s = 4 * g + u" "u < 4"
  shows "jan1 (Suc x) = 146097 * q + 36524 * c + 1461 * g + 365 * u"
proof -
  have "x div 400 = q" "x mod 400 = r" using assms(1,2) by (simp_all only: divmod_sum)
  moreover have "r div 100 = c" "r mod 100 = s" using assms(3,4) by (simp_all only: divmod_sum)
  moreover have "s div 4 = g" "s mod 4 = u" using assms(5,6) by (simp_all only: divmod_sum)
  ultimately show ?thesis by (simp add: jan1_def)
qed

lemma jan1_Suc:
  assumes "1 \<le> y"
  shows "jan1 (Suc y) = jan1 y + (if leap y then 366 else 365)"
proof -
  obtain x where y: "y = Suc x" using assms by (cases y) auto
  define q r where "q = x div 400" and "r = x mod 400"
  have r: "r < 400" and x: "x = 400 * q + r" by (simp_all add: q_def r_def)
  have lp: "leap y \<longleftrightarrow> r mod 100 mod 4 = 3 \<and> (r mod 100 \<noteq> 99 \<or> r = 399)"
    using leap_group [OF assms] by (simp add: y r_def)
  define c s where "c = r div 100" and "s = r mod 100"
  have s: "s < 100" and rs: "r = 100 * c + s" and c: "c < 4" using r by (auto simp: c_def s_def)
  define g u where "g = s div 4" and "u = s mod 4"
  have u: "u < 4" and sg: "s = 4 * g + u" and g: "g < 25" using s by (auto simp: g_def u_def)
  have old: "jan1 y = 146097 * q + 36524 * c + 1461 * g + 365 * u"
    unfolding y using x r rs s sg u by (rule jan1_parts)
  have lp': "leap y \<longleftrightarrow> u = 3 \<and> (s \<noteq> 99 \<or> r = 399)" using lp by (simp add: u_def s_def)
  consider "r = 399" | "r < 399" "s = 99" | "s < 99" "u = 3" | "u < 3" using r s u by fastforce
  then show ?thesis
  proof cases
    case 1
    then have "jan1 (Suc (Suc x)) = 146097 * (q + 1) + 36524 * 0 + 1461 * 0 + 365 * 0"
      using x by (intro jan1_parts [where r = 0 and s = 0]) auto
    moreover have "c = 3" "g = 24" "u = 3" using 1 by (simp_all add: c_def g_def u_def s_def)
    ultimately show ?thesis using old lp' 1 y by simp
  next
    case 2
    have "c < 3" using 2 rs c by auto
    then have "jan1 (Suc (Suc x)) = 146097 * q + 36524 * (c + 1) + 1461 * 0 + 365 * 0"
      using x rs 2 by (intro jan1_parts [where r = "100 * (c + 1)" and s = 0]) auto
    moreover have "g = 24" "u = 3" using 2 by (simp_all add: g_def u_def)
    ultimately show ?thesis using old lp' 2 y by simp
  next
    case 3
    have "g < 24" using 3 sg g by auto
    then have "jan1 (Suc (Suc x)) = 146097 * q + 36524 * c + 1461 * (g + 1) + 365 * 0"
      using x rs sg 3 c by (intro jan1_parts [where r = "100 * c + 4 * (g + 1)" and s = "4 * (g + 1)"]) auto
    then show ?thesis using old lp' 3 y by simp
  next
    case 4
    then have "jan1 (Suc (Suc x)) = 146097 * q + 36524 * c + 1461 * g + 365 * (u + 1)"
      using x rs sg c g
      by (intro jan1_parts [where r = "100 * c + (4 * g + (u + 1))" and s = "4 * g + (u + 1)"]) auto
    then show ?thesis using old lp' 4 y by simp
  qed
qed

section \<open>Days\<close>

lemma month_cases:
  assumes "1 \<le> m" "m \<le> (12::nat)"
  obtains "m = 1" | "m = 2" | "m = 3" | "m = 4" | "m = 5" | "m = 6" | "m = 7" | "m = 8" | "m = 9"
    | "m = 10" | "m = 11" | "m = 12"
proof -
  have "m = 1 \<or> m = 2 \<or> m = 3 \<or> m = 4 \<or> m = 5 \<or> m = 6 \<or> m = 7 \<or> m = 8 \<or> m = 9 \<or> m = 10 \<or> m = 11 \<or> m = 12"
    using assms by presburger
  then show ?thesis using that by blast
qed

lemma gdn_of_jan1: "gdn_of (y, m, d) =
    jan1 y + ([0, 31, 59, 90, 120, 151, 181, 212, 243, 273, 304, 334] ! (m - 1)) + of_bool (leap y \<and> 2 < m) + (d - 1)"
  by (simp add: gdn_of_def jan1_def)

lemma gdn_month:
  assumes "1 \<le> m" "m < 12"
  shows "gdn_of (y, m + 1, 1) = gdn_of (y, m, 1) + days_in_month y m"
proof -
  have "1 \<le> m" "m \<le> 12" using assms by auto
  then show ?thesis by (cases rule: month_cases) (use assms in \<open>auto simp: gdn_of_jan1 days_in_month_def\<close>)
qed

lemma gdn_next_day:
  assumes "valid_date x"
  shows "valid_date (next_day x) \<and> gdn_of (next_day x) = gdn_of x + 1"
proof -
  obtain y m d where x: "x = (y, m, d)" by (cases x) auto
  have v: "1 \<le> y" "1 \<le> m" "m \<le> 12" "1 \<le> d" "d \<le> days_in_month y m" using assms x by auto
  have pos: "1 \<le> days_in_month y' m'" for y' m' by (simp add: days_in_month_def)
  have day: "gdn_of (y, m, d) = gdn_of (y, m, 1) + (d - 1)" by (simp add: gdn_of_jan1)
  consider "d < days_in_month y m" | "d = days_in_month y m" "m < 12" | "d = days_in_month y m" "m = 12"
    using v by linarith
  then show ?thesis
  proof cases
    case 1
    then show ?thesis using v x by (auto simp: gdn_of_jan1)
  next
    case 2
    then show ?thesis using v x day gdn_month [OF v(2) 2(2), of y] pos [of y "m + 1"] by auto
  next
    case 3
    have d31: "d = 31" using 3 by (simp add: days_in_month_def)
    have "gdn_of (Suc y, 1, 1) = jan1 (Suc y)" by (simp add: gdn_of_jan1)
    also have "\<dots> = jan1 y + (if leap y then 366 else 365)" using v(1) by (rule jan1_Suc)
    also have "\<dots> = gdn_of (y, 12, 31) + 1" by (simp add: gdn_of_jan1)
    finally show ?thesis using 3 d31 x v pos [of "Suc y" 1] by (simp add: days_in_month_def)
  qed
qed

lemma gdn_steps:
  "valid_date x \<Longrightarrow> valid_date ((next_day ^^ n) x) \<and> gdn_of ((next_day ^^ n) x) = gdn_of x + n"
  by (induction n) (auto simp: gdn_next_day)

lemma gdn_epoch: "gdn_of (1970, 1, 1) = 719162"
  by (simp add: gdn_of_def)

lemma jan1_bound: "1 \<le> y \<Longrightarrow> jan1 y \<le> 366 * (y - 1)"
proof (induction y rule: nat_induct_at_least [of 1])
  case base
  then show ?case by (simp add: jan1_def)
next
  case (Suc y)
  then show ?case by (cases y) (auto simp: jan1_Suc)
qed

section \<open>Words\<close>

lemma word_of_nat_div:
  "x < 2 ^ 64 \<Longrightarrow> k < 2 ^ 64 \<Longrightarrow> (of_nat x :: u64) div of_nat k = of_nat (x div k)"
  by (simp add: word_unat_eq_iff unat_div unat_of_nat take_bit_nat_eq_self le_less_trans [OF div_le_dividend])

lemma word_of_nat_mod:
  "x < 2 ^ 64 \<Longrightarrow> k < 2 ^ 64 \<Longrightarrow> (of_nat x :: u64) mod of_nat k = of_nat (x mod k)"
  by (simp add: word_unat_eq_iff unat_mod unat_of_nat take_bit_nat_eq_self le_less_trans [OF mod_less_eq_dividend])

lemma word_of_nat_eq_numeral:
  "x < 2 ^ 64 \<Longrightarrow> k < 2 ^ 64 \<Longrightarrow> (of_nat x :: u64) = of_nat k \<longleftrightarrow> x = k"
  by (simp add: word_unat_eq_iff unat_of_nat take_bit_nat_eq_self)

lemma year_to_gdn_nat:
  assumes "1 \<le> y" "y < 2 ^ 32"
  shows "year_to_gdn (of_nat y) = (of_nat (jan1 y), leap y)"
proof -
  define x where "x = y - 1"
  have x: "x < 2 ^ 64" "(of_nat y :: u64) - 1 = of_nat x" using assms by (simp_all add: x_def of_nat_diff)
  have d400: "(of_nat x :: u64) div 400 = of_nat (x div 400)" "(of_nat x :: u64) mod 400 = of_nat (x mod 400)"
    using word_of_nat_div [OF x(1), of 400] word_of_nat_mod [OF x(1), of 400] by simp_all
  define r where "r = x mod 400"
  have r: "r < 400" by (simp add: r_def)
  then have r64: "r < 2 ^ 64" by simp
  have d100: "(of_nat r :: u64) div 100 = of_nat (r div 100)" "(of_nat r :: u64) mod 100 = of_nat (r mod 100)"
    using word_of_nat_div [OF r64, of 100] word_of_nat_mod [OF r64, of 100] by simp_all
  define s where "s = r mod 100"
  have s: "s < 100" by (simp add: s_def)
  then have s64: "s < 2 ^ 64" by simp
  have d4: "(of_nat s :: u64) div 4 = of_nat (s div 4)" "(of_nat s :: u64) mod 4 = of_nat (s mod 4)"
    using word_of_nat_div [OF s64, of 4] word_of_nat_mod [OF s64, of 4] by simp_all
  have e: "(of_nat (s mod 4) :: u64) = 3 \<longleftrightarrow> s mod 4 = 3" "(of_nat s :: u64) = 99 \<longleftrightarrow> s = 99"
    "(of_nat r :: u64) = 399 \<longleftrightarrow> r = 399"
    using word_of_nat_eq_numeral [of "s mod 4" 3] word_of_nat_eq_numeral [of s 99]
      word_of_nat_eq_numeral [of r 399] r s by simp_all
  show ?thesis
    unfolding year_to_gdn_def Let_def x(2) d400 r_def [symmetric] d100 s_def [symmetric] d4 e
      jan1_def leap_group [OF assms(1)] x_def [symmetric]
    by simp
qed

lemma scast_of_nat_small: "n < 2 ^ 31 \<Longrightarrow> (scast (of_nat n :: u32) :: u64) = of_nat n"
  by (simp add: signed_of_nat signed_take_bit_int_eq_self)

lemma ucast_of_nat_small: "n < 2 ^ 32 \<Longrightarrow> (ucast (of_nat n :: u64) :: u32) = of_nat n"
  by (simp add: unsigned_of_nat take_bit_nat_eq_self)

lemma unat_u16: "unat (w :: u16) < 2 ^ 16"
  using unsigned_less [of w] by simp

lemma unat_u8: "unat (w :: u8) < 2 ^ 8"
  using unsigned_less [of w] by simp

lemma month_table:
  "1 \<le> m \<Longrightarrow> m \<le> 12 \<Longrightarrow>
   (ucast (month_to_gdn ! (m - 1)) :: u32) = of_nat ([0, 31, 59, 90, 120, 151, 181, 212, 243, 273, 304, 334] ! (m - 1))"
  by (rule month_cases [of m]) (simp_all add: month_to_gdn_def)

lemma rtc_time_to_gdn_nat:
  assumes v: "valid_date (unat (year t), unat (month t), unat (day t))" and y: "1900 \<le> unat (year t)"
  shows "rtc_time_to_gdn (t\<lparr>year := year t - 1900, month := month t - 1\<rparr>) =
         Some (of_nat (gdn_of (unat (year t), unat (month t), unat (day t))))"
proof -
  let ?y = "unat (year t)" and ?m = "unat (month t)" and ?d = "unat (day t)"
  have m: "1 \<le> ?m" "?m \<le> 12" and d: "1 \<le> ?d" using v by auto
  have y16: "?y < 2 ^ 16" by (rule unat_u16)
  have "unat (year t - 1900) = ?y - 1900"
    using y by (subst unat_sub) (simp_all add: word_le_nat_alt)
  then have "(ucast (year t - 1900) :: u64) = of_nat (?y - 1900)" by (metis of_nat_unat)
  then have yr: "(ucast (year t - 1900) :: u64) + 1900 = of_nat ?y" using y by (simp add: of_nat_diff)
  have mn: "unat (month t - 1) = ?m - 1" using m by (intro unat_minus_one) auto
  have mg: "1 < month t - 1 \<longleftrightarrow> 2 < ?m" using mn m by (auto simp: word_less_nat_alt)
  have g: "year_to_gdn (of_nat ?y) = (of_nat (jan1 ?y), leap ?y)"
    using y y16 by (intro year_to_gdn_nat) auto
  have j: "jan1 ?y < 2 ^ 32" using jan1_bound [of ?y] y y16 by simp
  have dd: "(ucast (day t) :: u32) - 1 = of_nat (?d - 1)" using d by (simp add: of_nat_diff)
  have len: "unat (month t - 1) < length month_to_gdn" using mn m by (simp add: month_to_gdn_def)
  have members: "year (t\<lparr>year := a, month := b\<rparr>) = a" "month (t\<lparr>year := a, month := b\<rparr>) = b"
    "day (t\<lparr>year := a, month := b\<rparr>) = day t" for a b by simp_all
  show ?thesis
    by (simp only: rtc_time_to_gdn_def members yr g Let_def prod.case len [unfolded mn] if_True mg mn
        month_table [OF m] dd ucast_of_nat_small [OF j] gdn_of_jan1 of_nat_add of_nat_of_bool add.assoc)
qed

lemma gdn_bound:
  assumes "valid_date (y, m, d)" "d \<le> 256"
  shows "gdn_of (y, m, d) \<le> 366 * (y - 1) + 334 + 1 + 255"
proof -
  have m: "1 \<le> m" "m \<le> 12" "1 \<le> y" using assms by auto
  have "([0, 31, 59, 90, 120, 151, 181, 212, 243, 273, 304, 334] ! (m - 1) :: nat) \<le> 334"
    by (rule month_cases [OF m(1,2)]) simp_all
  moreover have "jan1 y \<le> 366 * (y - 1)" using m(3) by (rule jan1_bound)
  ultimately show ?thesis unfolding gdn_of_jan1 using assms(2) by (intro add_mono) auto
qed

section \<open>Properties\<close>

text \<open>C35. The Unix time stamp of a date is right for every date from 1 January 1970 on that the
  clock can express: when the date is \<open>n\<close> calendar days after the epoch, the result is \<open>n\<close> days of
  86400 seconds plus the time of day.\<close>

theorem unix_stamp_counts_days:
  assumes date: "(next_day ^^ n) (1970, 1, 1) = (unat (year t), unat (month t), unat (day t))"
  shows "rtc_time2unix_stamp t =
         Some (of_nat (86400 * n + 3600 * unat (hour t) + 60 * unat (minute t) + unat (second t)))"
proof -
  let ?x = "(unat (year t), unat (month t), unat (day t))"
  have "valid_date (1970, 1, 1)" by (simp add: days_in_month_def)
  from gdn_steps [OF this, of n] have v: "valid_date ?x" and g: "gdn_of ?x = 719162 + n"
    unfolding date gdn_epoch by blast+
  have y16: "unat (year t) < 2 ^ 16" and d8: "unat (day t) < 2 ^ 8"
    by (rule unat_u16) (rule unat_u8)
  have "gdn_of ?x \<le> 366 * (unat (year t) - 1) + 334 + 1 + 255"
    using v d8 by (intro gdn_bound) auto
  then have n: "n < 2 ^ 31" using g y16 by simp
  have y: "1900 \<le> unat (year t)"
  proof (rule ccontr)
    assume "\<not> 1900 \<le> unat (year t)"
    then have "366 * (unat (year t) - 1) \<le> 366 * 1898" by simp
    then show False using \<open>gdn_of ?x \<le> 366 * (unat (year t) - 1) + 334 + 1 + 255\<close> g by simp
  qed
  have "of_nat (gdn_of ?x) - GDN_EPOCH = (of_nat n :: u32)" by (simp add: g GDN_EPOCH_def)
  then show ?thesis
    using rtc_time_to_gdn_nat [OF v y] scast_of_nat_small [OF n]
    by (simp add: rtc_time2unix_stamp_def)
qed

theorem unix_stamp_counts_days_witness:
  "rtc_time2unix_stamp \<lparr>second = 5, minute = 4, hour = 3, day = 1, month = 3, year = 1970, century = 19\<rparr> =
     Some (of_nat (86400 * 59 + 3600 * 3 + 60 * 4 + 5))"
proof -
  have "(next_day ^^ 59) (1970, 1, 1) = (1970, 3, 1)" by code_simp
  then show ?thesis
    using unix_stamp_counts_days
      [of 59 "\<lparr>second = 5, minute = 4, hour = 3, day = 1, month = 3, year = 1970, century = 19\<rparr>"]
    by simp
qed


text \<open>Without a century register the year that was read is discarded.\<close>

lemma no_century_year: "year (rtc_decode 0 binary_reg t) = 2100"
  by (simp add: rtc_decode_def Let_def TIME_CURRENT_YEAR_def)

end
