(* ===== verification/Tasks.thy ===== *)
theory Tasks
  imports Frame_Contract
begin

text \<open>
  Tasks and run queues: \<open>kernel/include/process.h\<close>, \<open>kernel/include/scheduler.h\<close>, the task switch
  of \<open>kernel/src/arch/x86-64/task_switch.S\<close> and the part of \<open>kernel/src/proc/scheduler.c\<close> that
  does not launch events. A task is an index into the list of the tasks that \<open>kcalloc\<close> returned
  (tasks are never given back to the heap), and each operation names the processor it runs on.
  The operations run with the interrupt flag of that processor clear and take the locks of the
  queues only around their own accesses, so each is one step here. Stack frames come from the
  frame allocator of the development; \<open>kmem\<close> is the memory as 64-bit words, by address.
\<close>

section \<open>Data\<close>

datatype task_state =
    TASK_STATE_UNITIALIZED | TASK_STATE_RUNNING | TASK_STATE_READY | TASK_STATE_SLEEPING | TASK_STATE_KILLED

datatype task_priority =
    TASK_PRIORITY_CRITICAL | TASK_PRIORITY_HIGH | TASK_PRIORITY_NORMAL | TASK_PRIORITY_LOW | TASK_PRIORITY_IDLE

definition TASK_PRIORITY_MAX_PRIORITIES :: nat where
  "TASK_PRIORITY_MAX_PRIORITIES = 5"

fun prio_index :: "task_priority \<Rightarrow> nat" where
  "prio_index TASK_PRIORITY_CRITICAL = 0"
| "prio_index TASK_PRIORITY_HIGH = 1"
| "prio_index TASK_PRIORITY_NORMAL = 2"
| "prio_index TASK_PRIORITY_LOW = 3"
| "prio_index TASK_PRIORITY_IDLE = 4"

definition TASK_FLAGS_KERNEL_THREAD :: u32 where
  "TASK_FLAGS_KERNEL_THREAD = push_bit 0 1"

definition TASK_FLAGS_KERNEL_IDLE :: u32 where
  "TASK_FLAGS_KERNEL_IDLE = push_bit 1 1"

definition SPAWN_TASK_THREAD_GROUP :: u8 where
  "SPAWN_TASK_THREAD_GROUP = push_bit 0 1"

definition SPAWN_TASK_NO_KERNEL_STACK :: u8 where
  "SPAWN_TASK_NO_KERNEL_STACK = push_bit 1 1"

definition KERNEL_STACK_SIZE :: nat where
  "KERNEL_STACK_SIZE = 0x8000"

record jmpbuf =
  rip :: u64
  rsp :: u64
  rbp :: u64
  rbx :: u64
  r12 :: u64
  r13 :: u64
  r14 :: u64
  r15 :: u64

type_synonym task_ptr = "nat ptr"

record task =
  tid :: u32
  gid :: u32
  tg_leader :: task_ptr
  parent :: task_ptr
  first_child :: task_ptr
  sibling_prev :: task_ptr
  sibling_next :: task_ptr
  stacks :: "nat list"
  kernel_stack :: u64
  stack :: u64
  stack_size :: nat
  pmc :: nat
  jctx :: jmpbuf
  fs_base :: u64
  flags :: u32
  state :: task_state
  prio :: task_priority
  rr_next :: task_ptr
  rr_prev :: task_ptr

record scheduler_runqueue =
  num_tasks :: int
  rq_head :: task_ptr
  rq_tail :: task_ptr

text \<open>The members of \<open>cpu_local_t\<close> that the scheduler uses, with the registers of the processor.\<close>

record cpu_local =
  curr_thread :: task_ptr
  idle_thread :: task_ptr
  tss_rsp0 :: u64
  IF :: bool
  cr3 :: nat
  oneshot_us :: nat
  regs :: jmpbuf
  rdi :: u64
  rsi :: u64
  rax :: u64

record ksched =
  tasks :: "task list"
  task_id_counter :: u64
  prio_queue :: "scheduler_runqueue list"
  sleep_queue :: scheduler_runqueue
  reap_queue :: scheduler_runqueue
  kernel_task :: task_ptr
  cpus :: "cpu_local list"
  phys :: frame_state
  kmem :: "u64 \<Rightarrow> u64"
  hhdm_offset :: u64
  kernel_pmc :: nat
  sym_thread_spinup :: u64
  sym_kernel_idle :: u64

section \<open>Access through pointers\<close>

definition get_task :: "task list \<Rightarrow> task_ptr \<Rightarrow> task option" where
  "get_task ts p = (case p of Ref i \<Rightarrow> if i < length ts then Some (ts ! i) else None | _ \<Rightarrow> None)"

definition upd_task :: "(task \<Rightarrow> task) \<Rightarrow> task list \<Rightarrow> task_ptr \<Rightarrow> task list option" where
  "upd_task f ts p =
     (case p of Ref i \<Rightarrow> if i < length ts then Some (ts[i := f (ts ! i)]) else None | _ \<Rightarrow> None)"

definition upd :: "(task \<Rightarrow> task) \<Rightarrow> task_ptr \<Rightarrow> ksched \<Rightarrow> ksched option" where
  "upd f p s = map_option (\<lambda>ts. s\<lparr>tasks := ts\<rparr>) (upd_task f (tasks s) p)"

definition get_this_cpu :: "nat \<Rightarrow> ksched \<Rightarrow> cpu_local option" where
  "get_this_cpu c s = (if c < length (cpus s) \<and> \<not> IF (cpus s ! c) then Some (cpus s ! c) else None)"

definition put_cpu :: "nat \<Rightarrow> cpu_local \<Rightarrow> ksched \<Rightarrow> ksched" where
  "put_cpu c cpu s = s\<lparr>cpus := (cpus s)[c := cpu]\<rparr>"

definition scheduler_curr_task :: "nat \<Rightarrow> ksched \<Rightarrow> task_ptr option" where
  "scheduler_curr_task c s = map_option curr_thread (get_this_cpu c s)"

definition preempt_fetch_of :: "nat \<Rightarrow> ksched \<Rightarrow> bool option" where
  "preempt_fetch_of c s = (if c < length (cpus s) then Some (IF (cpus s ! c)) else None)"

definition set_IF :: "bool \<Rightarrow> nat \<Rightarrow> ksched \<Rightarrow> ksched" where
  "set_IF b c s = s\<lparr>cpus := (cpus s)[c := (cpus s ! c)\<lparr>IF := b\<rparr>]\<rparr>"

section \<open>Run queues\<close>

definition runqueue_pop_front ::
  "task list \<Rightarrow> scheduler_runqueue \<Rightarrow> (task_ptr \<times> task list \<times> scheduler_runqueue) option" where
  "runqueue_pop_front ts rq =
     (if rq_head rq = Null then Some (Null, ts, rq)
      else do {
        let ret = rq_head rq;
        (ts1, rq1) \<leftarrow>
          (if rq_head rq = rq_tail rq then Some (ts, rq\<lparr>rq_head := Null, rq_tail := Null\<rparr>)
           else do {
             t \<leftarrow> get_task ts (rq_head rq);
             ts' \<leftarrow> upd_task (rr_prev_update (\<lambda>_. Null)) ts (rr_next t);
             Some (ts', rq\<lparr>rq_head := rr_next t\<rparr>)
           });
        ts2 \<leftarrow> upd_task (\<lambda>t. t\<lparr>rr_next := Null, rr_prev := Null\<rparr>) ts1 ret;
        Some (ret, ts2, rq1\<lparr>num_tasks := num_tasks rq1 - 1\<rparr>)
      })"

definition runqueue_insert_front ::
  "task_ptr \<Rightarrow> task list \<Rightarrow> scheduler_runqueue \<Rightarrow> (task list \<times> scheduler_runqueue) option" where
  "runqueue_insert_front tk ts rq = do {
     kassert (tk \<noteq> Null);
     (ts1, rq1) \<leftarrow>
       (if rq_head rq = Null then do {
          ts' \<leftarrow> upd_task (\<lambda>t. t\<lparr>rr_next := Null, rr_prev := Null\<rparr>) ts tk;
          Some (ts', rq\<lparr>rq_head := tk, rq_tail := tk\<rparr>)
        } else do {
          ts' \<leftarrow> upd_task (\<lambda>t. t\<lparr>rr_prev := Null, rr_next := rq_head rq\<rparr>) ts tk;
          ts'' \<leftarrow> upd_task (rr_prev_update (\<lambda>_. tk)) ts' (rq_head rq);
          Some (ts'', rq\<lparr>rq_head := tk\<rparr>)
        });
     Some (ts1, rq1\<lparr>num_tasks := num_tasks rq1 + 1\<rparr>)
   }"

definition runqueue_insert_back ::
  "task_ptr \<Rightarrow> task list \<Rightarrow> scheduler_runqueue \<Rightarrow> (task list \<times> scheduler_runqueue) option" where
  "runqueue_insert_back tk ts rq = do {
     kassert (tk \<noteq> Null);
     (ts1, rq1) \<leftarrow>
       (if rq_tail rq = Null then do {
          ts' \<leftarrow> upd_task (\<lambda>t. t\<lparr>rr_next := Null, rr_prev := Null\<rparr>) ts tk;
          Some (ts', rq\<lparr>rq_head := tk, rq_tail := tk\<rparr>)
        } else do {
          ts' \<leftarrow> upd_task (rr_next_update (\<lambda>_. Null)) ts tk;
          ts'' \<leftarrow> upd_task (rr_next_update (\<lambda>_. tk)) ts' (rq_tail rq);
          ts''' \<leftarrow> upd_task (rr_prev_update (\<lambda>_. rq_tail rq)) ts'' tk;
          Some (ts''', rq\<lparr>rq_tail := tk\<rparr>)
        });
     Some (ts1, rq1\<lparr>num_tasks := num_tasks rq1 + 1\<rparr>)
   }"

definition runqueue_remove ::
  "task_ptr \<Rightarrow> task list \<Rightarrow> scheduler_runqueue \<Rightarrow> (task list \<times> scheduler_runqueue) option" where
  "runqueue_remove tk ts rq = do {
     t \<leftarrow> get_task ts tk;
     let rq1 =
       (if tk = rq_head rq then
          (if rr_next t = Null then rq\<lparr>rq_head := Null, rq_tail := Null\<rparr> else rq\<lparr>rq_head := rr_next t\<rparr>)
        else if tk = rq_tail rq then
          (if rr_prev t = Null then rq\<lparr>rq_tail := Null, rq_head := Null\<rparr> else rq\<lparr>rq_tail := rr_prev t\<rparr>)
        else rq);
     ts1 \<leftarrow> (if rr_prev t \<noteq> Null then upd_task (rr_next_update (\<lambda>_. rr_next t)) ts (rr_prev t) else Some ts);
     t1 \<leftarrow> get_task ts1 tk;
     ts2 \<leftarrow> (if rr_next t1 \<noteq> Null then upd_task (rr_prev_update (\<lambda>_. rr_prev t1)) ts1 (rr_next t1) else Some ts1);
     ts3 \<leftarrow> upd_task (\<lambda>t. t\<lparr>rr_next := Null, rr_prev := Null\<rparr>) ts2 tk;
     Some (ts3, rq1\<lparr>num_tasks := num_tasks rq1 - 1\<rparr>)
   }"

section \<open>The queues of the scheduler\<close>

text \<open>The queue operations at the three kinds of queue of the scheduler.\<close>

definition prio_insert_back :: "nat \<Rightarrow> task_ptr \<Rightarrow> ksched \<Rightarrow> ksched option" where
  "prio_insert_back i tk s = do {
     kassert (i < length (prio_queue s));
     (ts, rq) \<leftarrow> runqueue_insert_back tk (tasks s) (prio_queue s ! i);
     Some (s\<lparr>tasks := ts, prio_queue := (prio_queue s)[i := rq]\<rparr>)
   }"

definition prio_insert_front :: "nat \<Rightarrow> task_ptr \<Rightarrow> ksched \<Rightarrow> ksched option" where
  "prio_insert_front i tk s = do {
     kassert (i < length (prio_queue s));
     (ts, rq) \<leftarrow> runqueue_insert_front tk (tasks s) (prio_queue s ! i);
     Some (s\<lparr>tasks := ts, prio_queue := (prio_queue s)[i := rq]\<rparr>)
   }"

definition prio_remove :: "nat \<Rightarrow> task_ptr \<Rightarrow> ksched \<Rightarrow> ksched option" where
  "prio_remove i tk s = do {
     kassert (i < length (prio_queue s));
     (ts, rq) \<leftarrow> runqueue_remove tk (tasks s) (prio_queue s ! i);
     Some (s\<lparr>tasks := ts, prio_queue := (prio_queue s)[i := rq]\<rparr>)
   }"

definition prio_pop :: "nat \<Rightarrow> ksched \<Rightarrow> (task_ptr \<times> ksched) option" where
  "prio_pop i s = do {
     kassert (i < length (prio_queue s));
     (tk, ts, rq) \<leftarrow> runqueue_pop_front (tasks s) (prio_queue s ! i);
     Some (tk, s\<lparr>tasks := ts, prio_queue := (prio_queue s)[i := rq]\<rparr>)
   }"

definition sleep_insert_front :: "task_ptr \<Rightarrow> ksched \<Rightarrow> ksched option" where
  "sleep_insert_front tk s = do {
     (ts, rq) \<leftarrow> runqueue_insert_front tk (tasks s) (sleep_queue s);
     Some (s\<lparr>tasks := ts, sleep_queue := rq\<rparr>)
   }"

definition sleep_insert_back :: "task_ptr \<Rightarrow> ksched \<Rightarrow> ksched option" where
  "sleep_insert_back tk s = do {
     (ts, rq) \<leftarrow> runqueue_insert_back tk (tasks s) (sleep_queue s);
     Some (s\<lparr>tasks := ts, sleep_queue := rq\<rparr>)
   }"

definition sleep_remove :: "task_ptr \<Rightarrow> ksched \<Rightarrow> ksched option" where
  "sleep_remove tk s = do {
     (ts, rq) \<leftarrow> runqueue_remove tk (tasks s) (sleep_queue s);
     Some (s\<lparr>tasks := ts, sleep_queue := rq\<rparr>)
   }"

definition reap_insert_back :: "task_ptr \<Rightarrow> ksched \<Rightarrow> ksched option" where
  "reap_insert_back tk s = do {
     (ts, rq) \<leftarrow> runqueue_insert_back tk (tasks s) (reap_queue s);
     Some (s\<lparr>tasks := ts, reap_queue := rq\<rparr>)
   }"

definition reap_pop :: "ksched \<Rightarrow> (task_ptr \<times> ksched) option" where
  "reap_pop s = do {
     (tk, ts, rq) \<leftarrow> runqueue_pop_front (tasks s) (reap_queue s);
     Some (tk, s\<lparr>tasks := ts, reap_queue := rq\<rparr>)
   }"

section \<open>Task switch\<close>

text \<open>\<open>save_task_context\<close> is entered with the return address on the stack and returns 0;
  \<open>load_task_context\<close> continues at that return address with the result 1.\<close>

definition save_task_context :: "nat \<Rightarrow> task_ptr \<Rightarrow> ksched \<Rightarrow> ksched option" where
  "save_task_context c tk s = do {
     kassert (c < length (cpus s));
     let cpu = cpus s ! c;
     let r = regs cpu;
     let ctx = r\<lparr>rip := kmem s (rsp r), rsp := rsp r + 8\<rparr>;
     s1 \<leftarrow> upd (jctx_update (\<lambda>_. ctx)) tk s;
     Some (put_cpu c (cpu\<lparr>regs := ctx, rax := 0\<rparr>) s1)
   }"

definition load_task_context :: "nat \<Rightarrow> jmpbuf \<Rightarrow> ksched \<Rightarrow> ksched" where
  "load_task_context c ctx s = put_cpu c ((cpus s ! c)\<lparr>regs := ctx, rax := 1\<rparr>) s"

definition kernel_thread_spinup :: "nat \<Rightarrow> ksched \<Rightarrow> ksched" where
  "kernel_thread_spinup c s =
     (let cpu = cpus s ! c; sp = rsp (regs cpu)
      in put_cpu c (cpu\<lparr>rdi := kmem s sp, rsi := kmem s (sp + 8),
                       regs := (regs cpu)\<lparr>rsp := sp + 16, rip := kmem s (sp + 8)\<rparr>\<rparr>) s)"

definition switch2task :: "nat \<Rightarrow> task_ptr \<Rightarrow> ksched \<Rightarrow> ksched option" where
  "switch2task c target s = do {
     t \<leftarrow> get_task (tasks s) target;
     i \<leftarrow> preempt_fetch_of c s;
     kassert (state t = TASK_STATE_READY \<and> \<not> i);
     cpu \<leftarrow> get_this_cpu c s;
     s1 \<leftarrow> upd (state_update (\<lambda>_. TASK_STATE_RUNNING)) target s;
     let s2 = put_cpu c (cpu\<lparr>cr3 := pmc t, tss_rsp0 := kernel_stack t, curr_thread := target,
                            oneshot_us := 20 * 1000\<rparr>) s1;
     Some (load_task_context c (jctx t) s2)
   }"

fun find_task_from :: "nat list \<Rightarrow> ksched \<Rightarrow> (task_ptr \<times> ksched) option" where
  "find_task_from [] s = Some (Null, s)"
| "find_task_from (i # is) s = do {
     (found, s1) \<leftarrow> prio_pop i s;
     if found = Null then find_task_from is s1
     else do {
       t \<leftarrow> get_task (tasks s1) found;
       kassert (state t = TASK_STATE_READY);
       Some (found, s1)
     }
   }"

definition find_task_to_run :: "ksched \<Rightarrow> (task_ptr \<times> ksched) option" where
  "find_task_to_run s = find_task_from [0..<TASK_PRIORITY_MAX_PRIORITIES] s"

definition switch_to_next_task :: "nat \<Rightarrow> ksched \<Rightarrow> ksched option" where
  "switch_to_next_task c s = do {
     i \<leftarrow> preempt_fetch_of c s;
     kassert (\<not> i);
     this_cpu \<leftarrow> get_this_cpu c s;
     (next_task, s1) \<leftarrow> find_task_to_run s;
     switch2task c (if next_task = Null then idle_thread this_cpu else next_task) s1
   }"

section \<open>Sleeping, waking, yielding\<close>

definition scheduler_put_task2sleep :: "nat \<Rightarrow> task_ptr \<Rightarrow> ksched \<Rightarrow> ksched option" where
  "scheduler_put_task2sleep c tk s = do {
     i \<leftarrow> preempt_fetch_of c s;
     kassert (tk \<noteq> Null \<and> \<not> i);
     t \<leftarrow> get_task (tasks s) tk;
     kassert (state t \<noteq> TASK_STATE_SLEEPING);
     cpu \<leftarrow> get_this_cpu c s;
     s1 \<leftarrow> (if tk \<noteq> curr_thread cpu then prio_remove (prio_index (prio t)) tk s else Some s);
     s2 \<leftarrow> upd (state_update (\<lambda>_. TASK_STATE_SLEEPING)) tk s1;
     sleep_insert_back tk s2
   }"

definition scheduler_attempt_wake :: "task_ptr \<Rightarrow> ksched \<Rightarrow> ksched option" where
  "scheduler_attempt_wake tk s = do {
     t \<leftarrow> get_task (tasks s) tk;
     if state t = TASK_STATE_SLEEPING then do {
       s1 \<leftarrow> sleep_remove tk s;
       s2 \<leftarrow> upd (state_update (\<lambda>_. TASK_STATE_READY)) tk s1;
       prio_insert_front (prio_index (prio t)) tk s2
     } else Some s
   }"

definition scheduler_yield :: "nat \<Rightarrow> ksched \<Rightarrow> ksched option" where
  "scheduler_yield c s = do {
     let s0 = set_IF False c s;
     tk \<leftarrow> scheduler_curr_task c s0;
     s1 \<leftarrow> save_task_context c tk s0;
     t \<leftarrow> get_task (tasks s1) tk;
     s2 \<leftarrow> (if state t \<noteq> TASK_STATE_SLEEPING then do {
              kassert (rr_next t = Null \<and> rr_prev t = Null);
              prio_insert_back (prio_index (prio t)) tk s1
            } else Some s1);
     switch_to_next_task c s2
   }"

section \<open>Creation and cleanup\<close>

definition scheduler_new_tid :: "ksched \<Rightarrow> u64 \<times> ksched" where
  "scheduler_new_tid s = (task_id_counter s + 1, s\<lparr>task_id_counter := task_id_counter s + 1\<rparr>)"

definition zero_jmpbuf :: jmpbuf where
  "zero_jmpbuf = \<lparr>rip = 0, rsp = 0, rbp = 0, rbx = 0, r12 = 0, r13 = 0, r14 = 0, r15 = 0\<rparr>"

text \<open>The zeroed memory of \<open>kcalloc\<close> read as a task.\<close>

definition zero_task :: task where
  "zero_task = \<lparr>tid = 0, gid = 0, tg_leader = Null, parent = Null, first_child = Null, sibling_prev = Null,
     sibling_next = Null, stacks = [], kernel_stack = 0, stack = 0, stack_size = 0, pmc = 0,
     jctx = zero_jmpbuf, fs_base = 0, flags = 0, state = TASK_STATE_UNITIALIZED,
     prio = TASK_PRIORITY_CRITICAL, rr_next = Null, rr_prev = Null\<rparr>"

text \<open>The branch of \<open>scheduler_spawn_task\<close> that sets the thread group and the sibling links.\<close>

definition link_sibling :: "task_ptr \<Rightarrow> task_ptr \<Rightarrow> bool \<Rightarrow> ksched \<Rightarrow> ksched option" where
  "link_sibling new par grp s =
     (if grp then do {
        p \<leftarrow> get_task (tasks s) par;
        s1 \<leftarrow> upd (\<lambda>t. t\<lparr>gid := gid p, tg_leader := par, sibling_prev := Null, sibling_next := first_child p\<rparr>) new s;
        s2 \<leftarrow> (if first_child p \<noteq> Null then upd (sibling_prev_update (\<lambda>_. new)) (first_child p) s1 else Some s1);
        upd (first_child_update (\<lambda>_. new)) par s2
      } else upd (\<lambda>t. t\<lparr>gid := tid t, tg_leader := Null, sibling_prev := Null, sibling_next := Null\<rparr>) new s)"

definition alloc_stack :: "nat \<Rightarrow> ksched \<Rightarrow> (nat \<times> ksched) option" where
  "alloc_stack sz s = do {
     (pg, fs) \<leftarrow> page_alloc (psize2order sz) (phys s);
     a \<leftarrow> page2phys (pages fs) pg;
     Some (a, s\<lparr>phys := fs\<rparr>)
   }"

definition scheduler_spawn_task ::
  "task_ptr \<Rightarrow> nat \<Rightarrow> u8 \<Rightarrow> nat \<Rightarrow> ksched \<Rightarrow> (task_ptr \<times> ksched) option" where
  "scheduler_spawn_task parent_proc map_ctx fl stacksize s = do {
     let new = Ref (length (tasks s));
     let (id, s1) = scheduler_new_tid (s\<lparr>tasks := tasks s @ [zero_task]\<rparr>);
     s2 \<leftarrow> upd (\<lambda>t. t\<lparr>tid := ucast id, parent := parent_proc, first_child := Null\<rparr>) new s1;
     s3 \<leftarrow> link_sibling new parent_proc (fl AND SPAWN_TASK_THREAD_GROUP \<noteq> 0) s2;
     (stack_phys, s4) \<leftarrow> alloc_stack stacksize s3;
     s5 \<leftarrow> upd (\<lambda>t. t\<lparr>stack_size := stacksize, stacks := [stack_phys],
                    stack := of_nat (stack_phys + stacksize - 1)\<rparr>) new s4;
     s6 \<leftarrow> (if fl AND SPAWN_TASK_NO_KERNEL_STACK \<noteq> 0 then upd (kernel_stack_update (\<lambda>_. 0)) new s5
            else do {
              (kernel_stack_phys, s') \<leftarrow> alloc_stack KERNEL_STACK_SIZE s5;
              upd (\<lambda>t. t\<lparr>stacks := stacks t @ [kernel_stack_phys],
                        stack := of_nat (kernel_stack_phys + KERNEL_STACK_SIZE)\<rparr>) new s'
            });
     s7 \<leftarrow> upd (\<lambda>t. t\<lparr>jctx := zero_jmpbuf, flags := 0, prio := TASK_PRIORITY_IDLE,
                    state := TASK_STATE_UNITIALIZED, rr_next := Null, rr_prev := Null\<rparr>) new s6;
     s8 \<leftarrow> sleep_insert_front new s7;
     s9 \<leftarrow> upd (pmc_update (\<lambda>_. map_ctx)) new s8;
     Some (new, s9)
   }"

text \<open>Writing one 64-bit word below the stack pointer of a task.\<close>

definition push_word :: "task_ptr \<Rightarrow> u64 \<Rightarrow> ksched \<Rightarrow> ksched option" where
  "push_word tk v s = do {
     s1 \<leftarrow> upd (\<lambda>t. t\<lparr>stack := stack t - 8\<rparr>) tk s;
     t \<leftarrow> get_task (tasks s1) tk;
     Some (s1\<lparr>kmem := (kmem s1)(stack t := v)\<rparr>)
   }"

definition start_context :: "u64 \<Rightarrow> u64 \<Rightarrow> jmpbuf" where
  "start_context entry sp = \<lparr>rip = entry, rsp = sp, rbp = sp, rbx = 0, r12 = 0, r13 = 0, r14 = 0, r15 = 0\<rparr>"

definition scheduler_new_kernel_thread ::
  "u64 \<Rightarrow> u64 \<Rightarrow> task_priority \<Rightarrow> ksched \<Rightarrow> (task_ptr \<times> ksched) option" where
  "scheduler_new_kernel_thread entry args pr s = do {
     (thread, s1) \<leftarrow> scheduler_spawn_task (kernel_task s) (kernel_pmc s) SPAWN_TASK_THREAD_GROUP (64 * 1024) s;
     s2 \<leftarrow> upd (\<lambda>t. t\<lparr>prio := pr, stack := stack t + hhdm_offset s1\<rparr>) thread s1;
     s3 \<leftarrow> push_word thread entry s2;
     s4 \<leftarrow> push_word thread args s3;
     s5 \<leftarrow> upd (\<lambda>t. t\<lparr>jctx := start_context (sym_thread_spinup s4) (stack t), fs_base := 0,
                    flags := TASK_FLAGS_KERNEL_THREAD, state := TASK_STATE_SLEEPING\<rparr>) thread s4;
     s6 \<leftarrow> scheduler_attempt_wake thread s5;
     Some (thread, s6)
   }"

definition scheduler_new_idle_thread :: "ksched \<Rightarrow> (task_ptr \<times> ksched) option" where
  "scheduler_new_idle_thread s = do {
     (thread, s1) \<leftarrow> scheduler_spawn_task (kernel_task s) (kernel_pmc s)
        (SPAWN_TASK_NO_KERNEL_STACK OR SPAWN_TASK_THREAD_GROUP) (64 * 1024) s;
     s2 \<leftarrow> upd (\<lambda>t. t\<lparr>prio := TASK_PRIORITY_IDLE, stack := stack t + hhdm_offset s1\<rparr>) thread s1;
     s3 \<leftarrow> upd (\<lambda>t. t\<lparr>jctx := start_context (sym_kernel_idle s2) (stack t), fs_base := 0,
                    flags := TASK_FLAGS_KERNEL_THREAD OR TASK_FLAGS_KERNEL_IDLE,
                    state := TASK_STATE_READY\<rparr>) thread s2;
     s4 \<leftarrow> sleep_remove thread s3;
     Some (thread, s4)
   }"

definition init_scheduling :: "u64 \<Rightarrow> ksched \<Rightarrow> ksched option" where
  "init_scheduling kernel_reaper s = do {
     (kt, s1) \<leftarrow> scheduler_spawn_task Null (kernel_pmc s) SPAWN_TASK_NO_KERNEL_STACK (64 * 1024) s;
     (_, s2) \<leftarrow> scheduler_new_kernel_thread kernel_reaper 0 TASK_PRIORITY_CRITICAL (s1\<lparr>kernel_task := kt\<rparr>);
     Some s2
   }"

text \<open>The loop over the children, bounded by the number of tasks: a longer walk is a cyclic list.\<close>

fun kill_children :: "nat \<Rightarrow> task_ptr \<Rightarrow> ksched \<Rightarrow> ksched option" where
  "kill_children fuel Null s = Some s"
| "kill_children 0 child s = None"
| "kill_children (Suc fuel) child s = do {
     s1 \<leftarrow> upd (state_update (\<lambda>_. TASK_STATE_KILLED)) child s;
     t \<leftarrow> get_task (tasks s1) child;
     kill_children fuel (sibling_next t) s1
   }"

fun free_stacks :: "nat list \<Rightarrow> nat \<Rightarrow> ksched \<Rightarrow> ksched option" where
  "free_stacks [] order s = Some s"
| "free_stacks (a # as) order s = do {
     fs \<leftarrow> page_free (phys2page a) order (phys s);
     free_stacks as order (s\<lparr>phys := fs\<rparr>)
   }"

definition unlink_sibling :: "task_ptr \<Rightarrow> ksched \<Rightarrow> ksched option" where
  "unlink_sibling tk s = do {
     t \<leftarrow> get_task (tasks s) tk;
     p \<leftarrow> get_task (tasks s) (parent t);
     s1 \<leftarrow> (if first_child p = tk then upd (first_child_update (\<lambda>_. sibling_next t)) (parent t) s else Some s);
     t1 \<leftarrow> get_task (tasks s1) tk;
     s2 \<leftarrow> (if sibling_next t1 \<noteq> Null then upd (sibling_prev_update (\<lambda>_. sibling_prev t1)) (sibling_next t1) s1
            else Some s1);
     t2 \<leftarrow> get_task (tasks s2) tk;
     (if sibling_prev t2 \<noteq> Null then upd (sibling_next_update (\<lambda>_. sibling_next t2)) (sibling_prev t2) s2
      else Some s2)
   }"

definition scheduler_cleanup_task :: "task_ptr \<Rightarrow> ksched \<Rightarrow> ksched option" where
  "scheduler_cleanup_task tk s = do {
     t \<leftarrow> get_task (tasks s) tk;
     kassert (state t = TASK_STATE_KILLED);
     kassert (rr_next t = Null \<and> rr_prev t = Null);
     s1 \<leftarrow> kill_children (length (tasks s)) (first_child t) s;
     s2 \<leftarrow> unlink_sibling tk s1;
     kassert (stacks t \<noteq> []);
     fs \<leftarrow> page_free (phys2page (stacks t ! 0)) (psize2order (stack_size t)) (phys s2);
     free_stacks (tl (stacks t)) (psize2order KERNEL_STACK_SIZE) (s2\<lparr>phys := fs\<rparr>)
   }"

end
