(* ===== verification/Kevents.thy ===== *)
theory Kevents
  imports Tasks
begin

text \<open>
  Kernel events, \<open>kernel/src/misc/kevent.c\<close>, and the part of \<open>kernel/src/proc/scheduler.c\<close> that
  launches or polls them. An event is an index into the list of event objects, a subscriber node
  an index into the list of the nodes that \<open>kcalloc\<close> returned. \<open>kevents_poll\<close> gives up the
  processor in the middle: it is the pair \<open>kevents_poll\<close>, up to the switch to another task, and
  \<open>kevents_poll_resume\<close>, from the return of \<open>scheduler_yield\<close> on.
\<close>

section \<open>State\<close>

definition KEVENT_POLL_INVALID :: int where
  "KEVENT_POLL_INVALID = - 1"

definition KEVENT_SUBSCRIBER_POOL_REFILL_AMOUNT :: nat where
  "KEVENT_SUBSCRIBER_POOL_REFILL_AMOUNT = 128"

type_synonym sub_ptr = "nat ptr"

record kevent_subscriber =
  sub_next :: sub_ptr
  sub_prev :: sub_ptr
  sub_event :: "nat ptr"
  subscribed_thread :: task_ptr

record kevent =
  unprocessed :: u64
  subscribers :: sub_ptr

record kevent_state =
  sched :: ksched
  subs :: "kevent_subscriber list"
  subscriber_pool :: sub_ptr
  events :: "kevent list"
  reap_event :: nat

definition get_sub :: "kevent_subscriber list \<Rightarrow> sub_ptr \<Rightarrow> kevent_subscriber option" where
  "get_sub h p = (case p of Ref i \<Rightarrow> if i < length h then Some (h ! i) else None | _ \<Rightarrow> None)"

definition upd_sub ::
  "(kevent_subscriber \<Rightarrow> kevent_subscriber) \<Rightarrow> kevent_subscriber list \<Rightarrow> sub_ptr \<Rightarrow> kevent_subscriber list option" where
  "upd_sub f h p = (case p of Ref i \<Rightarrow> if i < length h then Some (h[i := f (h ! i)]) else None | _ \<Rightarrow> None)"

definition get_event :: "nat \<Rightarrow> kevent_state \<Rightarrow> kevent option" where
  "get_event e k = (if e < length (events k) then Some (events k ! e) else None)"

definition put_event :: "nat \<Rightarrow> kevent \<Rightarrow> kevent_state \<Rightarrow> kevent_state" where
  "put_event e ev k = k\<lparr>events := (events k)[e := ev]\<rparr>"

section \<open>The pool of subscriber nodes\<close>

fun pool_refill :: "nat \<Rightarrow> kevent_state \<Rightarrow> kevent_state" where
  "pool_refill 0 k = k"
| "pool_refill (Suc n) k =
     pool_refill n
       (k\<lparr>subs := subs k @ [\<lparr>sub_next = subscriber_pool k, sub_prev = Null, sub_event = Null,
                             subscribed_thread = Null\<rparr>],
          subscriber_pool := Ref (length (subs k))\<rparr>)"

definition subscriber_pool_alloc :: "kevent_state \<Rightarrow> (sub_ptr \<times> kevent_state) option" where
  "subscriber_pool_alloc k = do {
     let k1 = (if subscriber_pool k = Null then pool_refill KEVENT_SUBSCRIBER_POOL_REFILL_AMOUNT k else k);
     let ret = subscriber_pool k1;
     n \<leftarrow> get_sub (subs k1) ret;
     Some (ret, k1\<lparr>subscriber_pool := sub_next n\<rparr>)
   }"

definition subscriber_pool_free :: "sub_ptr \<Rightarrow> kevent_state \<Rightarrow> kevent_state option" where
  "subscriber_pool_free n k = do {
     h \<leftarrow> upd_sub (sub_next_update (\<lambda>_. subscriber_pool k)) (subs k) n;
     Some (k\<lparr>subs := h, subscriber_pool := n\<rparr>)
   }"

section \<open>Subscriber lists\<close>

definition subscriber_list_link :: "nat \<Rightarrow> task_ptr \<Rightarrow> kevent_state \<Rightarrow> kevent_state option" where
  "subscriber_list_link e t k = do {
     (new, k1) \<leftarrow> subscriber_pool_alloc k;
     ev \<leftarrow> get_event e k1;
     h1 \<leftarrow> upd_sub (\<lambda>n. n\<lparr>sub_event := Ref e, subscribed_thread := t, sub_prev := Null,
                         sub_next := subscribers ev\<rparr>) (subs k1) new;
     h2 \<leftarrow> (if subscribers ev \<noteq> Null then upd_sub (sub_prev_update (\<lambda>_. new)) h1 (subscribers ev) else Some h1);
     Some (put_event e (ev\<lparr>subscribers := new\<rparr>) (k1\<lparr>subs := h2\<rparr>))
   }"

text \<open>The search for the node of a task; the walk is bounded by the number of nodes.\<close>

fun find_subscriber :: "nat \<Rightarrow> task_ptr \<Rightarrow> kevent_subscriber list \<Rightarrow> sub_ptr \<Rightarrow> sub_ptr option" where
  "find_subscriber 0 t h p = None"
| "find_subscriber (Suc fuel) t h p = do {
     n \<leftarrow> get_sub h p;
     if subscribed_thread n \<noteq> t then find_subscriber fuel t h (sub_next n) else Some p
   }"

definition subscriber_list_unlink :: "nat \<Rightarrow> task_ptr \<Rightarrow> kevent_state \<Rightarrow> kevent_state option" where
  "subscriber_list_unlink e t k = do {
     ev \<leftarrow> get_event e k;
     p \<leftarrow> find_subscriber (length (subs k)) t (subs k) (subscribers ev);
     n \<leftarrow> get_sub (subs k) p;
     let ev' = (if subscribers ev = p then ev\<lparr>subscribers := sub_next n\<rparr> else ev);
     h1 \<leftarrow> (if sub_prev n \<noteq> Null then upd_sub (sub_next_update (\<lambda>_. sub_next n)) (subs k) (sub_prev n)
            else Some (subs k));
     n1 \<leftarrow> get_sub h1 p;
     h2 \<leftarrow> (if sub_next n1 \<noteq> Null then upd_sub (sub_prev_update (\<lambda>_. sub_prev n1)) h1 (sub_next n1)
            else Some h1);
     subscriber_pool_free p (put_event e ev' (k\<lparr>subs := h2\<rparr>))
   }"

section \<open>Polling\<close>

fun find_unprocessed_from :: "nat \<Rightarrow> nat list \<Rightarrow> kevent_state \<Rightarrow> (int \<times> kevent_state) option" where
  "find_unprocessed_from i [] k = Some (KEVENT_POLL_INVALID, k)"
| "find_unprocessed_from i (e # es) k = do {
     ev \<leftarrow> get_event e k;
     if unprocessed ev \<noteq> 0
     then Some (int i, put_event e (ev\<lparr>unprocessed := unprocessed ev - 1\<rparr>) k)
     else find_unprocessed_from (Suc i) es k
   }"

definition find_unprocessed :: "nat list \<Rightarrow> kevent_state \<Rightarrow> (int \<times> kevent_state) option" where
  "find_unprocessed es k = find_unprocessed_from 0 es k"

fun kevent_subscribe :: "nat list \<Rightarrow> task_ptr \<Rightarrow> kevent_state \<Rightarrow> kevent_state option" where
  "kevent_subscribe [] t k = Some k"
| "kevent_subscribe (e # es) t k = do {
     k1 \<leftarrow> subscriber_list_link e t k;
     kevent_subscribe es t k1
   }"

fun kevent_unsubscribe :: "nat list \<Rightarrow> task_ptr \<Rightarrow> kevent_state \<Rightarrow> kevent_state option" where
  "kevent_unsubscribe [] t k = Some k"
| "kevent_unsubscribe (e # es) t k = do {
     k1 \<leftarrow> subscriber_list_unlink e t k;
     kevent_unsubscribe es t k1
   }"

text \<open>Running an operation of the scheduler inside the event state.\<close>

definition with_sched :: "(ksched \<Rightarrow> ksched option) \<Rightarrow> kevent_state \<Rightarrow> kevent_state option" where
  "with_sched f k = map_option (\<lambda>s. k\<lparr>sched := s\<rparr>) (f (sched k))"

text \<open>The result \<open>Inl (out, k)\<close> is an immediate return; \<open>Inr (intstate, this, k)\<close> is a thread
  that sleeps, with the values its stack frame keeps.\<close>

definition kevents_poll ::
  "nat \<Rightarrow> nat list \<Rightarrow> kevent_state \<Rightarrow> ((int \<times> kevent_state) + (bool \<times> task_ptr \<times> kevent_state)) option" where
  "kevents_poll c es k = do {
     intstate \<leftarrow> preempt_fetch_of c (sched k);
     let k0 = k\<lparr>sched := set_IF False c (sched k)\<rparr>;
     this_thread \<leftarrow> scheduler_curr_task c (sched k0);
     (out, k1) \<leftarrow> find_unprocessed es k0;
     if out \<noteq> KEVENT_POLL_INVALID
     then Some (Inl (out, if intstate then k1\<lparr>sched := set_IF True c (sched k1)\<rparr> else k1))
     else do {
       k2 \<leftarrow> kevent_subscribe es this_thread k1;
       k3 \<leftarrow> with_sched (scheduler_put_task2sleep c this_thread) k2;
       k4 \<leftarrow> with_sched (scheduler_yield c) k3;
       Some (Inr (intstate, this_thread, k4))
     }
   }"

definition kevents_poll_resume ::
  "nat \<Rightarrow> nat list \<Rightarrow> bool \<Rightarrow> task_ptr \<Rightarrow> kevent_state \<Rightarrow> (int \<times> kevent_state) option" where
  "kevents_poll_resume c es intstate this_thread k = do {
     (out, k1) \<leftarrow> find_unprocessed es k;
     k2 \<leftarrow> kevent_unsubscribe es this_thread k1;
     Some (out, if intstate then k2\<lparr>sched := set_IF True c (sched k2)\<rparr> else k2)
   }"

section \<open>Launching\<close>

fun wake_subscribers :: "nat \<Rightarrow> sub_ptr \<Rightarrow> kevent_state \<Rightarrow> kevent_state option" where
  "wake_subscribers fuel Null k = Some k"
| "wake_subscribers 0 p k = None"
| "wake_subscribers (Suc fuel) p k = do {
     n \<leftarrow> get_sub (subs k) p;
     k1 \<leftarrow> with_sched (scheduler_attempt_wake (subscribed_thread n)) k;
     wake_subscribers fuel (sub_next n) k1
   }"

definition kevent_launch :: "nat \<Rightarrow> kevent_state \<Rightarrow> kevent_state option" where
  "kevent_launch e k = do {
     ev \<leftarrow> get_event e k;
     kassert (subscribers ev \<noteq> Null);
     wake_subscribers (length (subs k)) (subscribers ev)
       (put_event e (ev\<lparr>unprocessed := unprocessed ev + 1\<rparr>) k)
   }"

section \<open>Preemption, exit and the reaper\<close>

text \<open>\<open>kevent_launch\<close> runs with interrupts off here, so its save and restore of the flag is void.\<close>

definition scheduler_preempt :: "nat \<Rightarrow> kevent_state \<Rightarrow> kevent_state option" where
  "scheduler_preempt c k = do {
     i \<leftarrow> preempt_fetch_of c (sched k);
     kassert (\<not> i);
     this_cpu \<leftarrow> get_this_cpu c (sched k);
     let curr_task = curr_thread this_cpu;
     let s1 = put_cpu c (this_cpu\<lparr>curr_thread := Null\<rparr>) (sched k);
     t \<leftarrow> get_task (tasks s1) curr_task;
     if state t = TASK_STATE_KILLED then do {
       s2 \<leftarrow> reap_insert_back curr_task s1;
       k1 \<leftarrow> kevent_launch (reap_event k) (k\<lparr>sched := s2\<rparr>);
       with_sched (switch_to_next_task c) k1
     } else do {
       s2 \<leftarrow> upd (state_update (\<lambda>_. TASK_STATE_READY)) curr_task s1;
       if curr_task = idle_thread this_cpu then with_sched (switch_to_next_task c) (k\<lparr>sched := s2\<rparr>)
       else do {
         s3 \<leftarrow> save_task_context c curr_task s2;
         s4 \<leftarrow> prio_insert_back (prio_index (prio t)) curr_task s3;
         with_sched (switch_to_next_task c) (k\<lparr>sched := s4\<rparr>)
       }
     }
   }"

definition scheduler_kernel_thread_exit :: "nat \<Rightarrow> kevent_state \<Rightarrow> kevent_state option" where
  "scheduler_kernel_thread_exit c k = do {
     let s0 = set_IF False c (sched k);
     curr_task \<leftarrow> scheduler_curr_task c s0;
     s1 \<leftarrow> upd (state_update (\<lambda>_. TASK_STATE_KILLED)) curr_task s0;
     s2 \<leftarrow> reap_insert_back curr_task s1;
     k1 \<leftarrow> kevent_launch (reap_event k) (k\<lparr>sched := s2\<rparr>);
     with_sched (switch_to_next_task c) k1
   }"

text \<open>One round of the reaper thread after its poll returned \<open>ret\<close>.\<close>

definition kernel_reaper_round :: "int \<Rightarrow> kevent_state \<Rightarrow> kevent_state option" where
  "kernel_reaper_round ret k = do {
     kassert (ret = 0);
     (task_to_kill, s1) \<leftarrow> reap_pop (sched k);
     s2 \<leftarrow> scheduler_cleanup_task task_to_kill s1;
     Some (k\<lparr>sched := s2\<rparr>)
   }"

end
