(* ===== verification/Timer_Heap.thy ===== *)
theory Timer_Heap
  imports Kevents "HOL-Library.Multiset"
begin

text \<open>
  The system timers of \<open>kernel/src/misc/time.c\<close>: a binary min-heap of timer nodes ordered by their
  expiration time, and the tick handler that launches the events of the expired ones. The event
  is the first member of a timer node, so a node is the index of its event. \<open>expiration\<close> gives the
  \<open>expiration_time\<close> of each node, and the array \<open>heap_array\<close> has one entry per slot of its capacity.
  \<open>krealloc\<close> copies the array between memory blocks, and what it copies is a parameter here: the
  properties need that it keeps the entries that fit. The \<open>int\<close> indices are natural numbers: the
  array of a heap of \<open>2 ^ 30\<close> timers would take 8 GiB.
\<close>

section \<open>State\<close>

record timer_heap =
  heap_array :: "nat list"
  heap_capacity :: nat
  heap_size :: nat
  expiration :: "nat \<Rightarrow> u64"

record timer_state =
  kev :: kevent_state
  timers :: timer_heap
  system_ticks :: u64
  unix_time :: u64

definition TIMER_NODE_LEFT :: nat where
  "TIMER_NODE_LEFT = 1"

definition TIMER_NODE_RIGHT :: nat where
  "TIMER_NODE_RIGHT = 2"

definition MIN_TIMER_HEAP_SIZE :: nat where
  "MIN_TIMER_HEAP_SIZE = 64"

definition swap :: "nat \<Rightarrow> nat \<Rightarrow> 'a list \<Rightarrow> 'a list" where
  "swap i j a = a[i := a ! j, j := a ! i]"

definition get_child :: "nat \<Rightarrow> nat \<Rightarrow> nat" where
  "get_child index dir = 2 * index + dir"

definition get_parent :: "nat \<Rightarrow> nat" where
  "get_parent index = (index - 1) div 2"

section \<open>Heap operations\<close>

definition smaller_child :: "(nat \<Rightarrow> u64) \<Rightarrow> nat \<Rightarrow> nat list \<Rightarrow> nat \<Rightarrow> nat" where
  "smaller_child ex n a idx =
     (let child_left = get_child idx TIMER_NODE_LEFT;
          child_right = get_child idx TIMER_NODE_RIGHT;
          r = (if child_left < n \<and> ex (a ! child_left) < ex (a ! idx) then child_left else idx)
      in if child_right < n \<and> ex (a ! child_right) < ex (a ! r) then child_right else r)"

function min_heapify :: "(nat \<Rightarrow> u64) \<Rightarrow> nat \<Rightarrow> nat list \<Rightarrow> nat \<Rightarrow> nat list" where
  "min_heapify ex n a idx =
     (let right_idx = smaller_child ex n a idx in
      if right_idx = idx then a else min_heapify ex n (swap idx right_idx a) right_idx)"
  by pat_completeness auto
termination
  by (relation "measure (\<lambda>(ex, n, a, idx). n - idx)")
    (auto simp: smaller_child_def get_child_def TIMER_NODE_LEFT_def TIMER_NODE_RIGHT_def Let_def split: if_splits)

declare min_heapify.simps [simp del]

function sift_up :: "(nat \<Rightarrow> u64) \<Rightarrow> nat list \<Rightarrow> nat \<Rightarrow> nat list" where
  "sift_up ex a idx =
     (if idx \<noteq> 0 \<and> ex (a ! get_parent idx) > ex (a ! idx)
      then sift_up ex (swap idx (get_parent idx) a) (get_parent idx) else a)"
  by pat_completeness auto
termination
  by (relation "measure (\<lambda>(ex, a, idx). idx)") (auto simp: get_parent_def)

declare sift_up.simps [simp del]

definition timer_insert :: "(nat list \<Rightarrow> nat \<Rightarrow> nat list) \<Rightarrow> nat \<Rightarrow> timer_heap \<Rightarrow> timer_heap option" where
  "timer_insert realloc node h =
     (let cap = (if heap_size h = heap_capacity h
                 then if heap_capacity h = 0 then 3000 else heap_capacity h * 2
                 else heap_capacity h);
          a = (if heap_size h = heap_capacity h then realloc (heap_array h) cap else heap_array h);
          idx = heap_size h
      in if idx < length a
         then Some (h\<lparr>heap_array := sift_up (expiration h) (a[idx := node]) idx,
                      heap_capacity := cap, heap_size := heap_size h + 1\<rparr>)
         else None)"

definition timer_peek :: "timer_heap \<Rightarrow> nat option" where
  "timer_peek h = (if heap_size h = 0 then None else Some (heap_array h ! 0))"

definition timer_pop :: "(nat list \<Rightarrow> nat \<Rightarrow> nat list) \<Rightarrow> timer_heap \<Rightarrow> (nat \<times> timer_heap) option" where
  "timer_pop realloc h =
     (if heap_size h = 0 then None
      else if heap_size h = 1 then Some (heap_array h ! 0, h\<lparr>heap_size := 0\<rparr>)
      else
        let root = heap_array h ! 0;
            a = (heap_array h)[0 := heap_array h ! (heap_size h - 1)];
            n = heap_size h - 1;
            shrink = MIN_TIMER_HEAP_SIZE < n \<and> n * 4 < heap_capacity h;
            cap = (if shrink then heap_capacity h div 2 else heap_capacity h);
            a' = (if shrink then realloc a cap else a)
        in Some (root, h\<lparr>heap_array := min_heapify (expiration h) n a' 0,
                         heap_capacity := cap, heap_size := n\<rparr>))"

section \<open>Ticks\<close>

text \<open>The dispatch loop of \<open>system_timer_handler\<close>; the list holds the nodes whose events were
  launched, in order.\<close>

function dispatch ::
  "(nat list \<Rightarrow> nat \<Rightarrow> nat list) \<Rightarrow> u64 \<Rightarrow> timer_heap \<Rightarrow> kevent_state \<Rightarrow> (nat list \<times> timer_heap \<times> kevent_state) option" where
  "dispatch realloc ticks h k =
     (case timer_peek h of
        None \<Rightarrow> Some ([], h, k)
      | Some timer \<Rightarrow>
          if expiration h timer > ticks then Some ([], h, k)
          else (case timer_pop realloc h of
                  None \<Rightarrow> None
                | Some (node, h') \<Rightarrow>
                    (case kevent_launch node k of
                       None \<Rightarrow> None
                     | Some k' \<Rightarrow> map_option (\<lambda>(launched, r). (node # launched, r)) (dispatch realloc ticks h' k'))))"
  by pat_completeness auto
termination
  by (relation "measure (\<lambda>(realloc, ticks, h, k). heap_size h)")
    (auto simp: timer_pop_def timer_peek_def Let_def split: if_splits)

declare dispatch.simps [simp del]

definition system_timer_handler ::
  "(nat list \<Rightarrow> nat \<Rightarrow> nat list) \<Rightarrow> timer_state \<Rightarrow> (nat list \<times> timer_state) option" where
  "system_timer_handler realloc s =
     (let t = system_ticks s + 1;
          u = (if t mod 1000 = 0 then unix_time s + 1 else unix_time s)
      in map_option (\<lambda>(launched, h, k). (launched, s\<lparr>system_ticks := t, unix_time := u, timers := h, kev := k\<rparr>))
           (dispatch realloc t (timers s) (kev s)))"

definition register_system_timer ::
  "(nat list \<Rightarrow> nat \<Rightarrow> nat list) \<Rightarrow> nat \<Rightarrow> u64 \<Rightarrow> timer_state \<Rightarrow> timer_state option" where
  "register_system_timer realloc tmr ms s =
     (if tmr < length (events (kev s))
      then map_option
             (\<lambda>h. s\<lparr>timers := h, kev := put_event tmr \<lparr>unprocessed = 0, subscribers = Null\<rparr> (kev s)\<rparr>)
             (timer_insert realloc tmr
                ((timers s)\<lparr>expiration := (expiration (timers s))(tmr := system_ticks s + ms)\<rparr>))
      else None)"

text \<open>\<open>scheduler_sleep_for\<close> up to the switch to another task (\<open>Inr\<close>), after which the thread goes on
  with \<open>kevents_poll_resume\<close> and the test that follows it. \<open>timer\<close> is the node on its stack.\<close>

definition scheduler_sleep_for ::
  "(nat list \<Rightarrow> nat \<Rightarrow> nat list) \<Rightarrow> nat \<Rightarrow> nat \<Rightarrow> u64 \<Rightarrow> timer_state \<Rightarrow> (timer_state + (bool \<times> task_ptr \<times> timer_state)) option" where
  "scheduler_sleep_for realloc c timer ms s = do {
     s1 \<leftarrow> register_system_timer realloc timer ms s;
     r \<leftarrow> kevents_poll c [timer] (kev s1);
     (case r of
        Inl (ret, k) \<Rightarrow> do { kassert (ret = 0); Some (Inl (s1\<lparr>kev := k\<rparr>)) }
      | Inr (intstate, this, k) \<Rightarrow> Some (Inr (intstate, this, s1\<lparr>kev := k\<rparr>)))
   }"

definition scheduler_sleep_for_resume ::
  "nat \<Rightarrow> nat \<Rightarrow> bool \<Rightarrow> task_ptr \<Rightarrow> timer_state \<Rightarrow> timer_state option" where
  "scheduler_sleep_for_resume c timer intstate this s = do {
     (ret, k) \<leftarrow> kevents_poll_resume c [timer] intstate this (kev s);
     kassert (ret = 0);
     Some (s\<lparr>kev := k\<rparr>)
   }"

end
