(* ===== verification/Timer_Queue.thy ===== *)
theory Timer_Queue
  imports Timer_Heap
begin

text \<open>
  The timer heap as a priority queue: the heap order and its preservation by \<open>sift_up\<close> and
  \<open>min_heapify\<close>, the interface of a queue of timers as a locale, its interpretation on the heap
  operations, and the behaviour of the dispatch loop.
\<close>

section \<open>Interface of a timer queue\<close>

inductive pops :: "('h \<Rightarrow> ('n \<times> 'h) option) \<Rightarrow> 'h \<Rightarrow> 'n list \<Rightarrow> 'h \<Rightarrow> bool" for pop where
  pops_Nil: "pops pop h [] h"
| pops_Cons: "pop h = Some (n, h1) \<Longrightarrow> pops pop h1 ns h2 \<Longrightarrow> pops pop h (n # ns) h2"

inductive_cases pops_NilE: "pops pop h [] h'"
inductive_cases pops_ConsE: "pops pop h (n # ns) h'"

locale timer_queue =
  fixes ok :: "'h \<Rightarrow> bool"
    and pending :: "'h \<Rightarrow> 'n multiset"
    and due :: "'h \<Rightarrow> 'n \<Rightarrow> 'k::linorder"
    and peek :: "'h \<Rightarrow> 'n option"
    and pop :: "'h \<Rightarrow> ('n \<times> 'h) option"
  assumes peek_min: "ok h \<Longrightarrow> peek h = Some n \<Longrightarrow> n \<in># pending h \<and> (\<forall>m \<in># pending h. due h n \<le> due h m)"
    and peek_None: "ok h \<Longrightarrow> peek h = None \<longleftrightarrow> pending h = {#}"
    and pop_peek: "ok h \<Longrightarrow> peek h = Some n \<Longrightarrow>
          \<exists>h'. pop h = Some (n, h') \<and> ok h' \<and> due h' = due h \<and> pending h = add_mset n (pending h')"
begin

lemma pop_some:
  assumes "ok h" "pop h = Some (n, h')" "pending h \<noteq> {#}"
  shows "ok h'" "due h' = due h" "pending h = add_mset n (pending h')" "peek h = Some n"
proof -
  obtain m where m: "peek h = Some m" using assms peek_None by (cases "peek h") auto
  from pop_peek [OF assms(1) m] assms(2) m
  show "ok h'" "due h' = due h" "pending h = add_mset n (pending h')" "peek h = Some n"
    by auto
qed

text \<open>Taking timers off the queue one after the other yields them in the order of their due
  times, and none that remains is due before one that was taken.\<close>

lemma pops_sorted:
  assumes "pops pop h ns h'" "ok h" "length ns \<le> size (pending h)"
  shows "ok h' \<and> due h' = due h \<and> pending h = mset ns + pending h' \<and> sorted (map (due h) ns) \<and>
         (\<forall>n \<in> set ns. \<forall>m \<in># pending h'. due h n \<le> due h m)"
  using assms
proof (induction rule: pops.induct)
  case (pops_Cons h n h1 ns h2)
  have ne: "pending h \<noteq> {#}" using pops_Cons.prems by auto
  note one = pop_some [OF pops_Cons.prems(1) pops_Cons.hyps(1) ne]
  have le: "length ns \<le> size (pending h1)" using pops_Cons.prems(2) one(3) by simp
  from pops_Cons.IH [OF one(1) le] have rest: "ok h2" "due h2 = due h1"
    "pending h1 = mset ns + pending h2" "sorted (map (due h1) ns)"
    "\<forall>n \<in> set ns. \<forall>m \<in># pending h2. due h1 n \<le> due h1 m" by auto
  have "\<forall>m \<in># pending h. due h n \<le> due h m" using peek_min [OF pops_Cons.prems(1) one(4)] by simp
  then have first: "\<forall>m \<in># mset ns + pending h2. due h n \<le> due h m" using one(3) rest(3) by simp
  show ?case using rest one first by auto
qed auto

end

section \<open>The heap order\<close>

definition is_heap :: "(nat \<Rightarrow> u64) \<Rightarrow> nat \<Rightarrow> nat list \<Rightarrow> bool" where
  "is_heap ex n a \<longleftrightarrow> (\<forall>i<n. 0 < i \<longrightarrow> ex (a ! get_parent i) \<le> ex (a ! i))"

definition timer_ok :: "timer_heap \<Rightarrow> bool" where
  "timer_ok h \<longleftrightarrow> heap_size h \<le> heap_capacity h \<and> length (heap_array h) = heap_capacity h \<and>
     is_heap (expiration h) (heap_size h) (heap_array h)"

definition pending_timers :: "timer_heap \<Rightarrow> nat multiset" where
  "pending_timers h = mset (take (heap_size h) (heap_array h))"

text \<open>What the heap needs of \<open>krealloc\<close>: the new block has the size asked for and begins with
  the entries of the old one that fit.\<close>

definition keeps_entries :: "(nat list \<Rightarrow> nat \<Rightarrow> nat list) \<Rightarrow> bool" where
  "keeps_entries realloc \<longleftrightarrow>
     (\<forall>a n. length (realloc a n) = n \<and> take (min (length a) n) (realloc a n) = take (min (length a) n) a)"

lemma get_parent_less: "0 < i \<Longrightarrow> get_parent i < i"
  by (simp add: get_parent_def)

lemma parent_iff: "0 < i \<Longrightarrow> get_parent i = p \<longleftrightarrow> i = 2 * p + 1 \<or> i = 2 * p + 2"
  by (auto simp: get_parent_def)

lemma length_swap [simp]: "length (swap i j a) = length a"
  by (simp add: swap_def)

lemma nth_swap:
  "i < length a \<Longrightarrow> j < length a \<Longrightarrow> k < length a \<Longrightarrow>
   swap i j a ! k = (if k = i then a ! j else if k = j then a ! i else a ! k)"
  by (simp add: swap_def nth_list_update)

lemma mset_take_swap:
  "i < n \<Longrightarrow> j < n \<Longrightarrow> n \<le> length a \<Longrightarrow> mset (take n (swap i j a)) = mset (take n a)"
  using mset_swap [of j "take n a" i] by (simp add: swap_def take_update_swap)

lemma root_minimal:
  assumes "is_heap ex n a" "i < n"
  shows "ex (a ! 0) \<le> ex (a ! i)"
  using assms(2)
proof (induction i rule: less_induct)
  case (less i)
  show ?case
  proof (cases "i = 0")
    case False
    then have "get_parent i < i" by (simp add: get_parent_less)
    with less have "ex (a ! 0) \<le> ex (a ! get_parent i)" by simp
    also have "\<dots> \<le> ex (a ! i)" using assms(1) less.prems False by (simp add: is_heap_def)
    finally show ?thesis .
  qed simp
qed

section \<open>Sifting up\<close>

lemma sift_up_length [simp]: "length (sift_up ex a idx) = length a"
  by (induction ex a idx rule: sift_up.induct) (subst sift_up.simps, simp)

lemma sift_up_mset:
  "idx < n \<Longrightarrow> n \<le> length a \<Longrightarrow> mset (take n (sift_up ex a idx)) = mset (take n a)"
proof (induction ex a idx rule: sift_up.induct)
  case (1 ex a idx)
  show ?case
  proof (cases "idx \<noteq> 0 \<and> ex (a ! get_parent idx) > ex (a ! idx)")
    case True
    have "get_parent idx < n" using 1(2) True get_parent_less [of idx] by auto
    with True show ?thesis using 1 by (subst sift_up.simps) (simp add: mset_take_swap)
  next
    case False
    then show ?thesis by (subst sift_up.simps) auto
  qed
qed

definition heap_except_up :: "(nat \<Rightarrow> u64) \<Rightarrow> nat \<Rightarrow> nat list \<Rightarrow> nat \<Rightarrow> bool" where
  "heap_except_up ex n a idx \<longleftrightarrow>
     (\<forall>i<n. 0 < i \<longrightarrow> i \<noteq> idx \<longrightarrow> ex (a ! get_parent i) \<le> ex (a ! i)) \<and>
     (\<forall>i<n. 0 < i \<longrightarrow> get_parent i = idx \<longrightarrow> 0 < idx \<longrightarrow> ex (a ! get_parent idx) \<le> ex (a ! i))"

lemma heap_except_up_swap:
  assumes inv: "heap_except_up ex n a idx" and n: "idx < n" "n \<le> length a" "0 < idx"
    and gt: "ex (a ! get_parent idx) > ex (a ! idx)"
  shows "heap_except_up ex n (swap idx (get_parent idx) a) (get_parent idx)"
proof -
  let ?p = "get_parent idx" and ?b = "swap idx (get_parent idx) a"
  have p: "?p < idx" using n(3) by (rule get_parent_less)
  have b: "?b ! k = (if k = idx then a ! ?p else if k = ?p then a ! idx else a ! k)" if "k < n" for k
    using that n p by (intro nth_swap) auto
  have par: "get_parent i < n" if "i < n" for i using that by (auto simp: get_parent_def)
  have ord: "ex (a ! get_parent i) \<le> ex (a ! i)" if "i < n" "0 < i" "i \<noteq> idx" for i
    using inv that by (auto simp: heap_except_up_def)
  have up: "ex (a ! ?p) \<le> ex (a ! i)" if "i < n" "0 < i" "get_parent i = idx" for i
    using inv that n(3) by (auto simp: heap_except_up_def)
  have "ex (?b ! get_parent i) \<le> ex (?b ! i)" if i: "i < n" "0 < i" "i \<noteq> ?p" for i
  proof (cases "i = idx")
    case True
    then show ?thesis using b [OF n(1)] b [of ?p] p n gt by auto
  next
    case False
    consider "get_parent i = idx" | "get_parent i = ?p" | "get_parent i \<noteq> idx" "get_parent i \<noteq> ?p" by blast
    then show ?thesis
    proof cases
      case 1
      then show ?thesis using up [OF i(1,2)] b [OF i(1)] b [OF n(1)] False i(3) by simp
    next
      case 2
      have "ex (a ! ?p) \<le> ex (a ! i)" using ord [OF i(1,2) False] 2 by simp
      moreover have "?b ! ?p = a ! idx" using b [of ?p] p n by simp
      ultimately show ?thesis using 2 b [OF i(1)] False i(3) gt by simp
    next
      case 3
      then show ?thesis using ord [OF i(1,2) False] b [OF i(1)] b [OF par [OF i(1)]] False i(3) by simp
    qed
  qed
  moreover have "ex (?b ! get_parent ?p) \<le> ex (?b ! i)"
    if i: "i < n" "0 < i" "get_parent i = ?p" "0 < ?p" for i
  proof -
    have pp: "get_parent ?p < ?p" using i(4) by (rule get_parent_less)
    have top: "ex (a ! get_parent ?p) \<le> ex (a ! ?p)" using ord [of ?p] p n i(4) by simp
    have "?b ! get_parent ?p = a ! get_parent ?p" using b [of "get_parent ?p"] pp p n by simp
    moreover have "ex (a ! ?p) \<le> ex (?b ! i)"
    proof (cases "i = idx")
      case False
      then show ?thesis using ord [OF i(1,2) False] i b [OF i(1)] get_parent_less [OF i(2)] by auto
    qed (use b [OF n(1)] in simp)
    ultimately show ?thesis using top by simp
  qed
  ultimately show ?thesis by (auto simp: heap_except_up_def)
qed

lemma sift_up_heap:
  "heap_except_up ex n a idx \<Longrightarrow> idx < n \<Longrightarrow> n \<le> length a \<Longrightarrow> is_heap ex n (sift_up ex a idx)"
proof (induction ex a idx rule: sift_up.induct)
  case (1 ex a idx)
  show ?case
  proof (cases "idx \<noteq> 0 \<and> ex (a ! get_parent idx) > ex (a ! idx)")
    case True
    then have "heap_except_up ex n (swap idx (get_parent idx) a) (get_parent idx)"
      using 1 by (intro heap_except_up_swap) auto
    moreover have "get_parent idx < n" using 1(3) True get_parent_less [of idx] by auto
    ultimately have "is_heap ex n (sift_up ex (swap idx (get_parent idx) a) (get_parent idx))"
      using 1(1) [OF True] 1(4) by simp
    with True show ?thesis by (subst sift_up.simps) simp
  next
    case False
    then have "sift_up ex a idx = a" by (subst sift_up.simps) auto
    moreover have "is_heap ex n a"
      using 1(2) False by (auto simp: is_heap_def heap_except_up_def not_less)
    ultimately show ?thesis by simp
  qed
qed

section \<open>Sifting down\<close>

lemma smaller_child_cases:
  assumes "smaller_child ex n a idx = r"
  shows "r = idx \<or> (r < n \<and> 0 < r \<and> get_parent r = idx \<and> ex (a ! r) < ex (a ! idx))"
    and "\<And>i. i < n \<Longrightarrow> 0 < i \<Longrightarrow> get_parent i = idx \<Longrightarrow> ex (a ! r) \<le> ex (a ! i)"
  using assms
  by (auto simp: smaller_child_def get_child_def TIMER_NODE_LEFT_def TIMER_NODE_RIGHT_def Let_def
      parent_iff not_less split: if_splits)

lemma min_heapify_length [simp]: "length (min_heapify ex n a idx) = length a"
  by (induction ex n a idx rule: min_heapify.induct) (subst min_heapify.simps, simp add: Let_def)

lemma min_heapify_mset:
  "idx < n \<Longrightarrow> n \<le> length a \<Longrightarrow> mset (take n (min_heapify ex n a idx)) = mset (take n a)"
proof (induction ex n a idx rule: min_heapify.induct)
  case (1 ex n a idx)
  show ?case
  proof (cases "smaller_child ex n a idx = idx")
    case True
    then show ?thesis by (subst min_heapify.simps) simp
  next
    case False
    with smaller_child_cases(1) [OF refl, of ex n a idx] have "smaller_child ex n a idx < n" by auto
    with False show ?thesis using 1 by (subst min_heapify.simps) (simp add: mset_take_swap Let_def)
  qed
qed

definition heap_except_down :: "(nat \<Rightarrow> u64) \<Rightarrow> nat \<Rightarrow> nat list \<Rightarrow> nat \<Rightarrow> bool" where
  "heap_except_down ex n a idx \<longleftrightarrow>
     (\<forall>i<n. 0 < i \<longrightarrow> get_parent i \<noteq> idx \<longrightarrow> ex (a ! get_parent i) \<le> ex (a ! i)) \<and>
     (\<forall>i<n. 0 < i \<longrightarrow> get_parent i = idx \<longrightarrow> 0 < idx \<longrightarrow> ex (a ! get_parent idx) \<le> ex (a ! i))"

lemma heap_except_down_swap:
  assumes inv: "heap_except_down ex n a idx" and n: "idx < n" "n \<le> length a"
    and r: "smaller_child ex n a idx = r" "r \<noteq> idx"
  shows "heap_except_down ex n (swap idx r a) r"
proof -
  let ?b = "swap idx r a"
  have rr: "r < n" "0 < r" "get_parent r = idx" "ex (a ! r) < ex (a ! idx)"
    using smaller_child_cases(1) [OF r(1)] r(2) by auto
  have least: "ex (a ! r) \<le> ex (a ! i)" if "i < n" "0 < i" "get_parent i = idx" for i
    using smaller_child_cases(2) [OF r(1) that] .
  have b: "?b ! k = (if k = idx then a ! r else if k = r then a ! idx else a ! k)" if "k < n" for k
    using that n rr by (intro nth_swap) auto
  have par: "get_parent i < n" if "i < n" for i using that by (auto simp: get_parent_def)
  have ord: "ex (a ! get_parent i) \<le> ex (a ! i)" if "i < n" "0 < i" "get_parent i \<noteq> idx" for i
    using inv that by (auto simp: heap_except_down_def)
  have up: "ex (a ! get_parent idx) \<le> ex (a ! i)" if "i < n" "0 < i" "get_parent i = idx" "0 < idx" for i
    using inv that by (auto simp: heap_except_down_def)
  have "ex (?b ! get_parent i) \<le> ex (?b ! i)" if i: "i < n" "0 < i" "get_parent i \<noteq> r" for i
  proof (cases "get_parent i = idx")
    case True
    have "i \<noteq> idx" using True get_parent_less [OF i(2)] by auto
    then show ?thesis using True b [OF n(1)] b [OF i(1)] least [OF i(1,2) True] rr(4) by auto
  next
    case False
    have bp: "?b ! get_parent i = a ! get_parent i" using b [OF par [OF i(1)]] False i(3) by simp
    show ?thesis
    proof (cases "i = idx")
      case True
      then show ?thesis using bp b [OF n(1)] up [OF rr(1-3)] i(2) by simp
    next
      case ne: False
      then have "i \<noteq> r" using False rr(3) by auto
      then show ?thesis using ne bp b [OF i(1)] ord [OF i(1,2) False] by simp
    qed
  qed
  moreover have "ex (?b ! get_parent r) \<le> ex (?b ! i)" if i: "i < n" "0 < i" "get_parent i = r" for i
  proof -
    have ne: "i \<noteq> idx" "i \<noteq> r" using i rr get_parent_less [OF rr(2)] get_parent_less [OF i(2)] by auto
    have "ex (a ! r) \<le> ex (a ! i)" using ord [OF i(1,2)] i(3) r(2) by simp
    then show ?thesis using b [OF n(1)] b [OF i(1)] ne rr(3) by simp
  qed
  ultimately show ?thesis by (auto simp: heap_except_down_def)
qed

lemma min_heapify_heap:
  "heap_except_down ex n a idx \<Longrightarrow> idx < n \<Longrightarrow> n \<le> length a \<Longrightarrow> is_heap ex n (min_heapify ex n a idx)"
proof (induction ex n a idx rule: min_heapify.induct)
  case (1 ex n a idx)
  show ?case
  proof (cases "smaller_child ex n a idx = idx")
    case True
    have "ex (a ! idx) \<le> ex (a ! i)" if "i < n" "0 < i" "get_parent i = idx" for i
      using smaller_child_cases(2) [OF True that] .
    then have "is_heap ex n a" using 1(2) by (auto simp: is_heap_def heap_except_down_def)
    with True show ?thesis by (subst min_heapify.simps) simp
  next
    case False
    let ?r = "smaller_child ex n a idx"
    have "heap_except_down ex n (swap idx ?r a) ?r" using 1 False by (intro heap_except_down_swap) auto
    moreover have "?r < n" using smaller_child_cases(1) [OF refl, of ex n a idx] False by auto
    ultimately have "is_heap ex n (min_heapify ex n (swap idx ?r a) ?r)"
      using 1(1) [OF refl False] 1(4) by simp
    with False show ?thesis by (subst min_heapify.simps) (simp add: Let_def)
  qed
qed

section \<open>Insertion\<close>

lemma is_heap_cong:
  "(\<And>i. i < n \<Longrightarrow> a ! i = b ! i) \<Longrightarrow> is_heap ex n a = is_heap ex n b"
  by (auto simp: is_heap_def get_parent_def)

lemma timer_insert_ok:
  assumes ok: "timer_ok h" and re: "keeps_entries realloc"
  shows "\<exists>h'. timer_insert realloc node h = Some h' \<and> timer_ok h' \<and> expiration h' = expiration h \<and>
              pending_timers h' = add_mset node (pending_timers h)"
proof -
  let ?n = "heap_size h" and ?ex = "expiration h"
  define grow where "grow \<longleftrightarrow> ?n = heap_capacity h"
  define cap where "cap = (if grow then if heap_capacity h = 0 then 3000 else heap_capacity h * 2 else heap_capacity h)"
  define a where "a = (if grow then realloc (heap_array h) cap else heap_array h)"
  define b where "b = sift_up ?ex (a[?n := node]) ?n"
  note okD = ok [unfolded timer_ok_def]
  have cap: "?n < cap" "heap_capacity h \<le> cap" using okD by (auto simp: cap_def grow_def)
  have la: "length a = cap" using re okD by (auto simp: a_def keeps_entries_def cap_def)
  have old: "take ?n a = take ?n (heap_array h)"
  proof (cases grow)
    case True
    have "min (length (heap_array h)) cap = ?n" using okD cap True by (simp add: grow_def)
    moreover have "take (min (length (heap_array h)) cap) a = take (min (length (heap_array h)) cap) (heap_array h)"
      using re True unfolding a_def keeps_entries_def by presburger
    ultimately show ?thesis by simp
  qed (simp add: a_def)
  then have nth: "a ! i = heap_array h ! i" if "i < ?n" for i
    using that by (metis nth_take)
  have heap: "is_heap ?ex ?n a" using okD is_heap_cong [OF nth] by simp
  have "heap_except_up ?ex (Suc ?n) (a[?n := node]) ?n"
    unfolding heap_except_up_def
  proof (intro conjI allI impI)
    fix i assume i: "i < Suc ?n" "0 < i" "i \<noteq> ?n"
    then have "i < ?n" "get_parent i < ?n" using get_parent_less [of i] by auto
    then show "?ex (a[?n := node] ! get_parent i) \<le> ?ex (a[?n := node] ! i)"
      using heap i(2) by (simp add: is_heap_def)
  next
    fix i assume "i < Suc ?n" "0 < i" "get_parent i = ?n"
    then show "?ex (a[?n := node] ! get_parent ?n) \<le> ?ex (a[?n := node] ! i)"
      using get_parent_less [of i] by simp
  qed
  then have "is_heap ?ex (Suc ?n) b" unfolding b_def
    using cap la by (intro sift_up_heap) auto
  moreover have "mset (take (Suc ?n) b) = mset (take (Suc ?n) (a[?n := node]))"
    using cap la unfolding b_def by (intro sift_up_mset) auto
  moreover have "mset (take (Suc ?n) (a[?n := node])) = add_mset node (mset (take ?n (heap_array h)))"
    using cap la by (simp add: take_Suc_conv_app_nth old)
  moreover have "timer_insert realloc node h =
      (if ?n < length a then Some (h\<lparr>heap_array := b, heap_capacity := cap, heap_size := ?n + 1\<rparr>) else None)"
    unfolding timer_insert_def Let_def b_def a_def cap_def grow_def by (rule refl)
  ultimately show ?thesis using cap la by (auto simp: timer_ok_def pending_timers_def b_def)
qed

section \<open>Removal\<close>

lemma timer_peek_ok:
  assumes "timer_ok h" "timer_peek h = Some n"
  shows "n \<in># pending_timers h \<and> (\<forall>m \<in># pending_timers h. expiration h n \<le> expiration h m)"
proof -
  have sz: "0 < heap_size h" "heap_size h \<le> length (heap_array h)" and n: "n = heap_array h ! 0"
    using assms by (auto simp: timer_peek_def timer_ok_def split: if_splits)
  have "n \<in> set (take (heap_size h) (heap_array h))"
    using sz n by (metis length_take min.absorb2 nth_mem nth_take)
  moreover have "expiration h n \<le> expiration h m" if mem: "m \<in> set (take (heap_size h) (heap_array h))" for m
  proof -
    obtain i where "i < heap_size h" "m = heap_array h ! i"
      using mem sz by (auto simp: in_set_conv_nth)
    then show ?thesis using n root_minimal assms(1) by (auto simp: timer_ok_def)
  qed
  ultimately show ?thesis by (simp add: pending_timers_def)
qed

lemma timer_peek_None: "timer_ok h \<Longrightarrow> timer_peek h = None \<longleftrightarrow> pending_timers h = {#}"
  by (auto simp: timer_peek_def pending_timers_def timer_ok_def)

lemma mset_take_root:
  assumes "0 < n" "n < length a"
  shows "add_mset (a ! 0) (mset (take n (a[0 := a ! n]))) = mset (take (Suc n) a)"
proof -
  obtain x xs where a: "a = x # xs" using assms by (cases a) auto
  obtain m where n: "n = Suc m" using assms by (cases n) auto
  have "mset (take (Suc m) xs) = add_mset (xs ! m) (mset (take m xs))"
    using assms a n by (simp add: take_Suc_conv_app_nth)
  then show ?thesis using a n by simp
qed

lemma timer_pop_ok:
  assumes ok: "timer_ok h" and re: "keeps_entries realloc" and top: "timer_peek h = Some m"
  shows "\<exists>h'. timer_pop realloc h = Some (m, h') \<and> timer_ok h' \<and> expiration h' = expiration h \<and>
              pending_timers h = add_mset m (pending_timers h')"
proof -
  note okD = ok [unfolded timer_ok_def]
  have sz: "0 < heap_size h" and m: "m = heap_array h ! 0"
    using top by (auto simp: timer_peek_def split: if_splits)
  show ?thesis
  proof (cases "heap_size h = 1")
    case True
    then show ?thesis using okD m
      by (auto simp: timer_pop_def timer_ok_def pending_timers_def is_heap_def take_Suc_conv_app_nth)
  next
    case False
    define n where "n = heap_size h - 1"
    define a where "a = (heap_array h)[0 := heap_array h ! n]"
    define shrink where "shrink \<longleftrightarrow> MIN_TIMER_HEAP_SIZE < n \<and> n * 4 < heap_capacity h"
    define cap where "cap = (if shrink then heap_capacity h div 2 else heap_capacity h)"
    define a' where "a' = (if shrink then realloc a cap else a)"
    define b where "b = min_heapify (expiration h) n a' 0"
    have n: "0 < n" "n < length (heap_array h)" "heap_size h = Suc n" using sz False okD by (auto simp: n_def)
    have cap: "n \<le> cap" "cap \<le> heap_capacity h" using n okD by (auto simp: cap_def shrink_def)
    have la: "length a = heap_capacity h" "length a' = cap" using okD re by (auto simp: a_def a'_def cap_def keeps_entries_def)
    have "take (min (length a) cap) a' = take (min (length a) cap) a"
      using re unfolding a'_def keeps_entries_def by presburger
    then have "take cap a' = take cap a" using la cap by simp
    then have pre: "take n a' = take n a" using cap by (metis min.absorb1 take_take)
    have nth: "a' ! i = a ! i" if "i < n" for i using pre that by (metis nth_take)
    have "heap_except_down (expiration h) n a 0"
      using okD n by (simp add: heap_except_down_def is_heap_def a_def nth_list_update)
    moreover have "get_parent i < n" if "i < n" for i using that by (simp add: get_parent_def)
    ultimately have "heap_except_down (expiration h) n a' 0"
      using nth by (simp add: heap_except_down_def)
    then have "is_heap (expiration h) n b"
      unfolding b_def using n cap la by (intro min_heapify_heap) auto
    moreover have "mset (take n b) = mset (take n a)"
      using n cap la pre by (simp add: b_def min_heapify_mset)
    moreover have "mset (take (heap_size h) (heap_array h)) = add_mset m (mset (take n a))"
      using mset_take_root [OF n(1,2)] n m by (simp add: a_def)
    moreover have "timer_pop realloc h = Some (m, h\<lparr>heap_array := b, heap_capacity := cap, heap_size := n\<rparr>)"
      using False sz m
      by (simp add: timer_pop_def Let_def b_def a'_def cap_def shrink_def a_def n_def)
    ultimately show ?thesis using cap la by (auto simp: timer_ok_def pending_timers_def b_def)
  qed
qed

section \<open>The interpretation\<close>

text \<open>\<open>krealloc\<close> as the language standard describes it, for evaluation: the old entries that fit,
  then fresh ones.\<close>

definition copy_realloc :: "nat list \<Rightarrow> nat \<Rightarrow> nat list" where
  "copy_realloc a n = take n a @ replicate (n - length a) 0"

lemma copy_realloc_keeps: "keeps_entries copy_realloc"
  by (auto simp: keeps_entries_def copy_realloc_def)

text \<open>A heap together with a reallocation that keeps entries is a timer queue.\<close>

interpretation heap: timer_queue
  "\<lambda>(re, h). keeps_entries re \<and> timer_ok h"
  "\<lambda>(re, h). pending_timers h"
  "\<lambda>(re, h). expiration h"
  "\<lambda>(re, h). timer_peek h"
  "\<lambda>(re, h). map_option (\<lambda>(n, h'). (n, (re, h'))) (timer_pop re h)"
proof unfold_locales
  fix p :: "(nat list \<Rightarrow> nat \<Rightarrow> nat list) \<times> timer_heap" and n
  assume *: "case p of (re, h) \<Rightarrow> keeps_entries re \<and> timer_ok h"
  obtain re h where p: "p = (re, h)" by (cases p)
  show "(case p of (re, h) \<Rightarrow> timer_peek h) = None \<longleftrightarrow> (case p of (re, h) \<Rightarrow> pending_timers h) = {#}"
    using * p timer_peek_None by simp
  assume "(case p of (re, h) \<Rightarrow> timer_peek h) = Some n"
  then have top: "timer_peek h = Some n" by (simp add: p)
  show "n \<in># (case p of (re, h) \<Rightarrow> pending_timers h) \<and>
        (\<forall>m \<in># (case p of (re, h) \<Rightarrow> pending_timers h).
           (case p of (re, h) \<Rightarrow> expiration h) n \<le> (case p of (re, h) \<Rightarrow> expiration h) m)"
    using timer_peek_ok [OF _ top] * p by simp
  show "\<exists>p'. (case p of (re, h) \<Rightarrow> map_option (\<lambda>(n, h'). (n, (re, h'))) (timer_pop re h)) = Some (n, p') \<and>
             (case p' of (re, h) \<Rightarrow> keeps_entries re \<and> timer_ok h) \<and>
             (case p' of (re, h) \<Rightarrow> expiration h) = (case p of (re, h) \<Rightarrow> expiration h) \<and>
             (case p of (re, h) \<Rightarrow> pending_timers h) = add_mset n (case p' of (re, h) \<Rightarrow> pending_timers h)"
    using timer_pop_ok [OF _ _ top] * p by fastforce
qed

abbreviation pop_with :: "(nat list \<Rightarrow> nat \<Rightarrow> nat list) \<times> timer_heap \<Rightarrow> (nat \<times> (nat list \<Rightarrow> nat \<Rightarrow> nat list) \<times> timer_heap) option" where
  "pop_with \<equiv> \<lambda>(re, h). map_option (\<lambda>(n, h'). (n, (re, h'))) (timer_pop re h)"

section \<open>The dispatch loop\<close>

fun launch_all :: "nat list \<Rightarrow> kevent_state \<Rightarrow> kevent_state option" where
  "launch_all [] k = Some k"
| "launch_all (n # ns) k = do { k1 \<leftarrow> kevent_launch n k; launch_all ns k1 }"

lemma dispatch_pops:
  assumes "keeps_entries re" "timer_ok h"
  shows "\<exists>ns h'. pops pop_with (re, h) ns (re, h') \<and> length ns \<le> size (pending_timers h) \<and>
           (\<forall>n \<in> set ns. expiration h n \<le> t) \<and>
           (case timer_peek h' of None \<Rightarrow> True | Some m \<Rightarrow> t < expiration h m) \<and>
           (\<forall>k. dispatch re t h k = map_option (\<lambda>k'. (ns, h', k')) (launch_all ns k))"
  using assms
proof (induction "size (pending_timers h)" arbitrary: h rule: less_induct)
  case less
  show ?case
  proof (cases "case timer_peek h of None \<Rightarrow> True | Some m \<Rightarrow> t < expiration h m")
    case True
    then have "\<forall>k. dispatch re t h k = map_option (\<lambda>k'. ([], h, k')) (launch_all [] k)"
      by (subst dispatch.simps) (auto split: option.splits)
    with True show ?thesis by (intro exI [of _ "[]"] exI [of _ h]) (auto intro: pops_Nil)
  next
    case False
    then obtain m where top: "timer_peek h = Some m" and due: "expiration h m \<le> t"
      by (auto split: option.splits simp: not_less)
    from timer_pop_ok [OF less.prems(2,1) top] obtain h1 where pop: "timer_pop re h = Some (m, h1)"
      and ok1: "timer_ok h1" and ex1: "expiration h1 = expiration h"
      and pend: "pending_timers h = add_mset m (pending_timers h1)" by auto
    have "size (pending_timers h1) < size (pending_timers h)" using pend by simp
    from less.hyps [OF this less.prems(1) ok1] obtain ns h' where
      IH: "pops pop_with (re, h1) ns (re, h')" "length ns \<le> size (pending_timers h1)"
      "\<forall>n \<in> set ns. expiration h1 n \<le> t"
      "case timer_peek h' of None \<Rightarrow> True | Some m \<Rightarrow> t < expiration h1 m"
      "\<forall>k. dispatch re t h1 k = map_option (\<lambda>k'. (ns, h', k')) (launch_all ns k)" by auto
    have "pops pop_with (re, h) (m # ns) (re, h')"
      using pop IH(1) by (auto intro: pops_Cons)
    moreover have "dispatch re t h k = map_option (\<lambda>k'. (m # ns, h', k')) (launch_all (m # ns) k)" for k
      using top due pop IH(5)
      by (subst dispatch.simps)
        (auto simp: not_less [symmetric] option.map_comp comp_def split: option.splits bind_splits)
    ultimately show ?thesis using IH(2,3) IH(4) [unfolded ex1] due ex1 pend
      by (intro exI [of _ "m # ns"] exI [of _ h']) auto
  qed
qed

lemma dispatch_spec:
  assumes "keeps_entries re" "timer_ok h"
  shows "\<exists>ns h'. timer_ok h' \<and> sorted (map (expiration h) ns) \<and>
           mset ns = filter_mset (\<lambda>n. expiration h n \<le> t) (pending_timers h) \<and>
           pending_timers h' = filter_mset (\<lambda>n. t < expiration h n) (pending_timers h) \<and>
           (\<forall>k. dispatch re t h k = map_option (\<lambda>k'. (ns, h', k')) (launch_all ns k))"
proof -
  obtain ns h' where
    d: "pops pop_with (re, h) ns (re, h')" "length ns \<le> size (pending_timers h)"
      "\<forall>n \<in> set ns. expiration h n \<le> t"
      "case timer_peek h' of None \<Rightarrow> True | Some m \<Rightarrow> t < expiration h m"
      "\<forall>k. dispatch re t h k = map_option (\<lambda>k'. (ns, h', k')) (launch_all ns k)"
    using dispatch_pops [OF assms, of t] by blast
  from heap.pops_sorted [OF d(1)] assms d(2) have s: "timer_ok h'" "expiration h' = expiration h"
    "pending_timers h = mset ns + pending_timers h'" "sorted (map (expiration h) ns)" by auto
  have late: "t < expiration h m" if m: "m \<in># pending_timers h'" for m
  proof -
    obtain r where r: "timer_peek h' = Some r" using m timer_peek_None [OF s(1)] by (cases "timer_peek h'") auto
    have "t < expiration h r" using d(4) r by simp
    also have "\<dots> \<le> expiration h m" using timer_peek_ok [OF s(1) r] m s(2) by simp
    finally show ?thesis .
  qed
  have "filter_mset (\<lambda>n. expiration h n \<le> t) (mset ns) = mset ns"
    using d(3) by (simp add: filter_mset_eq_conv)
  moreover have "filter_mset (\<lambda>n. expiration h n \<le> t) (pending_timers h') = {#}"
    using late by (auto simp: filter_mset_eq_conv not_le)
  moreover have "filter_mset (\<lambda>n. t < expiration h n) (mset ns) = {#}"
    using d(3) by (auto simp: filter_mset_eq_conv not_less)
  moreover have "filter_mset (\<lambda>n. t < expiration h n) (pending_timers h') = pending_timers h'"
    using late by (simp add: filter_mset_eq_conv)
  ultimately have "mset ns = filter_mset (\<lambda>n. expiration h n \<le> t) (pending_timers h)"
    "pending_timers h' = filter_mset (\<lambda>n. t < expiration h n) (pending_timers h)"
    using s(3) by simp_all
  with s d(5) show ?thesis by blast
qed

end
