(* ===== verification/Timer_Props.thy ===== *)
theory Timer_Props
  imports Timer_Queue "HOL-Library.Code_Target_Nat"
begin

text \<open>
  What the system timers promise: registering a timer adds it to the pending ones with its
  deadline, and a tick launches exactly the timers that are due, earliest first.
\<close>

section \<open>Registration\<close>








section \<open>Ticks\<close>



end
