(* ===== verification/Run_Queues.thy ===== *)
theory Run_Queues
  imports Tasks
begin

text \<open>
  The run queues as lists of tasks. The task table is a heap with two link members, the queue
  relation says which list of tasks a queue holds, and each queue operation is shown to be the
  list operation it stands for, leaving the links of all other tasks alone.
\<close>

section \<open>The task table as a linked heap\<close>

abbreviation t_valid :: "task list \<Rightarrow> nat \<Rightarrow> bool" where
  "t_valid ts i \<equiv> i < length ts"

definition t_next :: "task list \<Rightarrow> nat \<Rightarrow> task_ptr" where
  "t_next ts i = rr_next (ts ! i)"

definition t_prev :: "task list \<Rightarrow> nat \<Rightarrow> task_ptr" where
  "t_prev ts i = rr_prev (ts ! i)"

definition t_set_next :: "task list \<Rightarrow> nat \<Rightarrow> task_ptr \<Rightarrow> task list" where
  "t_set_next ts i v = ts[i := (ts ! i)\<lparr>rr_next := v\<rparr>]"

definition t_set_prev :: "task list \<Rightarrow> nat \<Rightarrow> task_ptr \<Rightarrow> task list" where
  "t_set_prev ts i v = ts[i := (ts ! i)\<lparr>rr_prev := v\<rparr>]"

interpretation tl: link_heap t_valid t_next t_prev t_set_next t_set_prev
  by unfold_locales
    (auto simp: t_next_def t_prev_def t_set_next_def t_set_prev_def fun_eq_iff nth_list_update)

definition queue_rel :: "task list \<Rightarrow> scheduler_runqueue \<Rightarrow> nat list \<Rightarrow> bool" where
  "queue_rel ts rq xs \<longleftrightarrow>
     dlist (t_next ts) (t_prev ts) (rq_head rq) Null xs \<and>
     rq_tail rq = (if xs = [] then Null else Ref (last xs)) \<and>
     num_tasks rq = int (length xs) \<and> (\<forall>x \<in> set xs. x < length ts)"

lemma queue_distinct: "queue_rel ts rq xs \<Longrightarrow> distinct xs"
  by (auto simp: queue_rel_def dest: dlist_distinct)

lemma queue_valid: "queue_rel ts rq xs \<Longrightarrow> x \<in> set xs \<Longrightarrow> x < length ts"
  by (simp add: queue_rel_def)

text \<open>What the table keeps when a queue operation rewrites the links of the tasks in \<open>A\<close>: the
  members other than the links, and every task outside \<open>A\<close>.\<close>

definition bare :: "task \<Rightarrow> task" where
  "bare t = t\<lparr>rr_next := Null, rr_prev := Null\<rparr>"

definition same_tasks :: "task list \<Rightarrow> task list \<Rightarrow> bool" where
  "same_tasks ts ts' \<longleftrightarrow> length ts' = length ts \<and> (\<forall>i < length ts. bare (ts' ! i) = bare (ts ! i))"

definition links_only :: "nat set \<Rightarrow> task list \<Rightarrow> task list \<Rightarrow> bool" where
  "links_only A ts ts' \<longleftrightarrow> same_tasks ts ts' \<and> (\<forall>i < length ts. i \<notin> A \<longrightarrow> ts' ! i = ts ! i)"

lemma task_links_commute: "t\<lparr>rr_prev := p, rr_next := n\<rparr> = (t :: task)\<lparr>rr_next := n, rr_prev := p\<rparr>"
  by (cases t) simp

lemma bare_links [simp]: "bare (t\<lparr>rr_next := n, rr_prev := p\<rparr>) = bare t" "bare (t\<lparr>rr_next := n\<rparr>) = bare t"
  "bare (t\<lparr>rr_prev := p\<rparr>) = bare t"
  by (cases t; simp add: bare_def)+

lemma bare_eqD:
  assumes "bare t = bare t'"
  shows "state t = state t'" "prio t = prio t'" "jctx t = jctx t'" "pmc t = pmc t'" "kernel_stack t = kernel_stack t'"
    "stack t = stack t'" "tid t = tid t'"
  using assms by (cases t; cases t'; simp add: bare_def)+

lemma links_only_refl [simp]: "links_only A ts ts"
  by (simp add: links_only_def same_tasks_def)

lemma same_tasks_trans: "same_tasks ts ts' \<Longrightarrow> same_tasks ts' ts'' \<Longrightarrow> same_tasks ts ts''"
  by (simp add: same_tasks_def)

lemma links_only_trans: "links_only A ts ts' \<Longrightarrow> links_only A ts' ts'' \<Longrightarrow> links_only A ts ts''"
  by (auto simp: links_only_def same_tasks_def)

lemma links_only_mono: "links_only A ts ts' \<Longrightarrow> A \<subseteq> B \<Longrightarrow> links_only B ts ts'"
  by (auto simp: links_only_def)

lemma links_only_upd:
  assumes "i \<in> A" "bare t = bare (ts ! i)"
  shows "links_only A ts (ts[i := t])"
proof (cases "i < length ts")
  case True
  then show ?thesis using assms by (auto simp: links_only_def same_tasks_def nth_list_update)
qed (simp add: list_update_beyond)

lemma links_only_length: "links_only A ts ts' \<Longrightarrow> length ts' = length ts"
  by (simp add: links_only_def same_tasks_def)

lemma links_only_other:
  assumes "links_only A ts ts'" "queue_rel ts rq xs" "set xs \<inter> A = {}"
  shows "queue_rel ts' rq xs"
proof -
  have "dlist (t_next ts') (t_prev ts') h Null xs = dlist (t_next ts) (t_prev ts) h Null xs" for h
    using assms by (intro dlist_cong) (auto simp: t_next_def t_prev_def links_only_def queue_rel_def)
  then show ?thesis using assms links_only_length [OF assms(1)] by (simp add: queue_rel_def)
qed

section \<open>Insertion at the front\<close>

lemma upd_task_Ref: "i < length ts \<Longrightarrow> upd_task f ts (Ref i) = Some (ts[i := f (ts ! i)])"
  by (simp add: upd_task_def)

lemma get_task_Ref: "i < length ts \<Longrightarrow> get_task ts (Ref i) = Some (ts ! i)"
  by (simp add: get_task_def)

lemma set_links: "ts[i := (ts ! i)\<lparr>rr_next := n, rr_prev := p\<rparr>] = t_set_next (t_set_prev ts i p) i n"
  by (cases "i < length ts") (simp_all add: t_set_next_def t_set_prev_def list_update_beyond task_links_commute)

lemma insert_front_ok:
  assumes q: "queue_rel ts rq xs" and x: "x < length ts" "x \<notin> set xs"
  shows "\<exists>ts' rq'. runqueue_insert_front (Ref x) ts rq = Some (ts', rq') \<and>
           queue_rel ts' rq' (x # xs) \<and> links_only (insert x (set xs)) ts ts'"
proof -
  note qD = q [unfolded queue_rel_def]
  define t1 where "t1 = t_set_next (t_set_prev ts x Null) x (rq_head rq)"
  define t2 where "t2 = (case rq_head rq of Ref y \<Rightarrow> t_set_prev t1 y (Ref x) | _ \<Rightarrow> t1)"
  define rq' where "rq' = (if rq_head rq = Null then rq\<lparr>rq_head := Ref x, rq_tail := Ref x\<rparr> else rq\<lparr>rq_head := Ref x\<rparr>)
      \<lparr>num_tasks := num_tasks rq + 1\<rparr>"
  have hd: "rq_head rq = (if xs = [] then Null else Ref (hd xs))" using qD by (intro dlist_head) auto
  have t1: "t1 = ts[x := (ts ! x)\<lparr>rr_next := rq_head rq, rr_prev := Null\<rparr>]" by (simp add: t1_def set_links)
  have t1': "t1 = ts[x := (ts ! x)\<lparr>rr_prev := Null, rr_next := rq_head rq\<rparr>]" by (simp add: t1 task_links_commute)
  have run: "runqueue_insert_front (Ref x) ts rq = Some (t2, rq')"
  proof (cases xs)
    case Nil
    then show ?thesis using hd x
      by (simp add: runqueue_insert_front_def t2_def t1 rq'_def upd_task_Ref)
  next
    case (Cons y ys)
    have y: "y < length t1" using Cons qD by (simp add: t1)
    have "upd_task (\<lambda>t. t\<lparr>rr_prev := Null, rr_next := rq_head rq\<rparr>) ts (Ref x) = Some t1"
      using x by (simp add: t1' upd_task_Ref)
    then show ?thesis using hd Cons y
      by (simp add: runqueue_insert_front_def t2_def rq'_def upd_task_Ref t_set_prev_def)
  qed
  have len: "length t2 = length ts"
    by (simp add: t2_def t1_def t_set_next_def t_set_prev_def split: ptr.splits)
  have "dlist (t_next t2) (t_prev t2) (Ref x) Null (x # xs)"
    by (rule tl.push_front [OF _ _ _ _ t1_def t2_def]) (use qD x in auto)
  then have rel: "queue_rel t2 rq' (x # xs)"
    using qD x hd len by (auto simp: queue_rel_def rq'_def)
  have l1: "links_only (insert x (set xs)) ts t1"
    unfolding t1 by (rule links_only_upd) auto
  have l2: "links_only (insert x (set xs)) t1 t2"
  proof (cases xs)
    case Nil
    then show ?thesis using hd by (simp add: t2_def)
  next
    case (Cons y ys)
    then show ?thesis using hd by (simp add: t2_def t_set_prev_def links_only_upd)
  qed
  show ?thesis using run rel links_only_trans [OF l1 l2] by blast
qed

section \<open>Insertion at the back\<close>

lemma insert_back_ok:
  assumes q: "queue_rel ts rq xs" and x: "x < length ts" "x \<notin> set xs"
  shows "\<exists>ts' rq'. runqueue_insert_back (Ref x) ts rq = Some (ts', rq') \<and>
           queue_rel ts' rq' (xs @ [x]) \<and> links_only (insert x (set xs)) ts ts'"
proof (cases "xs = []")
  case True
  define t1 where "t1 = ts[x := (ts ! x)\<lparr>rr_next := Null, rr_prev := Null\<rparr>]"
  have "runqueue_insert_back (Ref x) ts rq =
      Some (t1, rq\<lparr>rq_head := Ref x, rq_tail := Ref x, num_tasks := num_tasks rq + 1\<rparr>)"
    using q True x by (simp add: runqueue_insert_back_def queue_rel_def upd_task_Ref t1_def)
  moreover have "queue_rel t1 (rq\<lparr>rq_head := Ref x, rq_tail := Ref x, num_tasks := num_tasks rq + 1\<rparr>) [x]"
    using q True x by (simp add: queue_rel_def t1_def t_next_def t_prev_def)
  moreover have "links_only (insert x (set xs)) ts t1" unfolding t1_def by (rule links_only_upd) auto
  ultimately show ?thesis using True by auto
next
  case False
  note qD = q [unfolded queue_rel_def]
  let ?z = "last xs"
  have z: "?z < length ts" "?z \<noteq> x" using False qD x by auto
  have tail: "rq_tail rq = Ref ?z" using qD False by simp
  define t1 where "t1 = ts[x := (ts ! x)\<lparr>rr_next := Null\<rparr>]"
  define t2 where "t2 = t1[?z := (t1 ! ?z)\<lparr>rr_next := Ref x\<rparr>]"
  define t3 where "t3 = t2[x := (t2 ! x)\<lparr>rr_prev := Ref ?z\<rparr>]"
  have len: "length t1 = length ts" "length t2 = length ts" "length t3 = length ts"
    by (simp_all add: t1_def t2_def t3_def)
  have run: "runqueue_insert_back (Ref x) ts rq =
      Some (t3, rq\<lparr>rq_tail := Ref x, num_tasks := num_tasks rq + 1\<rparr>)"
    using x z len tail by (simp add: runqueue_insert_back_def upd_task_Ref t1_def [symmetric] t2_def [symmetric] t3_def [symmetric])
  have nth: "t3 ! i = (if i = x then (ts ! x)\<lparr>rr_next := Null, rr_prev := Ref ?z\<rparr>
      else if i = ?z then (ts ! ?z)\<lparr>rr_next := Ref x\<rparr> else ts ! i)" if "i < length ts" for i
    using that x z by (simp add: t3_def t2_def t1_def nth_list_update)
  have "dlist (t_next t3) (t_prev t3) (rq_head rq) Null (xs @ [x])"
    by (rule dlist_push_back [of "t_next ts" "t_prev ts"])
      (use qD x z nth False in \<open>auto simp: t_next_def t_prev_def\<close>)
  then have rel: "queue_rel t3 (rq\<lparr>rq_tail := Ref x, num_tasks := num_tasks rq + 1\<rparr>) (xs @ [x])"
    using qD x len by (auto simp: queue_rel_def)
  have "links_only (insert x (set xs)) ts t3"
    using nth len False by (auto simp: links_only_def same_tasks_def)
  with run rel show ?thesis by blast
qed

section \<open>Removal\<close>

lemma pop_front_empty: "queue_rel ts rq [] \<Longrightarrow> runqueue_pop_front ts rq = Some (Null, ts, rq)"
  by (simp add: queue_rel_def runqueue_pop_front_def)

lemma pop_front_ok:
  assumes q: "queue_rel ts rq (x # xs)"
  shows "\<exists>ts' rq'. runqueue_pop_front ts rq = Some (Ref x, ts', rq') \<and>
           queue_rel ts' rq' xs \<and> links_only (insert x (set xs)) ts ts' \<and>
           rr_next (ts' ! x) = Null \<and> rr_prev (ts' ! x) = Null"
proof -
  note qD = q [unfolded queue_rel_def]
  have hd: "rq_head rq = Ref x" and x: "x < length ts" using qD by auto
  define t1 where "t1 = (case t_next ts x of Ref n \<Rightarrow> t_set_prev ts n Null | _ \<Rightarrow> ts)"
  define t2 where "t2 = t1[x := (t1 ! x)\<lparr>rr_next := Null, rr_prev := Null\<rparr>]"
  have len: "length t1 = length ts" by (simp add: t1_def t_set_prev_def split: ptr.splits)
  define rq' where "rq' = (if xs = [] then rq\<lparr>rq_head := Null, rq_tail := Null\<rparr> else rq\<lparr>rq_head := t_next ts x\<rparr>)
    \<lparr>num_tasks := num_tasks rq - 1\<rparr>"
  have dist: "distinct (x # xs)" using q by (rule queue_distinct)
  have nx: "t_next ts x = (if xs = [] then Null else Ref (hd xs))"
    using dlist_node(2) [of "t_next ts" "t_prev ts" "rq_head rq" Null "[]" x xs] qD by simp
  have ht: "rq_head rq = rq_tail rq \<longleftrightarrow> xs = []" using qD hd dist by auto
  have run: "runqueue_pop_front ts rq = Some (Ref x, t2, rq')"
  proof (cases xs)
    case Nil
    then have "rq_tail rq = Ref x" using qD by simp
    then show ?thesis using Nil hd x nx
      by (simp add: runqueue_pop_front_def t2_def t1_def rq'_def upd_task_Ref Let_def)
  next
    case (Cons y ys)
    then show ?thesis using hd ht x nx qD len
      by (simp add: runqueue_pop_front_def t2_def t1_def rq'_def upd_task_Ref get_task_Ref t_next_def t_set_prev_def)
  qed
  have "dlist (t_next t2) (t_prev t2) (t_next ts x) Null xs"
    by (rule tl.pop_front [OF _ _ t1_def])
      (use qD hd in \<open>auto simp: t2_def t_next_def t_prev_def nth_list_update\<close>)
  then have rel: "queue_rel t2 rq' xs" using qD nx len by (auto simp: queue_rel_def rq'_def t2_def)
  have "links_only (insert x (set xs)) ts t1"
    using nx by (cases xs) (auto simp: t1_def t_set_prev_def intro!: links_only_upd)
  then have "links_only (insert x (set xs)) ts t2"
    by (rule links_only_trans) (simp add: t2_def links_only_upd)
  then show ?thesis using run rel x len by (simp add: t2_def)
qed

lemma remove_ok:
  assumes q: "queue_rel ts rq xs" and x: "x \<in> set xs"
  shows "\<exists>ts' rq'. runqueue_remove (Ref x) ts rq = Some (ts', rq') \<and>
           queue_rel ts' rq' (remove1 x xs) \<and> links_only (set xs) ts ts' \<and>
           rr_next (ts' ! x) = Null \<and> rr_prev (ts' ! x) = Null"
proof -
  note qD = q [unfolded queue_rel_def]
  have dist: "distinct xs" using q by (rule queue_distinct)
  obtain ys zs where xs: "xs = ys @ x # zs" and rm: "remove1 x xs = ys @ zs"
    and ny: "x \<notin> set ys" and nz: "x \<notin> set zs"
    using dist x by (rule remove1_decomp)
  have xl: "x < length ts" using q x by (rule queue_valid)
  have D: "dlist (t_next ts) (t_prev ts) (rq_head rq) Null (ys @ x # zs)" using qD xs by simp
  note node = dlist_node [OF D]
  have pv: "rr_prev (ts ! x) = (if ys = [] then Null else Ref (last ys))"
    and nx: "rr_next (ts ! x) = (if zs = [] then Null else Ref (hd zs))"
    using node by (simp_all add: t_prev_def t_next_def)
  define t1 where "t1 = (case t_prev ts x of Ref p \<Rightarrow> t_set_next ts p (t_next ts x) | _ \<Rightarrow> ts)"
  define t2 where "t2 = (case t_next t1 x of Ref n \<Rightarrow> t_set_prev t1 n (t_prev t1 x) | _ \<Rightarrow> t1)"
  define t3 where "t3 = t2[x := (t2 ! x)\<lparr>rr_next := Null, rr_prev := Null\<rparr>]"
  have len: "length t1 = length ts" "length t2 = length ts"
    by (simp_all add: t1_def t2_def t_set_prev_def t_set_next_def split: ptr.splits)
  have lv: "ys \<noteq> [] \<Longrightarrow> last ys < length ts" "ys \<noteq> [] \<Longrightarrow> last ys \<noteq> x"
    "zs \<noteq> [] \<Longrightarrow> hd zs < length ts" "zs \<noteq> [] \<Longrightarrow> hd zs \<noteq> x"
    using qD xs ny nz by auto
  have x1: "rr_next (t1 ! x) = rr_next (ts ! x)" "rr_prev (t1 ! x) = rr_prev (ts ! x)"
    using lv by (auto simp: t1_def t_set_next_def t_prev_def pv)
  define rq1 where "rq1 = (if Ref x = rq_head rq then
      (if rr_next (ts ! x) = Null then rq\<lparr>rq_head := Null, rq_tail := Null\<rparr> else rq\<lparr>rq_head := rr_next (ts ! x)\<rparr>)
    else if Ref x = rq_tail rq then
      (if rr_prev (ts ! x) = Null then rq\<lparr>rq_tail := Null, rq_head := Null\<rparr> else rq\<lparr>rq_tail := rr_prev (ts ! x)\<rparr>)
    else rq)"
  have s1: "(if rr_prev (ts ! x) \<noteq> Null
      then upd_task (rr_next_update (\<lambda>_. rr_next (ts ! x))) ts (rr_prev (ts ! x)) else Some ts) = Some t1"
    using lv by (simp add: t1_def t_prev_def pv upd_task_Ref t_set_next_def t_next_def)
  have s2: "(if rr_next (ts ! x) \<noteq> Null
      then upd_task (rr_prev_update (\<lambda>_. rr_prev (ts ! x))) t1 (rr_next (ts ! x)) else Some t1) = Some t2"
    using lv len by (simp add: t2_def t_next_def x1 nx upd_task_Ref t_set_prev_def t_prev_def)
  have run: "runqueue_remove (Ref x) ts rq = Some (t3, rq1\<lparr>num_tasks := num_tasks rq1 - 1\<rparr>)"
    by (simp only: runqueue_remove_def get_task_Ref [OF xl] Option.bind.bind_lunit Let_def s1
        get_task_Ref [of x t1, unfolded len, OF xl] x1 s2 upd_task_Ref [of x t2, unfolded len, OF xl]
        prod.case rq1_def t3_def)
  have dl: "dlist (t_next t3) (t_prev t3) (if rq_head rq = Ref x then t_next ts x else rq_head rq) Null (remove1 x xs)"
    by (rule tl.unlink [OF _ x _ t1_def t2_def])
      (use qD in \<open>auto simp: t3_def t_next_def t_prev_def nth_list_update\<close>)
  have hx: "rq_head rq = Ref x \<longleftrightarrow> ys = []" using D ny by (cases ys) auto
  have tx: "rq_tail rq = Ref x \<longleftrightarrow> zs = []" using qD xs nz by auto
  have hx': "Ref x = rq_head rq \<longleftrightarrow> ys = []" and tx': "Ref x = rq_tail rq \<longleftrightarrow> zs = []"
    using hx tx by metis+
  have "rq_head rq1 = (if rq_head rq = Ref x then t_next ts x else rq_head rq)"
    unfolding rq1_def hx hx' tx' t_next_def nx pv by simp
  moreover have "rq_tail rq1 = (if ys @ zs = [] then Null else Ref (last (ys @ zs)))"
  proof (cases "zs = []")
    case True
    then show ?thesis unfolding rq1_def hx' tx' nx pv by simp
  next
    case False
    then have "rq_tail rq = Ref (last zs)" using qD xs by simp
    with False show ?thesis unfolding rq1_def hx' tx' nx by simp
  qed
  moreover have "num_tasks rq1 = int (length xs)" using qD by (simp add: rq1_def)
  moreover have "\<forall>y \<in> set (ys @ zs). y < length t3" using qD xs len by (simp add: t3_def)
  ultimately have rel: "queue_rel t3 (rq1\<lparr>num_tasks := num_tasks rq1 - 1\<rparr>) (remove1 x xs)"
    using dl xs rm by (simp add: queue_rel_def)
  have l1: "links_only (set xs) ts t1"
    using pv xs by (cases "ys = []") (auto simp: t1_def t_prev_def t_set_next_def intro!: links_only_upd)
  have l2: "links_only (set xs) t1 t2"
    using nx x1 xs by (cases "zs = []") (auto simp: t2_def t_next_def t_set_prev_def intro!: links_only_upd)
  have l3: "links_only (set xs) t2 t3" unfolding t3_def using x by (intro links_only_upd) auto
  show ?thesis using run rel links_only_trans [OF links_only_trans [OF l1 l2] l3] xl len by (simp add: t3_def)
qed

end
