(* ===== verification/Sched_Spec.thy ===== *)
theory Sched_Spec
  imports Run_Queues Kevents
begin

text \<open>
  The scheduler against its specification: which task is in which queue. A queue assignment
  gives the list of tasks of each of the seven queues; \<open>queues_rel\<close> ties it to the linked lists,
  \<open>sched_ok\<close> adds what the states of the tasks and the processors must be. The operations are
  shown to succeed on such states and to move tasks between the lists as the specification says.
\<close>

section \<open>Queue assignments\<close>

datatype qid = Prio nat | Sleep | Reap

fun is_queue :: "qid \<Rightarrow> bool" where
  "is_queue (Prio i) \<longleftrightarrow> i < TASK_PRIORITY_MAX_PRIORITIES"
| "is_queue _ \<longleftrightarrow> True"

fun rq_of :: "ksched \<Rightarrow> qid \<Rightarrow> scheduler_runqueue" where
  "rq_of s (Prio i) = prio_queue s ! i"
| "rq_of s Sleep = sleep_queue s"
| "rq_of s Reap = reap_queue s"

fun set_rq :: "qid \<Rightarrow> scheduler_runqueue \<Rightarrow> ksched \<Rightarrow> ksched" where
  "set_rq (Prio i) rq s = s\<lparr>prio_queue := (prio_queue s)[i := rq]\<rparr>"
| "set_rq Sleep rq s = s\<lparr>sleep_queue := rq\<rparr>"
| "set_rq Reap rq s = s\<lparr>reap_queue := rq\<rparr>"

type_synonym assignment = "qid \<Rightarrow> nat list"

definition queued :: "assignment \<Rightarrow> nat set" where
  "queued L = (\<Union>q. set (L q))"

definition queues_rel :: "ksched \<Rightarrow> assignment \<Rightarrow> bool" where
  "queues_rel s L \<longleftrightarrow>
     length (prio_queue s) = TASK_PRIORITY_MAX_PRIORITIES \<and>
     (\<forall>q. is_queue q \<longrightarrow> queue_rel (tasks s) (rq_of s q) (L q)) \<and>
     (\<forall>q. \<not> is_queue q \<longrightarrow> L q = []) \<and>
     (\<forall>q q'. q \<noteq> q' \<longrightarrow> set (L q) \<inter> set (L q') = {}) \<and>
     (\<forall>x < length (tasks s). x \<notin> queued L \<longrightarrow> rr_next (tasks s ! x) = Null \<and> rr_prev (tasks s ! x) = Null)"

lemma queues_relD: "queues_rel s L \<Longrightarrow> is_queue q \<Longrightarrow> queue_rel (tasks s) (rq_of s q) (L q)"
  by (simp add: queues_rel_def)

text \<open>The part of the state that the queue operations do not touch.\<close>

definition outer :: "ksched \<Rightarrow> ksched" where
  "outer s = s\<lparr>tasks := [], prio_queue := [], sleep_queue := \<lparr>num_tasks = 0, rq_head = Null, rq_tail = Null\<rparr>,
               reap_queue := \<lparr>num_tasks = 0, rq_head = Null, rq_tail = Null\<rparr>\<rparr>"

lemma outer_simps [simp]:
  "outer (s\<lparr>tasks := ts\<rparr>) = outer s" "outer (set_rq q rq s) = outer s"
  by (cases s; cases q; simp add: outer_def)+

lemma outer_eqD:
  assumes "outer s = outer s'"
  shows "cpus s = cpus s'" "phys s = phys s'" "kmem s = kmem s'" "task_id_counter s = task_id_counter s'"
  using assms by (cases s; cases s'; simp add: outer_def)+

lemma rq_of_set_rq:
  "is_queue q \<Longrightarrow> length (prio_queue s) = TASK_PRIORITY_MAX_PRIORITIES \<Longrightarrow>
   rq_of (set_rq q rq s) q' = (if q' = q then rq else rq_of s q')"
  by (cases q; cases q') auto

lemma set_rq_simps [simp]:
  "tasks (set_rq q rq s) = tasks s" "length (prio_queue (set_rq q rq s)) = length (prio_queue s)"
  by (cases q; simp)+

lemma rq_of_tasks [simp]: "rq_of (s\<lparr>tasks := ts\<rparr>) q = rq_of s q"
  by (cases q) auto

lemma queued_upd: "queued (L(q := xs)) = (\<Union>q' \<in> - {q}. set (L q')) \<union> set xs"
  by (auto simp: queued_def split: if_splits)

lemma not_queued: "x \<notin> queued L \<Longrightarrow> x \<notin> set (L q)"
  by (auto simp: queued_def)

lemma queuedI: "x \<in> set (L q) \<Longrightarrow> x \<in> queued L"
  by (auto simp: queued_def)

text \<open>Replacing the list of one queue.\<close>

lemma queues_rel_replace:
  assumes rel: "queues_rel s L" and q: "is_queue q"
    and lo: "links_only A (tasks s) ts'" and new: "queue_rel ts' rq' xs'"
    and A: "\<And>q'. q' \<noteq> q \<Longrightarrow> set (L q') \<inter> A = {}" and sub: "set xs' \<subseteq> A"
    and out: "\<And>x. x \<in> A \<Longrightarrow> x \<notin> set xs' \<Longrightarrow> x < length ts' \<Longrightarrow> rr_next (ts' ! x) = Null \<and> rr_prev (ts' ! x) = Null"
    and old: "set (L q) \<subseteq> A"
  shows "queues_rel (set_rq q rq' (s\<lparr>tasks := ts'\<rparr>)) (L(q := xs'))"
proof -
  note R = rel [unfolded queues_rel_def]
  let ?s = "set_rq q rq' (s\<lparr>tasks := ts'\<rparr>)"
  have len: "length ts' = length (tasks s)" using lo by (rule links_only_length)
  have "queue_rel (tasks ?s) (rq_of ?s q') ((L(q := xs')) q')" if "is_queue q'" for q'
  proof (cases "q' = q")
    case True
    then show ?thesis using new R q by (simp add: rq_of_set_rq)
  next
    case False
    have "queue_rel ts' (rq_of s q') (L q')"
      by (rule links_only_other [OF lo]) (use R that A [OF False] in auto)
    then show ?thesis using R q False by (simp add: rq_of_set_rq)
  qed
  moreover have "set ((L(q := xs')) q1) \<inter> set ((L(q := xs')) q2) = {}" if "q1 \<noteq> q2" for q1 q2
    using R that sub A [of q1] A [of q2] by (auto split: if_splits)
  moreover have "rr_next (ts' ! x) = Null \<and> rr_prev (ts' ! x) = Null"
    if x: "x < length ts'" "x \<notin> queued (L(q := xs'))" for x
  proof (cases "x \<in> A")
    case True
    then show ?thesis using out x not_queued [OF x(2), of q] by auto
  next
    case False
    have "x \<notin> queued L" using x(2) False old by (auto simp: queued_def split: if_splits)
    moreover have "ts' ! x = tasks s ! x" using lo x False len by (auto simp: links_only_def)
    ultimately show ?thesis using R x len by simp
  qed
  ultimately show ?thesis using R q by (auto simp: queues_rel_def)
qed

section \<open>Queue operations on assignments\<close>

lemma insert_back_rel:
  assumes rel: "queues_rel s L" and q: "is_queue q" and x: "x < length (tasks s)" "x \<notin> queued L"
  shows "\<exists>ts' rq'. runqueue_insert_back (Ref x) (tasks s) (rq_of s q) = Some (ts', rq') \<and>
           queues_rel (set_rq q rq' (s\<lparr>tasks := ts'\<rparr>)) (L(q := L q @ [x])) \<and> same_tasks (tasks s) ts'"
proof -
  have "queue_rel (tasks s) (rq_of s q) (L q)" using rel q by (simp add: queues_rel_def)
  from insert_back_ok [OF this x(1) not_queued [OF x(2)]] obtain ts' rq' where
    r: "runqueue_insert_back (Ref x) (tasks s) (rq_of s q) = Some (ts', rq')"
      "queue_rel ts' rq' (L q @ [x])" "links_only (insert x (set (L q))) (tasks s) ts'" by blast
  have "queues_rel (set_rq q rq' (s\<lparr>tasks := ts'\<rparr>)) (L(q := L q @ [x]))"
    by (rule queues_rel_replace [OF rel q r(3,2)])
      (use rel x not_queued [OF x(2)] in \<open>auto simp: queues_rel_def\<close>)
  with r show ?thesis by (auto simp: links_only_def)
qed

lemma insert_front_rel:
  assumes rel: "queues_rel s L" and q: "is_queue q" and x: "x < length (tasks s)" "x \<notin> queued L"
  shows "\<exists>ts' rq'. runqueue_insert_front (Ref x) (tasks s) (rq_of s q) = Some (ts', rq') \<and>
           queues_rel (set_rq q rq' (s\<lparr>tasks := ts'\<rparr>)) (L(q := x # L q)) \<and> same_tasks (tasks s) ts'"
proof -
  have "queue_rel (tasks s) (rq_of s q) (L q)" using rel q by (simp add: queues_rel_def)
  from insert_front_ok [OF this x(1) not_queued [OF x(2)]] obtain ts' rq' where
    r: "runqueue_insert_front (Ref x) (tasks s) (rq_of s q) = Some (ts', rq')"
      "queue_rel ts' rq' (x # L q)" "links_only (insert x (set (L q))) (tasks s) ts'" by blast
  have "queues_rel (set_rq q rq' (s\<lparr>tasks := ts'\<rparr>)) (L(q := x # L q))"
    by (rule queues_rel_replace [OF rel q r(3,2)])
      (use rel x not_queued [OF x(2)] in \<open>auto simp: queues_rel_def\<close>)
  with r show ?thesis by (auto simp: links_only_def)
qed

lemma remove_rel:
  assumes rel: "queues_rel s L" and q: "is_queue q" and x: "x \<in> set (L q)"
  shows "\<exists>ts' rq'. runqueue_remove (Ref x) (tasks s) (rq_of s q) = Some (ts', rq') \<and>
           queues_rel (set_rq q rq' (s\<lparr>tasks := ts'\<rparr>)) (L(q := remove1 x (L q))) \<and> same_tasks (tasks s) ts'"
proof -
  have qr: "queue_rel (tasks s) (rq_of s q) (L q)" using rel q by (simp add: queues_rel_def)
  from remove_ok [OF qr x] obtain ts' rq' where
    r: "runqueue_remove (Ref x) (tasks s) (rq_of s q) = Some (ts', rq')"
      "queue_rel ts' rq' (remove1 x (L q))" "links_only (set (L q)) (tasks s) ts'"
      "rr_next (ts' ! x) = Null" "rr_prev (ts' ! x) = Null" by blast
  have set: "set (remove1 x (L q)) = set (L q) - {x}" using queue_distinct [OF qr] by simp
  have "queues_rel (set_rq q rq' (s\<lparr>tasks := ts'\<rparr>)) (L(q := remove1 x (L q)))"
    by (rule queues_rel_replace [OF rel q r(3,2)]) (use rel x r set in \<open>auto simp: queues_rel_def\<close>)
  with r show ?thesis by (auto simp: links_only_def)
qed

lemma pop_front_rel:
  assumes rel: "queues_rel s L" and q: "is_queue q" and x: "L q = x # xs"
  shows "\<exists>ts' rq'. runqueue_pop_front (tasks s) (rq_of s q) = Some (Ref x, ts', rq') \<and>
           queues_rel (set_rq q rq' (s\<lparr>tasks := ts'\<rparr>)) (L(q := xs)) \<and> same_tasks (tasks s) ts'"
proof -
  have "queue_rel (tasks s) (rq_of s q) (L q)" using rel q by (simp add: queues_rel_def)
  then have qr: "queue_rel (tasks s) (rq_of s q) (x # xs)" by (simp add: x)
  from pop_front_ok [OF qr] obtain ts' rq' where
    r: "runqueue_pop_front (tasks s) (rq_of s q) = Some (Ref x, ts', rq')"
      "queue_rel ts' rq' xs" "links_only (insert x (set xs)) (tasks s) ts'"
      "rr_next (ts' ! x) = Null" "rr_prev (ts' ! x) = Null" by blast
  have A: "set (L q') \<inter> insert x (set xs) = {}" if "q' \<noteq> q" for q'
  proof -
    have "set (L q') \<inter> set (L q) = {}" using rel that by (simp add: queues_rel_def)
    then show ?thesis by (simp add: x)
  qed
  have "queues_rel (set_rq q rq' (s\<lparr>tasks := ts'\<rparr>)) (L(q := xs))"
    by (rule queues_rel_replace [OF rel q r(3,2)]) (use A x r(4,5) in auto)
  with r show ?thesis by (auto simp: links_only_def)
qed

section \<open>Operations of the scheduler on assignments\<close>

text \<open>A step that moves tasks between queues: the assignment changes from \<open>L\<close> to \<open>L'\<close>, and apart from
  the links only the state member of the tasks changes, by \<open>f\<close>.\<close>

definition bare_tasks :: "ksched \<Rightarrow> task list" where
  "bare_tasks s = map bare (tasks s)"

definition moves :: "ksched \<Rightarrow> ksched \<Rightarrow> assignment \<Rightarrow> bool" where
  "moves s s' L' \<longleftrightarrow> queues_rel s' L' \<and> outer s' = outer s \<and> bare_tasks s' = bare_tasks s"

lemma same_tasks_bare: "same_tasks ts ts' \<longleftrightarrow> map bare ts' = map bare ts"
  by (auto simp: same_tasks_def list_eq_iff_nth_eq)

lemma moves_bare: "moves s s' L \<Longrightarrow> length (tasks s') = length (tasks s) \<and> (\<forall>i < length (tasks s). bare (tasks s' ! i) = bare (tasks s ! i))"
  by (auto simp: moves_def bare_tasks_def list_eq_iff_nth_eq)

lemma prio_index_less [simp]: "prio_index p < TASK_PRIORITY_MAX_PRIORITIES"
  by (cases p) (simp_all add: TASK_PRIORITY_MAX_PRIORITIES_def)

lemma queue_op_move:
  assumes "\<exists>ts' rq'. f = Some (ts', rq') \<and> queues_rel (set_rq q rq' (s\<lparr>tasks := ts'\<rparr>)) L' \<and> same_tasks (tasks s) ts'"
  shows "\<exists>s'. Option.bind f (\<lambda>(ts', rq'). Some (set_rq q rq' (s\<lparr>tasks := ts'\<rparr>))) = Some s' \<and> moves s s' L'"
  using assms by (auto simp: moves_def bare_tasks_def same_tasks_bare)

lemma prio_insert_back_move:
  assumes "queues_rel s L" "x < length (tasks s)" "x \<notin> queued L"
  shows "\<exists>s'. prio_insert_back (prio_index p) (Ref x) s = Some s' \<and>
              moves s s' (L(Prio (prio_index p) := L (Prio (prio_index p)) @ [x]))"
proof -
  have "prio_insert_back (prio_index p) (Ref x) s =
      Option.bind (runqueue_insert_back (Ref x) (tasks s) (rq_of s (Prio (prio_index p))))
        (\<lambda>(ts', rq'). Some (set_rq (Prio (prio_index p)) rq' (s\<lparr>tasks := ts'\<rparr>)))"
    using assms by (simp add: prio_insert_back_def queues_rel_def)
  with queue_op_move [OF insert_back_rel [OF assms(1) _ assms(2,3), of "Prio (prio_index p)"]]
  show ?thesis by simp
qed

lemma prio_insert_front_move:
  assumes "queues_rel s L" "x < length (tasks s)" "x \<notin> queued L"
  shows "\<exists>s'. prio_insert_front (prio_index p) (Ref x) s = Some s' \<and>
              moves s s' (L(Prio (prio_index p) := x # L (Prio (prio_index p))))"
proof -
  have "prio_insert_front (prio_index p) (Ref x) s =
      Option.bind (runqueue_insert_front (Ref x) (tasks s) (rq_of s (Prio (prio_index p))))
        (\<lambda>(ts', rq'). Some (set_rq (Prio (prio_index p)) rq' (s\<lparr>tasks := ts'\<rparr>)))"
    using assms by (simp add: prio_insert_front_def queues_rel_def)
  with queue_op_move [OF insert_front_rel [OF assms(1) _ assms(2,3), of "Prio (prio_index p)"]]
  show ?thesis by simp
qed

lemma sleep_insert_back_move:
  assumes "queues_rel s L" "x < length (tasks s)" "x \<notin> queued L"
  shows "\<exists>s'. sleep_insert_back (Ref x) s = Some s' \<and> moves s s' (L(Sleep := L Sleep @ [x]))"
  using queue_op_move [OF insert_back_rel [OF assms(1) _ assms(2,3), of Sleep]]
  by (simp add: sleep_insert_back_def)

lemma reap_insert_back_move:
  assumes "queues_rel s L" "x < length (tasks s)" "x \<notin> queued L"
  shows "\<exists>s'. reap_insert_back (Ref x) s = Some s' \<and> moves s s' (L(Reap := L Reap @ [x]))"
  using queue_op_move [OF insert_back_rel [OF assms(1) _ assms(2,3), of Reap]]
  by (simp add: reap_insert_back_def)

lemma sleep_remove_move:
  assumes "queues_rel s L" "x \<in> set (L Sleep)"
  shows "\<exists>s'. sleep_remove (Ref x) s = Some s' \<and> moves s s' (L(Sleep := remove1 x (L Sleep)))"
  using queue_op_move [OF remove_rel [OF assms(1) _ assms(2)]]
  by (simp add: sleep_remove_def)

lemma prio_pop_empty:
  assumes "queues_rel s L" "i < TASK_PRIORITY_MAX_PRIORITIES" "L (Prio i) = []"
  shows "prio_pop i s = Some (Null, s)"
proof -
  have "queue_rel (tasks s) (prio_queue s ! i) []"
    using queues_relD [OF assms(1), of "Prio i"] assms(2,3) by simp
  from pop_front_empty [OF this] show ?thesis using assms by (simp add: prio_pop_def queues_rel_def)
qed

lemma prio_pop_move:
  assumes "queues_rel s L" "i < TASK_PRIORITY_MAX_PRIORITIES" "L (Prio i) = x # xs"
  shows "\<exists>s'. prio_pop i s = Some (Ref x, s') \<and> moves s s' (L(Prio i := xs))"
proof -
  have iq: "is_queue (Prio i)" using assms(2) by simp
  from pop_front_rel [OF assms(1) iq assms(3)] obtain ts' rq' where
    r: "runqueue_pop_front (tasks s) (prio_queue s ! i) = Some (Ref x, ts', rq')"
    "queues_rel (set_rq (Prio i) rq' (s\<lparr>tasks := ts'\<rparr>)) (L(Prio i := xs))" "same_tasks (tasks s) ts'" by auto
  have "i < length (prio_queue s)" using assms(1,2) by (simp add: queues_rel_def)
  then have "prio_pop i s = Some (Ref x, set_rq (Prio i) rq' (s\<lparr>tasks := ts'\<rparr>))"
    by (simp add: prio_pop_def r(1))
  moreover have "moves s (set_rq (Prio i) rq' (s\<lparr>tasks := ts'\<rparr>)) (L(Prio i := xs))"
    using r(2,3) outer_simps by (simp add: moves_def bare_tasks_def same_tasks_bare del: set_rq.simps)
  ultimately show ?thesis by blast
qed

text \<open>Writing a member other than the links.\<close>

definition keeps_links :: "(task \<Rightarrow> task) \<Rightarrow> bool" where
  "keeps_links f \<longleftrightarrow> (\<forall>t. rr_next (f t) = rr_next t \<and> rr_prev (f t) = rr_prev t)"

lemma keeps_links_state [simp]: "keeps_links (state_update g)" "keeps_links (jctx_update h)"
  by (simp_all add: keeps_links_def)

lemma upd_Ref: "x < length (tasks s) \<Longrightarrow> upd f (Ref x) s = Some (s\<lparr>tasks := (tasks s)[x := f (tasks s ! x)]\<rparr>)"
  by (simp add: upd_def upd_task_Ref)

lemma queues_rel_upd:
  assumes "queues_rel s L" "keeps_links f"
  shows "queues_rel (s\<lparr>tasks := (tasks s)[x := f (tasks s ! x)]\<rparr>) L"
proof -
  let ?ts = "(tasks s)[x := f (tasks s ! x)]"
  have nth: "rr_next (?ts ! i) = rr_next (tasks s ! i) \<and> rr_prev (?ts ! i) = rr_prev (tasks s ! i)" for i
    using assms(2) by (cases "x < length (tasks s)") (auto simp: keeps_links_def nth_list_update list_update_beyond)
  then have "t_next ?ts = t_next (tasks s)" "t_prev ?ts = t_prev (tasks s)"
    by (simp_all add: t_next_def t_prev_def fun_eq_iff)
  then have "queue_rel ?ts rq xs = queue_rel (tasks s) rq xs" for rq xs by (simp add: queue_rel_def)
  then show ?thesis using assms(1) nth by (simp add: queues_rel_def)
qed

section \<open>The invariant of the scheduler\<close>

abbreviation st :: "ksched \<Rightarrow> nat \<Rightarrow> task_state" where
  "st s i \<equiv> state (tasks s ! i)"

abbreviation pr :: "ksched \<Rightarrow> nat \<Rightarrow> nat" where
  "pr s i \<equiv> prio_index (prio (tasks s ! i))"

abbreviation cur :: "ksched \<Rightarrow> nat \<Rightarrow> task_ptr" where
  "cur s c \<equiv> curr_thread (cpus s ! c)"

abbreviation idl :: "ksched \<Rightarrow> nat \<Rightarrow> task_ptr" where
  "idl s c \<equiv> idle_thread (cpus s ! c)"

text \<open>The state a task in a given queue has.\<close>

fun st_ok :: "qid \<Rightarrow> task_state \<Rightarrow> nat \<Rightarrow> bool" where
  "st_ok (Prio i) a p \<longleftrightarrow> a = TASK_STATE_READY \<and> p = i"
| "st_ok Sleep a p \<longleftrightarrow> a = TASK_STATE_SLEEPING \<or> a = TASK_STATE_UNITIALIZED"
| "st_ok Reap a p \<longleftrightarrow> a = TASK_STATE_KILLED"

definition states_ok :: "ksched \<Rightarrow> assignment \<Rightarrow> bool" where
  "states_ok s L \<longleftrightarrow>
     (\<forall>q. \<forall>x \<in> set (L q). st_ok q (st s x) (pr s x)) \<and>
     (\<forall>x < length (tasks s). st s x = TASK_STATE_SLEEPING \<longrightarrow> x \<in> set (L Sleep))"

text \<open>The processors: each has an idle thread that is in no queue, and, unless it is in the middle
  of a switch (\<open>I\<close>), a current thread that runs and is in no queue. No thread runs on two processors.\<close>

definition cpus_ok :: "nat set \<Rightarrow> ksched \<Rightarrow> assignment \<Rightarrow> bool" where
  "cpus_ok I s L \<longleftrightarrow>
     (\<forall>c < length (cpus s). \<exists>y. idl s c = Ref y \<and> y < length (tasks s) \<and> y \<notin> queued L \<and>
        (st s y = TASK_STATE_READY \<or> (c \<notin> I \<and> cur s c = Ref y))) \<and>
     (\<forall>c < length (cpus s). c \<notin> I \<longrightarrow>
        (\<exists>x. cur s c = Ref x \<and> x < length (tasks s) \<and> st s x = TASK_STATE_RUNNING \<and> x \<notin> queued L)) \<and>
     (\<forall>c < length (cpus s). \<forall>c' < length (cpus s). c \<noteq> c' \<longrightarrow>
        idl s c \<noteq> idl s c' \<and> (c' \<notin> I \<longrightarrow> idl s c \<noteq> cur s c') \<and> (c \<notin> I \<longrightarrow> c' \<notin> I \<longrightarrow> cur s c \<noteq> cur s c'))"

definition sched_ok_in :: "nat set \<Rightarrow> ksched \<Rightarrow> assignment \<Rightarrow> bool" where
  "sched_ok_in I s L \<longleftrightarrow> queues_rel s L \<and> states_ok s L \<and> cpus_ok I s L"

abbreviation sched_ok :: "ksched \<Rightarrow> assignment \<Rightarrow> bool" where
  "sched_ok \<equiv> sched_ok_in {}"

section \<open>Choosing the next task\<close>

text \<open>The specification: the first task of the first non-empty queue.\<close>

fun first_ready :: "assignment \<Rightarrow> nat list \<Rightarrow> (nat \<times> nat) option" where
  "first_ready L [] = None"
| "first_ready L (i # is) = (case L (Prio i) of [] \<Rightarrow> first_ready L is | x # xs \<Rightarrow> Some (i, x))"

lemma moves_st:
  assumes "moves s s' L" "i < length (tasks s)"
  shows "st s' i = st s i" "prio (tasks s' ! i) = prio (tasks s ! i)" "jctx (tasks s' ! i) = jctx (tasks s ! i)"
    "pmc (tasks s' ! i) = pmc (tasks s ! i)" "kernel_stack (tasks s' ! i) = kernel_stack (tasks s ! i)"
  using moves_bare [OF assms(1)] assms(2) bare_eqD by blast+

lemma find_task_from_spec:
  assumes "queues_rel s L" "states_ok s L" "\<forall>i \<in> set is. i < TASK_PRIORITY_MAX_PRIORITIES"
  shows "case first_ready L is of
           None \<Rightarrow> find_task_from is s = Some (Null, s)
         | Some (i, x) \<Rightarrow> x < length (tasks s) \<and> i < TASK_PRIORITY_MAX_PRIORITIES \<and>
             (\<exists>s' xs. find_task_from is s = Some (Ref x, s') \<and> L (Prio i) = x # xs \<and> moves s s' (L(Prio i := xs)))"
  using assms(3)
proof (induction "is")
  case (Cons i "is")
  show ?case
  proof (cases "L (Prio i)")
    case Nil
    have "prio_pop i s = Some (Null, s)" using Cons.prems by (intro prio_pop_empty [OF assms(1) _ Nil]) simp
    then have "find_task_from (i # is) s = find_task_from is s" "first_ready L (i # is) = first_ready L is"
      by (simp_all add: Nil)
    moreover have "\<forall>i \<in> set is. i < TASK_PRIORITY_MAX_PRIORITIES" using Cons.prems by simp
    ultimately show ?thesis using Cons.IH by (simp only:)
  next
    case (Cons x xs)
    have i: "i < TASK_PRIORITY_MAX_PRIORITIES" using Cons.prems by simp
    from prio_pop_move [OF assms(1) i Cons] obtain s' where
      s': "prio_pop i s = Some (Ref x, s')" "moves s s' (L(Prio i := xs))" by blast
    have x: "x < length (tasks s)"
      using queue_valid [OF queues_relD [OF assms(1), of "Prio i"]] i Cons by simp
    have "x \<in> set (L (Prio i))" by (simp add: Cons)
    then have "st_ok (Prio i) (st s x) (pr s x)" using assms(2) unfolding states_ok_def by blast
    then have "st s' x = TASK_STATE_READY" using moves_st(1) [OF s'(2) x] by simp
    moreover have "x < length (tasks s')" using moves_bare [OF s'(2)] x by simp
    ultimately have "find_task_from (i # is) s = Some (Ref x, s')" by (simp add: s'(1) get_task_Ref)
    moreover have "first_ready L (i # is) = Some (i, x)" by (simp add: Cons)
    ultimately show ?thesis using x i Cons s'(2) by (simp only: option.case prod.case) blast
  qed
qed simp

text \<open>The switch itself: the chosen task runs, with its page map, its kernel stack and its registers.\<close>

definition runs_next :: "nat \<Rightarrow> nat \<Rightarrow> ksched \<Rightarrow> ksched \<Rightarrow> bool" where
  "runs_next c x s s' \<longleftrightarrow>
     cur s' c = Ref x \<and> st s' x = TASK_STATE_RUNNING \<and> regs (cpus s' ! c) = jctx (tasks s ! x) \<and>
     cr3 (cpus s' ! c) = pmc (tasks s ! x) \<and> tss_rsp0 (cpus s' ! c) = kernel_stack (tasks s ! x) \<and>
     \<not> IF (cpus s' ! c)"

lemma switch2task_ok:
  assumes "x < length (tasks s)" "st s x = TASK_STATE_READY" "c < length (cpus s)" "\<not> IF (cpus s ! c)"
  shows "switch2task c (Ref x) s = Some (s\<lparr>tasks := (tasks s)[x := (tasks s ! x)\<lparr>state := TASK_STATE_RUNNING\<rparr>],
           cpus := (cpus s)[c := (cpus s ! c)\<lparr>cr3 := pmc (tasks s ! x), tss_rsp0 := kernel_stack (tasks s ! x),
             curr_thread := Ref x, oneshot_us := 20 * 1000, regs := jctx (tasks s ! x), rax := 1\<rparr>]\<rparr>)"
  using assms
  by (simp add: switch2task_def get_task_Ref preempt_fetch_of_def get_this_cpu_def upd_Ref put_cpu_def
      load_task_context_def)

lemma queues_rel_cpus [simp]: "queues_rel (s\<lparr>cpus := a\<rparr>) L = queues_rel s L"
proof -
  have "rq_of (s\<lparr>cpus := a\<rparr>) q = rq_of s q" for q by (cases q) auto
  then show ?thesis by (simp add: queues_rel_def)
qed

lemma outer_eqD_rest: "moves s s' L \<Longrightarrow> cpus s' = cpus s"
  by (auto simp: moves_def dest: outer_eqD)

definition next_of :: "nat \<Rightarrow> ksched \<Rightarrow> assignment \<Rightarrow> nat" where
  "next_of c s L = (case first_ready L [0..<TASK_PRIORITY_MAX_PRIORITIES] of
     Some (i, x) \<Rightarrow> x | None \<Rightarrow> (case idl s c of Ref y \<Rightarrow> y | _ \<Rightarrow> 0))"

definition after_pick :: "assignment \<Rightarrow> assignment" where
  "after_pick L = (case first_ready L [0..<TASK_PRIORITY_MAX_PRIORITIES] of
     Some (i, x) \<Rightarrow> L(Prio i := tl (L (Prio i))) | None \<Rightarrow> L)"

lemma queued_tl: "distinct (x # xs) \<Longrightarrow> L q = x # xs \<Longrightarrow> (\<And>q'. q' \<noteq> q \<Longrightarrow> x \<notin> set (L q')) \<Longrightarrow>
    queued (L(q := xs)) = queued L - {x}"
proof -
  assume a: "distinct (x # xs)" "L q = x # xs" "\<And>q'. q' \<noteq> q \<Longrightarrow> x \<notin> set (L q')"
  have "queued L = (\<Union>q' \<in> - {q}. set (L q')) \<union> set (L q)" by (auto simp: queued_def)
  moreover have "queued (L(q := xs)) = (\<Union>q' \<in> - {q}. set (L q')) \<union> set xs" by (rule queued_upd)
  ultimately show ?thesis using a by auto
qed

lemma pick_ok:
  assumes ok: "sched_ok_in {c} s L" and c: "c < length (cpus s)" and IF: "\<not> IF (cpus s ! c)"
  shows "\<exists>s1. find_task_to_run s =
           Some (if first_ready L [0..<TASK_PRIORITY_MAX_PRIORITIES] = None then Null else Ref (next_of c s L), s1) \<and>
         moves s s1 (after_pick L) \<and> next_of c s L < length (tasks s) \<and>
         st s (next_of c s L) = TASK_STATE_READY \<and> next_of c s L \<notin> queued (after_pick L) \<and>
         queued (after_pick L) \<subseteq> queued L \<and>
         (first_ready L [0..<TASK_PRIORITY_MAX_PRIORITIES] = None \<longrightarrow> idl s c = Ref (next_of c s L)) \<and>
         (first_ready L [0..<TASK_PRIORITY_MAX_PRIORITIES] \<noteq> None \<longrightarrow> next_of c s L \<in> queued L) \<and>
         (\<forall>q. set (after_pick L q) \<subseteq> set (L q)) \<and> after_pick L Sleep = L Sleep"
proof (cases "first_ready L [0..<TASK_PRIORITY_MAX_PRIORITIES]")
  case None
  have rel: "queues_rel s L" and so: "states_ok s L" using ok by (auto simp: sched_ok_in_def)
  obtain y where y: "idl s c = Ref y" "y < length (tasks s)" "y \<notin> queued L" "st s y = TASK_STATE_READY"
    using ok c by (auto simp: sched_ok_in_def cpus_ok_def)
  have "find_task_to_run s = Some (Null, s)"
    using find_task_from_spec [OF rel so, of "[0..<TASK_PRIORITY_MAX_PRIORITIES]"] None
    by (simp add: find_task_to_run_def)
  then show ?thesis using None y rel by (simp add: next_of_def after_pick_def moves_def)
next
  case (Some p)
  obtain i x where p: "p = (i, x)" by (cases p)
  have rel: "queues_rel s L" and so: "states_ok s L" using ok by (auto simp: sched_ok_in_def)
  obtain s' xs where f: "x < length (tasks s)" "i < TASK_PRIORITY_MAX_PRIORITIES" "L (Prio i) = x # xs"
    "find_task_to_run s = Some (Ref x, s')" "moves s s' (L(Prio i := xs))"
    using find_task_from_spec [OF rel so, of "[0..<TASK_PRIORITY_MAX_PRIORITIES]"] Some p
    unfolding find_task_to_run_def by auto
  define L' where "L' = L(Prio i := xs)"
  have x: "next_of c s L = x" and a: "after_pick L = L'"
    using Some p f(3) by (simp_all add: next_of_def after_pick_def L'_def)
  have inq: "x \<in> set (L (Prio i))" by (simp add: f(3))
  have dist: "distinct (x # xs)"
    using queue_distinct [OF queues_relD [OF rel, of "Prio i"]] f(2,3) by simp
  have "\<forall>q q'. q \<noteq> q' \<longrightarrow> set (L q) \<inter> set (L q') = {}" using rel by (simp add: queues_rel_def)
  then have oth: "x \<notin> set (L q')" if "q' \<noteq> Prio i" for q' using that inq by blast
  have ql: "queued L' = queued L - {x}" unfolding L'_def by (rule queued_tl [of x xs L "Prio i"]) (use dist f(3) oth in auto)
  have "st_ok (Prio i) (st s x) (pr s x)" using so inq unfolding states_ok_def by blast
  then have "st s x = TASK_STATE_READY" by simp
  moreover have "\<forall>q. set (L' q) \<subseteq> set (L q)" "L' Sleep = L Sleep"
    using f(3) by (auto simp: L'_def)
  moreover have "moves s s' L'" using f(5) by (simp add: L'_def)
  ultimately show ?thesis using f(1,4) Some queuedI [of x L "Prio i"] inq unfolding x a ql by auto
qed

lemma idle_distinct:
  assumes "sched_ok_in I s L" "c < length (cpus s)" "d < length (cpus s)" "c \<noteq> d"
  shows "idl s c \<noteq> idl s d" "d \<notin> I \<Longrightarrow> idl s c \<noteq> cur s d" "c \<notin> I \<Longrightarrow> d \<notin> I \<Longrightarrow> cur s c \<noteq> cur s d"
  using assms unfolding sched_ok_in_def cpus_ok_def by blast+

lemma switch_next_ok:
  assumes ok: "sched_ok_in {c} s L" and c: "c < length (cpus s)" and IF: "\<not> IF (cpus s ! c)"
  shows "\<exists>s'. switch_to_next_task c s = Some s' \<and> sched_ok s' (after_pick L) \<and> runs_next c (next_of c s L) s s' \<and>
              length (cpus s') = length (cpus s) \<and> length (tasks s') = length (tasks s) \<and>
              (\<forall>i < length (tasks s). jctx (tasks s' ! i) = jctx (tasks s ! i)) \<and>
              st s (next_of c s L) = TASK_STATE_READY \<and>
              (\<forall>i < length (tasks s). i \<noteq> next_of c s L \<longrightarrow> st s' i = st s i)"
proof -
  let ?x = "next_of c s L" and ?L = "after_pick L"
  obtain s1 where pick: "find_task_to_run s =
           Some (if first_ready L [0..<TASK_PRIORITY_MAX_PRIORITIES] = None then Null else Ref ?x, s1) \<and>
         moves s s1 ?L \<and> ?x < length (tasks s) \<and> st s ?x = TASK_STATE_READY \<and> ?x \<notin> queued ?L \<and>
         queued ?L \<subseteq> queued L \<and>
         (first_ready L [0..<TASK_PRIORITY_MAX_PRIORITIES] = None \<longrightarrow> idl s c = Ref ?x) \<and>
         (first_ready L [0..<TASK_PRIORITY_MAX_PRIORITIES] \<noteq> None \<longrightarrow> ?x \<in> queued L) \<and>
         (\<forall>q. set (?L q) \<subseteq> set (L q)) \<and> ?L Sleep = L Sleep"
    using pick_ok [OF assms] by (rule exE)
  then have f: "find_task_to_run s =
      Some (if first_ready L [0..<TASK_PRIORITY_MAX_PRIORITIES] = None then Null else Ref ?x, s1)"
    and mv: "moves s s1 ?L" and x: "?x < length (tasks s)" "st s ?x = TASK_STATE_READY" "?x \<notin> queued ?L"
    and sub: "queued ?L \<subseteq> queued L" "\<forall>q. set (?L q) \<subseteq> set (L q)" "?L Sleep = L Sleep"
    and none: "first_ready L [0..<TASK_PRIORITY_MAX_PRIORITIES] = None \<longrightarrow> idl s c = Ref ?x"
    and some: "first_ready L [0..<TASK_PRIORITY_MAX_PRIORITIES] \<noteq> None \<longrightarrow> ?x \<in> queued L"
    by - (elim conjE, assumption)+
  have cp: "cpus s1 = cpus s" using mv by (rule outer_eqD_rest)
  have len: "length (tasks s1) = length (tasks s)" using moves_bare [OF mv] by simp
  have st1: "st s1 i = st s i" "prio (tasks s1 ! i) = prio (tasks s ! i)" if "i < length (tasks s)" for i
    using moves_st [OF mv that] by simp_all
  define s2 where "s2 = s1\<lparr>tasks := (tasks s1)[?x := (tasks s1 ! ?x)\<lparr>state := TASK_STATE_RUNNING\<rparr>],
           cpus := (cpus s1)[c := (cpus s1 ! c)\<lparr>cr3 := pmc (tasks s1 ! ?x), tss_rsp0 := kernel_stack (tasks s1 ! ?x),
             curr_thread := Ref ?x, oneshot_us := 20 * 1000, regs := jctx (tasks s1 ! ?x), rax := 1\<rparr>]\<rparr>"
  have "switch2task c (Ref ?x) s1 = Some s2"
    unfolding s2_def by (rule switch2task_ok) (use x len cp st1 c IF in auto)
  moreover have "preempt_fetch_of c s = Some False" "get_this_cpu c s = Some (cpus s ! c)"
    using c IF by (simp_all add: preempt_fetch_of_def get_this_cpu_def)
  ultimately have run: "switch_to_next_task c s = Some s2"
    using none by (simp add: switch_to_next_task_def f)
  have st2: "st s2 i = (if i = ?x then TASK_STATE_RUNNING else st s i)"
    "prio (tasks s2 ! i) = prio (tasks s ! i)" if "i < length (tasks s)" for i
    using that x len st1 by (auto simp: s2_def nth_list_update)
  have len2: "length (tasks s2) = length (tasks s)" by (simp add: s2_def len)
  have "queues_rel s1 ?L" using mv by (simp add: moves_def)
  then have rel: "queues_rel s2 ?L"
    unfolding s2_def using queues_rel_upd [of s1 ?L "state_update (\<lambda>_. TASK_STATE_RUNNING)" ?x] by simp
  have so: "states_ok s2 ?L"
  proof -
    have so0: "states_ok s L" using ok by (simp add: sched_ok_in_def)
    have valid: "y < length (tasks s)" if "y \<in> set (?L q)" for y q
    proof -
      have "y \<in> set (L q)" using sub that by blast
      moreover have "queues_rel s L" using ok by (simp add: sched_ok_in_def)
      ultimately show ?thesis by (cases "is_queue q") (auto simp: queues_rel_def queue_rel_def)
    qed
    have "st_ok q (st s2 y) (pr s2 y)" if "y \<in> set (?L q)" for y q
    proof -
      have "y \<noteq> ?x" using x(3) that by (auto simp: queued_def)
      moreover have "st_ok q (st s y) (pr s y)" using so0 sub that unfolding states_ok_def by blast
      ultimately show ?thesis using st2 [OF valid [OF that]] by simp
    qed
    moreover have "y \<in> set (?L Sleep)" if "y < length (tasks s2)" "st s2 y = TASK_STATE_SLEEPING" for y
    proof -
      have "y \<noteq> ?x" using st2 [of y] that len2 x by auto
      then have "st s y = TASK_STATE_SLEEPING" using st2 [of y] that len2 by simp
      then show ?thesis using so0 that len2 sub(3) by (simp add: states_ok_def)
    qed
    ultimately show ?thesis unfolding states_ok_def by blast
  qed
  have cur2: "cur s2 d = (if d = c then Ref ?x else cur s d)" "idl s2 d = idl s d" if "d < length (cpus s)" for d
    using that cp c by (auto simp: s2_def nth_list_update)
  have lenc: "length (cpus s2) = length (cpus s)" by (simp add: s2_def cp)
  have co: "cpus_ok {} s2 ?L"
    unfolding cpus_ok_def
  proof (intro conjI allI impI)
    fix d assume d: "d < length (cpus s2)"
    then have d': "d < length (cpus s)" by (simp add: lenc)
    from ok d' obtain y where y: "idl s d = Ref y" "y < length (tasks s)" "y \<notin> queued L"
      "st s y = TASK_STATE_READY \<or> (d \<noteq> c \<and> cur s d = Ref y)"
      by (auto simp: sched_ok_in_def cpus_ok_def)
    show "\<exists>y. idl s2 d = Ref y \<and> y < length (tasks s2) \<and> y \<notin> queued ?L \<and>
        (st s2 y = TASK_STATE_READY \<or> d \<notin> {} \<and> cur s2 d = Ref y)"
    proof (cases "y = ?x")
      case True
      have "d = c"
      proof (rule ccontr)
        assume ne: "d \<noteq> c"
        have "?x \<notin> queued L" using y(3) True by simp
        then have "idl s c = Ref ?x" using none some by blast
        then show False using idle_distinct(1) [OF ok d' c ne] y(1) True by simp
      qed
      then show ?thesis using y True sub(1) cur2 [OF d'] len2 by auto
    next
      case False
      then show ?thesis using y sub(1) cur2 [OF d'] len2 st2 [OF y(2)] by auto
    qed
    show "\<exists>y. cur s2 d = Ref y \<and> y < length (tasks s2) \<and> st s2 y = TASK_STATE_RUNNING \<and> y \<notin> queued ?L"
    proof (cases "d = c")
      case True
      then show ?thesis using cur2 [OF d'] x len2 st2 [OF x(1)] by simp
    next
      case False
      then obtain y where "cur s d = Ref y" "y < length (tasks s)" "st s y = TASK_STATE_RUNNING" "y \<notin> queued L"
        using ok d' by (auto simp: sched_ok_in_def cpus_ok_def)
      then show ?thesis using False cur2 [OF d'] len2 st2 [of y] sub(1) by auto
    qed
    fix e assume e: "e < length (cpus s2)" "d \<noteq> e"
    then have e': "e < length (cpus s)" by (simp add: lenc)
    have K: "idl s d \<noteq> idl s e" "e \<noteq> c \<Longrightarrow> idl s d \<noteq> cur s e" "d \<noteq> c \<Longrightarrow> e \<noteq> c \<Longrightarrow> cur s d \<noteq> cur s e"
      using idle_distinct [OF ok d' e' e(2)] by auto
    have other: "cur s g \<noteq> Ref ?x" if g: "g < length (cpus s)" "g \<noteq> c" for g
    proof -
      obtain y where "cur s g = Ref y" "st s y = TASK_STATE_RUNNING"
        using ok g by (auto simp: sched_ok_in_def cpus_ok_def)
      then show ?thesis using x(2) by auto
    qed
    have idle_other: "idl s g \<noteq> Ref ?x" if g: "g < length (cpus s)" "g \<noteq> c" for g
    proof
      assume a: "idl s g = Ref ?x"
      then have "?x \<notin> queued L" using ok g by (auto simp: sched_ok_in_def cpus_ok_def)
      then have "idl s c = Ref ?x" using none some by blast
      then show False using idle_distinct(1) [OF ok g(1) c g(2)] a by simp
    qed
    show "idl s2 d \<noteq> idl s2 e" using K cur2 [OF d'] cur2 [OF e'] by simp
    show "idl s2 d \<noteq> cur s2 e"
      using K idle_other [OF d'] cur2 [OF d'] cur2 [OF e'] e(2) by (cases "e = c") auto
    show "cur s2 d \<noteq> cur s2 e"
      using K other [OF d'] other [OF e'] cur2 [OF d'] cur2 [OF e'] e(2) by (cases "e = c"; cases "d = c") auto
  qed
  have "runs_next c ?x s s2"
    using c x len cp IF moves_st [OF mv x(1)] by (simp add: runs_next_def s2_def)
  moreover have "\<forall>i < length (tasks s). jctx (tasks s2 ! i) = jctx (tasks s ! i)"
    using moves_st(3) [OF mv] len x(1) by (auto simp: s2_def nth_list_update)
  moreover have "\<forall>i < length (tasks s). i \<noteq> ?x \<longrightarrow> st s2 i = st s i" using st2 by simp
  ultimately show ?thesis using run rel so co lenc len2 x(2) by (auto simp: sched_ok_in_def)
qed

end
