(* ===== verification/Sched_Steps.thy ===== *)
theory Sched_Steps
  imports Sched_Spec
begin

text \<open>
  The operations of the scheduler keep its invariant: waking a task, blocking the current thread,
  preemption. The steps of a running system are a relation over these operations, and no step
  from a state that satisfies the invariant panics.
\<close>

section \<open>Changing the state of one task\<close>

lemma sched_change:
  assumes ok: "sched_ok_in I s L" and rel: "queues_rel s' L'"
    and lc: "length (cpus s') = length (cpus s)" and len: "length (tasks s') = length (tasks s)"
    and cp: "\<And>c. c < length (cpus s) \<Longrightarrow> idl s' c = idl s c \<and> (c \<notin> I' \<longrightarrow> cur s' c = cur s c)"
    and st': "\<And>i. i < length (tasks s) \<Longrightarrow> st s' i = (if i = x then a else st s i) \<and> prio (tasks s' ! i) = prio (tasks s ! i)"
    and L': "\<And>q y. y \<in> set (L' q) \<Longrightarrow> (if y = x then st_ok q a (pr s x) else y \<in> set (L q))"
    and sl: "a = TASK_STATE_SLEEPING \<Longrightarrow> x \<in> set (L' Sleep)" "\<And>y. y \<noteq> x \<Longrightarrow> y \<in> set (L Sleep) \<Longrightarrow> y \<in> set (L' Sleep)"
    and I: "I \<subseteq> I'" "\<And>c. c < length (cpus s) \<Longrightarrow> c \<notin> I' \<Longrightarrow> cur s c \<noteq> Ref x"
    and idle: "\<And>c. c < length (cpus s) \<Longrightarrow> idl s c = Ref x \<Longrightarrow> c \<in> I' \<and> a = TASK_STATE_READY \<and> x \<notin> queued L'"
    and sw: "\<And>c. c < length (cpus s) \<Longrightarrow> c \<in> I' - I \<Longrightarrow> cur s c = idl s c \<Longrightarrow> idl s c = Ref x"
  shows "sched_ok_in I' s' L'"
proof -
  have so: "states_ok s L" and co: "cpus_ok I s L" using ok by (auto simp: sched_ok_in_def)
  have valid: "y < length (tasks s)" if "y \<in> set (L' q)" for y q
    using rel that len by (cases "is_queue q") (auto simp: queues_rel_def queue_rel_def)
  have nq: "y \<notin> queued L'" if "y \<noteq> x" "y \<notin> queued L" for y
  proof
    assume "y \<in> queued L'"
    then obtain q where "y \<in> set (L' q)" by (auto simp: queued_def)
    then have "y \<in> set (L q)" using L' that(1) by auto
    then show False using that(2) by (auto simp: queued_def)
  qed
  have "st_ok q (st s' y) (pr s' y)" if "y \<in> set (L' q)" for q y
  proof (cases "y = x")
    case True
    then show ?thesis using L' [OF that] st' [OF valid [OF that]] by simp
  next
    case False
    then have "y \<in> set (L q)" using L' [OF that] by simp
    then have "st_ok q (st s y) (pr s y)" using so unfolding states_ok_def by blast
    then show ?thesis using False st' [OF valid [OF that]] by simp
  qed
  moreover have "y \<in> set (L' Sleep)" if "y < length (tasks s')" "st s' y = TASK_STATE_SLEEPING" for y
    using that st' [of y] len so sl by (cases "y = x") (auto simp: states_ok_def)
  ultimately have so': "states_ok s' L'" unfolding states_ok_def by blast
  have "\<exists>y. idl s' c = Ref y \<and> y < length (tasks s') \<and> y \<notin> queued L' \<and>
        (st s' y = TASK_STATE_READY \<or> (c \<notin> I' \<and> cur s' c = Ref y))" if c: "c < length (cpus s)" for c
  proof -
    obtain y where y: "idl s c = Ref y" "y < length (tasks s)" "y \<notin> queued L"
      "st s y = TASK_STATE_READY \<or> (c \<notin> I \<and> cur s c = Ref y)"
      using co c unfolding cpus_ok_def by auto
    show ?thesis
    proof (cases "y = x")
      case True
      then show ?thesis using y idle [OF c] cp [OF c] len st' [OF y(2)] by auto
    next
      case False
      then show ?thesis using y nq [OF False y(3)] cp [OF c] len st' [OF y(2)] sw [OF c] by auto
    qed
  qed
  moreover have "\<exists>y. cur s' c = Ref y \<and> y < length (tasks s') \<and> st s' y = TASK_STATE_RUNNING \<and> y \<notin> queued L'"
    if c: "c < length (cpus s)" "c \<notin> I'" for c
  proof -
    obtain y where y: "cur s c = Ref y" "y < length (tasks s)" "st s y = TASK_STATE_RUNNING" "y \<notin> queued L"
      using co c I(1) unfolding cpus_ok_def by auto
    have "y \<noteq> x" using I(2) [of c] c y(1) by auto
    then show ?thesis using y nq [OF _ y(4)] cp [OF c(1)] c(2) len st' [OF y(2)] by auto
  qed
  moreover have "idl s' c \<noteq> idl s' d \<and> (d \<notin> I' \<longrightarrow> idl s' c \<noteq> cur s' d) \<and> (c \<notin> I' \<longrightarrow> d \<notin> I' \<longrightarrow> cur s' c \<noteq> cur s' d)"
    if "c < length (cpus s)" "d < length (cpus s)" "c \<noteq> d" for c d
    using idle_distinct [OF ok, of c d] that cp [of c] cp [of d] I(1) by auto
  ultimately have "cpus_ok I' s' L'" unfolding cpus_ok_def lc by blast
  with rel so' show ?thesis by (simp add: sched_ok_in_def)
qed

text \<open>Changes that the invariant does not see: registers, contexts, the interrupt flag.\<close>

lemma sched_unseen:
  assumes "sched_ok_in I s L" "queues_rel s' L" "length (tasks s') = length (tasks s)"
    "length (cpus s') = length (cpus s)"
    "\<And>i. i < length (tasks s) \<Longrightarrow> st s' i = st s i \<and> prio (tasks s' ! i) = prio (tasks s ! i)"
    "\<And>c. c < length (cpus s) \<Longrightarrow> (c \<notin> I \<longrightarrow> cur s' c = cur s c) \<and> idl s' c = idl s c"
  shows "sched_ok_in I s' L"
proof -
  have valid: "y < length (tasks s)" if "y \<in> set (L q)" for y q
    using assms(2,3) that by (cases "is_queue q") (auto simp: queues_rel_def queue_rel_def)
  have "states_ok s' L" using assms valid unfolding sched_ok_in_def states_ok_def by simp
  moreover have "cpus_ok I s' L" using assms unfolding sched_ok_in_def cpus_ok_def by auto
  ultimately show ?thesis using assms(2) by (simp add: sched_ok_in_def)
qed

section \<open>Waking\<close>

definition wake_list :: "nat \<Rightarrow> nat \<Rightarrow> assignment \<Rightarrow> assignment" where
  "wake_list x p L = L(Sleep := remove1 x (L Sleep), Prio p := x # L (Prio p))"

lemma not_current_sleeping:
  assumes ok: "sched_ok_in I s L" and x: "st s x = TASK_STATE_SLEEPING" and c: "c < length (cpus s)"
  shows "c \<notin> I \<Longrightarrow> cur s c \<noteq> Ref x" "idl s c \<noteq> Ref x"
proof -
  show cur: "cur s c \<noteq> Ref x" if ci: "c \<notin> I"
  proof -
    obtain y where "cur s c = Ref y" "st s y = TASK_STATE_RUNNING"
      using ok c ci unfolding sched_ok_in_def cpus_ok_def by blast
    then show ?thesis using x by auto
  qed
  obtain y where "idl s c = Ref y" "st s y = TASK_STATE_READY \<or> (c \<notin> I \<and> cur s c = Ref y)"
    using ok c unfolding sched_ok_in_def cpus_ok_def by blast
  then show "idl s c \<noteq> Ref x" using x cur by auto
qed

lemma wake_sleeping:
  assumes ok: "sched_ok_in I s L" and x: "x < length (tasks s)" "st s x = TASK_STATE_SLEEPING"
  shows "\<exists>s'. scheduler_attempt_wake (Ref x) s = Some s' \<and> sched_ok_in I s' (wake_list x (pr s x) L) \<and>
              st s' x = TASK_STATE_READY \<and> outer s' = outer s \<and> length (tasks s') = length (tasks s) \<and>
              (\<forall>i < length (tasks s). i \<noteq> x \<longrightarrow> st s' i = st s i)"
proof -
  define p where "p = prio (tasks s ! x)"
  have rel: "queues_rel s L" and so: "states_ok s L" using ok by (auto simp: sched_ok_in_def)
  have inq: "x \<in> set (L Sleep)" using so x by (simp add: states_ok_def)
  have dist: "distinct (L Sleep)" using queue_distinct [OF queues_relD [OF rel, of Sleep]] by simp
  define L1 where "L1 = L(Sleep := remove1 x (L Sleep))"
  obtain s1 where s1: "sleep_remove (Ref x) s = Some s1" "moves s s1 L1"
    using sleep_remove_move [OF rel inq] unfolding L1_def by blast
  have len1: "length (tasks s1) = length (tasks s)" using moves_bare [OF s1(2)] by simp
  define s2 where "s2 = s1\<lparr>tasks := (tasks s1)[x := (tasks s1 ! x)\<lparr>state := TASK_STATE_READY\<rparr>]\<rparr>"
  have u: "upd (state_update (\<lambda>_. TASK_STATE_READY)) (Ref x) s1 = Some s2"
    using x len1 by (simp add: upd_Ref s2_def)
  have rel2: "queues_rel s2 L1"
    unfolding s2_def using queues_rel_upd [of s1 L1 "state_update (\<lambda>_. TASK_STATE_READY)" x] s1(2)
    by (simp add: moves_def)
  have oth: "x \<notin> set (L q)" if "q \<noteq> Sleep" for q using rel that inq unfolding queues_rel_def by blast
  then have nq: "x \<notin> queued L1" using dist by (auto simp: L1_def queued_def split: if_splits)
  have x2: "x < length (tasks s2)" using x len1 by (simp add: s2_def)
  obtain s3 where s3: "prio_insert_front (prio_index p) (Ref x) s2 = Some s3"
    "moves s2 s3 (L1(Prio (prio_index p) := x # L1 (Prio (prio_index p))))"
    using prio_insert_front_move [OF rel2 x2 nq] by blast
  define L3 where "L3 = L1(Prio (prio_index p) := x # L1 (Prio (prio_index p)))"
  have L3: "L3 = wake_list x (pr s x) L" by (simp add: L3_def L1_def wake_list_def p_def)
  have st3: "st s3 i = (if i = x then TASK_STATE_READY else st s i) \<and> prio (tasks s3 ! i) = prio (tasks s ! i)"
    if "i < length (tasks s)" for i
  proof -
    have "i < length (tasks s2)" using that len1 by (simp add: s2_def)
    then show ?thesis using moves_st [OF s3(2)] moves_st [OF s1(2) that] that len1
      by (auto simp: s2_def nth_list_update)
  qed
  have out: "outer s3 = outer s" using s3(2) s1(2) by (simp add: moves_def s2_def)
  have len3: "length (tasks s3) = length (tasks s)" using moves_bare [OF s3(2)] len1 by (simp add: s2_def)
  have "sched_ok_in I s3 L3"
  proof (rule sched_change [OF ok, where x = x and a = TASK_STATE_READY])
    show "queues_rel s3 L3" using s3(2) by (simp add: moves_def L3_def)
    have "cpus s3 = cpus s" using out by (rule outer_eqD)
    then show "length (cpus s3) = length (cpus s)" "idl s3 c = idl s c \<and> (c \<notin> I \<longrightarrow> cur s3 c = cur s c)" for c by simp_all
    show "if y = x then st_ok q TASK_STATE_READY (pr s x) else y \<in> set (L q)" if "y \<in> set (L3 q)" for q y
      using that dist oth [of q] by (auto simp: L3_def L1_def p_def dest: notin_set_remove1 split: if_splits)
    show "y \<in> set (L3 Sleep)" if "y \<noteq> x" "y \<in> set (L Sleep)" for y
      using that by (simp add: L3_def L1_def)
  qed (use len3 st3 not_current_sleeping [OF ok x(2)] in auto)
  moreover have "scheduler_attempt_wake (Ref x) s = Some s3"
    using x by (simp add: scheduler_attempt_wake_def get_task_Ref s1(1) u p_def [symmetric] s3(1))
  ultimately show ?thesis using L3 st3 x out len3 by auto
qed

lemma wake_other:
  "x < length (tasks s) \<Longrightarrow> st s x \<noteq> TASK_STATE_SLEEPING \<Longrightarrow> scheduler_attempt_wake (Ref x) s = Some s"
  by (simp add: scheduler_attempt_wake_def get_task_Ref)

section \<open>Saving the context\<close>

text \<open>The registers that \<open>save_task_context\<close> stores: those of its caller after the return.\<close>

definition caller_ctx :: "nat \<Rightarrow> ksched \<Rightarrow> jmpbuf" where
  "caller_ctx c s = (let r = regs (cpus s ! c) in r\<lparr>rip := kmem s (rsp r), rsp := rsp r + 8\<rparr>)"

definition saved :: "nat \<Rightarrow> nat \<Rightarrow> ksched \<Rightarrow> ksched" where
  "saved c x s = s\<lparr>tasks := (tasks s)[x := (tasks s ! x)\<lparr>jctx := caller_ctx c s\<rparr>],
     cpus := (cpus s)[c := (cpus s ! c)\<lparr>regs := caller_ctx c s, rax := 0\<rparr>]\<rparr>"

lemma save_task_context_eq:
  "c < length (cpus s) \<Longrightarrow> x < length (tasks s) \<Longrightarrow> save_task_context c (Ref x) s = Some (saved c x s)"
  by (simp add: save_task_context_def upd_Ref saved_def caller_ctx_def put_cpu_def Let_def)

lemma saved_simps:
  assumes "c < length (cpus s)" "x < length (tasks s)"
  shows "length (tasks (saved c x s)) = length (tasks s)" "length (cpus (saved c x s)) = length (cpus s)"
    "st (saved c x s) i = st s i" "prio (tasks (saved c x s) ! i) = prio (tasks s ! i)"
    "cur (saved c x s) d = cur s d" "idl (saved c x s) d = idl s d" "IF (cpus (saved c x s) ! d) = IF (cpus s ! d)"
    "jctx (tasks (saved c x s) ! x) = caller_ctx c s"
    "rr_next (tasks (saved c x s) ! i) = rr_next (tasks s ! i)" "rr_prev (tasks (saved c x s) ! i) = rr_prev (tasks s ! i)"
  using assms by (cases "i = x"; cases "d = c"; auto simp: saved_def nth_list_update)+

lemma saved_rel: "queues_rel s L \<Longrightarrow> queues_rel (saved c x s) L"
  unfolding saved_def using queues_rel_upd [of s L "jctx_update (\<lambda>_. caller_ctx c s)" x] by simp

lemma saved_ok:
  assumes "sched_ok_in I s L" "c < length (cpus s)" "x < length (tasks s)"
  shows "sched_ok_in I (saved c x s) L"
proof (rule sched_unseen [OF assms(1)])
  show "queues_rel (saved c x s) L" using assms(1) by (simp add: sched_ok_in_def saved_rel)
qed (use saved_simps [OF assms(2,3)] in auto)

lemma set_IF_simps:
  assumes "c < length (cpus s)"
  shows "tasks (set_IF b c s) = tasks s" "length (cpus (set_IF b c s)) = length (cpus s)"
    "cur (set_IF b c s) d = cur s d" "idl (set_IF b c s) d = idl s d" "IF (cpus (set_IF b c s) ! c) = b"
    "caller_ctx d (set_IF b c s) = caller_ctx d s"
  using assms by (cases "d = c"; auto simp: set_IF_def caller_ctx_def)+

lemma set_IF_ok: "sched_ok_in I s L \<Longrightarrow> c < length (cpus s) \<Longrightarrow> sched_ok_in I (set_IF b c s) L"
  by (rule sched_unseen) (auto simp: set_IF_simps sched_ok_in_def, simp add: set_IF_def)

section \<open>Blocking\<close>

lemma put2sleep_ok:
  assumes ok: "sched_ok s L" and c: "c < length (cpus s)" "\<not> IF (cpus s ! c)"
    and x: "cur s c = Ref x" "idl s c \<noteq> Ref x"
  shows "\<exists>s1. scheduler_put_task2sleep c (Ref x) s = Some s1 \<and> sched_ok_in {c} s1 (L(Sleep := L Sleep @ [x])) \<and>
              outer s1 = outer s \<and> length (tasks s1) = length (tasks s) \<and> st s1 x = TASK_STATE_SLEEPING \<and> x < length (tasks s) \<and>
              prio (tasks s1 ! x) = prio (tasks s ! x)"
proof -
  have xt: "x < length (tasks s)" "st s x = TASK_STATE_RUNNING" "x \<notin> queued L" and rel: "queues_rel s L"
    using ok c x(1) by (auto simp: sched_ok_in_def cpus_ok_def)
  define s1 where "s1 = s\<lparr>tasks := (tasks s)[x := (tasks s ! x)\<lparr>state := TASK_STATE_SLEEPING\<rparr>]\<rparr>"
  have rel1: "queues_rel s1 L"
    unfolding s1_def using queues_rel_upd [OF rel, of "state_update (\<lambda>_. TASK_STATE_SLEEPING)" x] by simp
  have x1: "x < length (tasks s1)" using xt by (simp add: s1_def)
  define L' where "L' = L(Sleep := L Sleep @ [x])"
  obtain s2 where s2: "sleep_insert_back (Ref x) s1 = Some s2" "moves s1 s2 L'"
    using sleep_insert_back_move [OF rel1 x1 xt(3)] unfolding L'_def by blast
  have out: "outer s2 = outer s" using s2(2) by (simp add: moves_def s1_def)
  have len2: "length (tasks s2) = length (tasks s)" using moves_bare [OF s2(2)] by (simp add: s1_def)
  have st2: "st s2 i = (if i = x then TASK_STATE_SLEEPING else st s i) \<and> prio (tasks s2 ! i) = prio (tasks s ! i)"
    if "i < length (tasks s)" for i
    using moves_st [OF s2(2), of i] that by (auto simp: s1_def nth_list_update)
  have "sched_ok_in {c} s2 L'"
  proof (rule sched_change [OF ok, where x = x and a = TASK_STATE_SLEEPING])
    show "queues_rel s2 L'" using s2(2) by (simp add: moves_def)
    have "cpus s2 = cpus s" using out by (rule outer_eqD)
    then show "length (cpus s2) = length (cpus s)" "idl s2 d = idl s d \<and> (d \<notin> {c} \<longrightarrow> cur s2 d = cur s d)" for d by simp_all
    show "if y = x then st_ok q TASK_STATE_SLEEPING (pr s x) else y \<in> set (L q)" if "y \<in> set (L' q)" for q y
      using that xt(3) by (auto simp: L'_def queued_def split: if_splits)
    show "cur s d \<noteq> Ref x" if "d < length (cpus s)" "d \<notin> {c}" for d
      using idle_distinct(3) [OF ok c(1) that(1)] that x(1) by auto
    show "d \<in> {c} \<and> TASK_STATE_SLEEPING = TASK_STATE_READY \<and> x \<notin> queued L'"
      if "d < length (cpus s)" "idl s d = Ref x" for d
      using idle_distinct(2) [OF ok that(1) c(1)] that x by (cases "d = c") auto
  qed (use len2 st2 x in \<open>auto simp: L'_def\<close>)
  moreover have "scheduler_put_task2sleep c (Ref x) s = Some s2"
    using c x(1) xt s2(1)
    by (simp add: scheduler_put_task2sleep_def preempt_fetch_of_def get_this_cpu_def get_task_Ref upd_Ref s1_def)
  ultimately show ?thesis using out len2 st2 xt by (auto simp: L'_def)
qed

lemma next_of_cong: "idl s' c = idl s c \<Longrightarrow> next_of c s' L = next_of c s L"
  by (simp add: next_of_def split: option.splits)

lemma yield_asleep_ok:
  assumes ok: "sched_ok_in {c} s L" and c: "c < length (cpus s)"
    and x: "cur s c = Ref x" "x < length (tasks s)" "st s x = TASK_STATE_SLEEPING"
  shows "\<exists>s'. scheduler_yield c s = Some s' \<and> sched_ok s' (after_pick L) \<and>
              cur s' c = Ref (next_of c s L) \<and> jctx (tasks s' ! x) = caller_ctx c s \<and>
              st s' x = TASK_STATE_SLEEPING \<and> length (tasks s') = length (tasks s) \<and> length (cpus s') = length (cpus s)"
proof -
  define s0 where "s0 = set_IF False c s"
  note f = set_IF_simps [OF c, where b = False, folded s0_def]
  have ok0: "sched_ok_in {c} s0 L" using set_IF_ok [OF ok c] by (simp add: s0_def)
  have c0: "c < length (cpus s0)" and x0: "x < length (tasks s0)" using c x f by simp_all
  note g = saved_simps [OF c0 x0]
  have ok1: "sched_ok_in {c} (saved c x s0) L" using ok0 c0 x0 by (rule saved_ok)
  have c1: "c < length (cpus (saved c x s0))" "\<not> IF (cpus (saved c x s0) ! c)" using g f c by simp_all
  obtain s' where s': "switch_to_next_task c (saved c x s0) = Some s'" "sched_ok s' (after_pick L)"
    "runs_next c (next_of c (saved c x s0) L) (saved c x s0) s'"
    "\<forall>i < length (tasks (saved c x s0)). jctx (tasks s' ! i) = jctx (tasks (saved c x s0) ! i)"
    "st (saved c x s0) (next_of c (saved c x s0) L) = TASK_STATE_READY"
    "\<forall>i < length (tasks (saved c x s0)). i \<noteq> next_of c (saved c x s0) L \<longrightarrow> st s' i = st (saved c x s0) i"
    "length (tasks s') = length (tasks (saved c x s0))" "length (cpus s') = length (cpus (saved c x s0))"
    using switch_next_ok [OF ok1 c1] by blast
  have "scheduler_curr_task c s0 = Some (Ref x)"
    using c0 f x(1) by (simp add: scheduler_curr_task_def get_this_cpu_def)
  moreover have "get_task (tasks (saved c x s0)) (Ref x) = Some (tasks (saved c x s0) ! x)"
    using g x0 by (intro get_task_Ref) simp
  ultimately have "scheduler_yield c s = Some s'"
    using x(3) f g(3) s'(1)
    by (simp add: scheduler_yield_def s0_def [symmetric] save_task_context_eq [OF c0 x0] Let_def)
  moreover have "jctx (tasks s' ! x) = caller_ctx c s" using s'(4) g x0 f by simp
  moreover have "next_of c (saved c x s0) L = next_of c s L" using g f by (intro next_of_cong) simp
  moreover have "x \<noteq> next_of c (saved c x s0) L" using s'(5) g(3) f x(3) by auto
  then have "st s' x = TASK_STATE_SLEEPING" using s'(6) g f x by simp
  moreover have "length (tasks s') = length (tasks s)" "length (cpus s') = length (cpus s)" using s'(7,8) g f by simp_all
  ultimately show ?thesis using s'(2,3) by (auto simp: runs_next_def)
qed

text \<open>Blocking the current thread as \<open>kevents_poll\<close> does it: with interrupts off, to the sleep
  queue and on to the next task.\<close>

definition block_current :: "nat \<Rightarrow> ksched \<Rightarrow> ksched option" where
  "block_current c s = do {
     let s0 = set_IF False c s;
     this \<leftarrow> scheduler_curr_task c s0;
     s1 \<leftarrow> scheduler_put_task2sleep c this s0;
     scheduler_yield c s1
   }"

lemma block_ok:
  assumes ok: "sched_ok s L" and c: "c < length (cpus s)" and x: "cur s c = Ref x" "idl s c \<noteq> Ref x"
  shows "\<exists>s'. block_current c s = Some s' \<and> sched_ok s' (after_pick (L(Sleep := L Sleep @ [x]))) \<and>
              cur s' c = Ref (next_of c s L) \<and> jctx (tasks s' ! x) = caller_ctx c s \<and>
              st s' x = TASK_STATE_SLEEPING \<and> x < length (tasks s') \<and>
              length (tasks s') = length (tasks s) \<and> length (cpus s') = length (cpus s)"
proof -
  define s0 where "s0 = set_IF False c s"
  note f = set_IF_simps [OF c, where b = False, folded s0_def]
  have ok0: "sched_ok s0 L" using set_IF_ok [OF ok c] by (simp add: s0_def)
  have c0: "c < length (cpus s0)" "\<not> IF (cpus s0 ! c)" and x0: "cur s0 c = Ref x" "idl s0 c \<noteq> Ref x"
    using c x f by simp_all
  define L' where "L' = L(Sleep := L Sleep @ [x])"
  obtain s1 where s1: "scheduler_put_task2sleep c (Ref x) s0 = Some s1" "sched_ok_in {c} s1 L'"
    "outer s1 = outer s0" "length (tasks s1) = length (tasks s0)" "st s1 x = TASK_STATE_SLEEPING" "x < length (tasks s0)"
    using put2sleep_ok [OF ok0 c0 x0] unfolding L'_def by blast
  have o: "cpus s1 = cpus s0" "kmem s1 = kmem s0" using outer_eqD [OF s1(3)] by simp_all
  have c1: "c < length (cpus s1)" "cur s1 c = Ref x" "x < length (tasks s1)" using o c0 x0 s1 by simp_all
  obtain s' where s': "scheduler_yield c s1 = Some s'" "sched_ok s' (after_pick L')"
    "cur s' c = Ref (next_of c s1 L')" "jctx (tasks s' ! x) = caller_ctx c s1"
    "st s' x = TASK_STATE_SLEEPING" "length (tasks s') = length (tasks s1)" "length (cpus s') = length (cpus s1)"
    using yield_asleep_ok [OF s1(2) c1 s1(5)] by blast
  have "caller_ctx c s1 = caller_ctx c s" using o f by (simp add: caller_ctx_def)
  moreover have "next_of c s1 L' = next_of c s L"
  proof -
    have "first_ready L' is = first_ready L is" for "is"
      by (induction "is") (auto simp: L'_def split: list.splits)
    then have "next_of c s1 L' = next_of c s1 L" by (simp add: next_of_def)
    also have "\<dots> = next_of c s L" using o f by (intro next_of_cong) simp
    finally show ?thesis .
  qed
  moreover have "scheduler_curr_task c s0 = Some (Ref x)"
    using c0 x0 by (simp add: scheduler_curr_task_def get_this_cpu_def)
  moreover have "length (tasks s') = length (tasks s)" "length (cpus s') = length (cpus s)" "x < length (tasks s')"
    using s'(6,7) s1(4,6) o f by simp_all
  ultimately show ?thesis using s' s1(1)
    by (auto simp: block_current_def s0_def [symmetric] L'_def Let_def)
qed

section \<open>Preemption\<close>

definition requeue :: "nat \<Rightarrow> nat \<Rightarrow> ksched \<Rightarrow> assignment \<Rightarrow> assignment" where
  "requeue c x s L = (if idl s c = Ref x then L else L(Prio (pr s x) := L (Prio (pr s x)) @ [x]))"

text \<open>The state after the current thread was taken off the processor and marked ready.\<close>

definition off_cpu :: "nat \<Rightarrow> nat \<Rightarrow> ksched \<Rightarrow> ksched" where
  "off_cpu c x s = s\<lparr>tasks := (tasks s)[x := (tasks s ! x)\<lparr>state := TASK_STATE_READY\<rparr>],
     cpus := (cpus s)[c := (cpus s ! c)\<lparr>curr_thread := Null\<rparr>]\<rparr>"

lemma off_cpu_simps:
  assumes "c < length (cpus s)" "x < length (tasks s)"
  shows "length (tasks (off_cpu c x s)) = length (tasks s)" "length (cpus (off_cpu c x s)) = length (cpus s)"
    "st (off_cpu c x s) i = (if i = x then TASK_STATE_READY else st s i)"
    "prio (tasks (off_cpu c x s) ! i) = prio (tasks s ! i)"
    "d \<noteq> c \<Longrightarrow> cur (off_cpu c x s) d = cur s d" "idl (off_cpu c x s) d = idl s d"
    "IF (cpus (off_cpu c x s) ! d) = IF (cpus s ! d)" "caller_ctx d (off_cpu c x s) = caller_ctx d s"
  using assms by (cases "i = x"; cases "d = c"; auto simp: off_cpu_def nth_list_update caller_ctx_def)+

lemma off_cpu_rel: "queues_rel s L \<Longrightarrow> queues_rel (off_cpu c x s) L"
  unfolding off_cpu_def using queues_rel_upd [of s L "state_update (\<lambda>_. TASK_STATE_READY)" x] by simp

text \<open>From a good state, the current thread off its processor and in the queue \<open>L'\<close> says.\<close>

lemma off_cpu_change:
  assumes ok: "sched_ok s L" and c: "c < length (cpus s)" and x: "cur s c = Ref x"
    and rel: "queues_rel s' (requeue c x s L)"
    and same: "length (tasks s') = length (tasks s)" "length (cpus s') = length (cpus s)"
      "\<And>i. i < length (tasks s) \<Longrightarrow> st s' i = (if i = x then TASK_STATE_READY else st s i) \<and> prio (tasks s' ! i) = prio (tasks s ! i)"
      "\<And>d. d < length (cpus s) \<Longrightarrow> idl s' d = idl s d \<and> (d \<noteq> c \<longrightarrow> cur s' d = cur s d)"
  shows "sched_ok_in {c} s' (requeue c x s L)"
proof (rule sched_change [OF ok rel, where x = x and a = TASK_STATE_READY])
  have nq: "x \<notin> queued L" using ok c x by (auto simp: sched_ok_in_def cpus_ok_def)
  show "if y = x then st_ok q TASK_STATE_READY (pr s x) else y \<in> set (L q)" if "y \<in> set (requeue c x s L q)" for q y
    using that nq by (auto simp: requeue_def queued_def split: if_splits)
  show "cur s d \<noteq> Ref x" if "d < length (cpus s)" "d \<notin> {c}" for d
    using idle_distinct(3) [OF ok c that(1)] that x by auto
  show "d \<in> {c} \<and> TASK_STATE_READY = TASK_STATE_READY \<and> x \<notin> queued (requeue c x s L)"
    if "d < length (cpus s)" "idl s d = Ref x" for d
    using idle_distinct(2) [OF ok that(1) c] that x nq by (cases "d = c") (auto simp: requeue_def)
qed (use same x in \<open>auto simp: requeue_def\<close>)

lemma preempt_switch:
  assumes ok: "sched_ok s L" and c: "c < length (cpus s)" "\<not> IF (cpus s ! c)" and x: "cur s c = Ref x"
  shows "\<exists>s4 s'. (if idl s c = Ref x then s4 = off_cpu c x s
           else prio_insert_back (pr s x) (Ref x) (saved c x (off_cpu c x s)) = Some s4) \<and>
         switch_to_next_task c s4 = Some s' \<and> sched_ok s' (after_pick (requeue c x s L)) \<and>
         cur s' c = Ref (next_of c s (requeue c x s L)) \<and>
         (idl s c \<noteq> Ref x \<longrightarrow> jctx (tasks s' ! x) = caller_ctx c s)"
proof (cases "idl s c = Ref x")
  case True
  have xt: "x < length (tasks s)" and rel: "queues_rel s L"
    using ok c x by (auto simp: sched_ok_in_def cpus_ok_def)
  note f = off_cpu_simps [OF c(1) xt]
  have "sched_ok_in {c} (off_cpu c x s) (requeue c x s L)"
  proof (rule off_cpu_change [OF ok c(1) x])
    show "queues_rel (off_cpu c x s) (requeue c x s L)" using True off_cpu_rel [OF rel] by (simp add: requeue_def)
  qed (simp_all add: f)
  moreover have "c < length (cpus (off_cpu c x s))" "\<not> IF (cpus (off_cpu c x s) ! c)" using f c by simp_all
  ultimately obtain s' where s': "switch_to_next_task c (off_cpu c x s) = Some s'" "sched_ok s' (after_pick (requeue c x s L))"
    "runs_next c (next_of c (off_cpu c x s) (requeue c x s L)) (off_cpu c x s) s'"
    using switch_next_ok by blast
  then have "cur s' c = Ref (next_of c s (requeue c x s L))"
    using next_of_cong [OF f(6), of c "requeue c x s L"] by (simp add: runs_next_def)
  with s'(1,2) True show ?thesis by (intro exI [of _ "off_cpu c x s"] exI [of _ s']) simp
next
  case False
  have xt: "x < length (tasks s)" "x \<notin> queued L" and rel: "queues_rel s L"
    using ok c x by (auto simp: sched_ok_in_def cpus_ok_def)
  define s1 where "s1 = off_cpu c x s"
  note f = off_cpu_simps [OF c(1) xt(1), folded s1_def]
  have c1: "c < length (cpus s1)" and x1: "x < length (tasks s1)" using c xt f by simp_all
  define s3 where "s3 = saved c x s1"
  note g = saved_simps [OF c1 x1, folded s3_def]
  have rel3: "queues_rel s3 L" unfolding s3_def s1_def by (rule saved_rel, rule off_cpu_rel, rule rel)
  have x3: "x < length (tasks s3)" using x1 g by simp
  define L' where "L' = requeue c x s L"
  have L': "L' = L(Prio (pr s x) := L (Prio (pr s x)) @ [x])" using False by (simp add: L'_def requeue_def)
  obtain s4 where s4: "prio_insert_back (pr s x) (Ref x) s3 = Some s4" "moves s3 s4 L'"
    using prio_insert_back_move [OF rel3 x3 xt(2)] unfolding L' by blast
  have len4: "length (tasks s4) = length (tasks s)" using moves_bare [OF s4(2)] g f by simp
  have cp4: "cpus s4 = cpus s3" using s4(2) by (rule outer_eqD_rest)
  have "sched_ok_in {c} s4 L'"
    unfolding L'_def
  proof (rule off_cpu_change [OF ok c(1) x])
    show "queues_rel s4 (requeue c x s L)" using s4(2) by (simp add: moves_def L'_def)
    show "st s4 i = (if i = x then TASK_STATE_READY else st s i) \<and> prio (tasks s4 ! i) = prio (tasks s ! i)"
      if "i < length (tasks s)" for i
      using moves_st(1,2) [OF s4(2), of i] that g f by simp
  qed (use len4 cp4 g f in auto)
  moreover have "c < length (cpus s4)" "\<not> IF (cpus s4 ! c)" using cp4 g f c by simp_all
  ultimately obtain s' where s': "switch_to_next_task c s4 = Some s'" "sched_ok s' (after_pick L')"
    "runs_next c (next_of c s4 L') s4 s'" "\<forall>i < length (tasks s4). jctx (tasks s' ! i) = jctx (tasks s4 ! i)"
    using switch_next_ok by blast
  have "next_of c s4 L' = next_of c s L'" using cp4 g f by (intro next_of_cong) simp
  then have "cur s' c = Ref (next_of c s L')" using s'(3) by (simp add: runs_next_def)
  moreover have "jctx (tasks s' ! x) = caller_ctx c s"
    using s'(4) len4 xt(1) moves_st(3) [OF s4(2) x3] g f by simp
  ultimately show ?thesis using s'(1,2) s4(1) False unfolding L'_def s3_def s1_def
    by (intro exI [of _ s4] exI [of _ s']) simp
qed

lemma preempt_ok:
  assumes ok: "sched_ok (sched k) L" and c: "c < length (cpus (sched k))" "\<not> IF (cpus (sched k) ! c)"
    and x: "cur (sched k) c = Ref x"
  shows "\<exists>s'. scheduler_preempt c k = Some (k\<lparr>sched := s'\<rparr>) \<and>
              sched_ok s' (after_pick (requeue c x (sched k) L)) \<and>
              cur s' c = Ref (next_of c (sched k) (requeue c x (sched k) L)) \<and>
              (idl (sched k) c \<noteq> Ref x \<longrightarrow> jctx (tasks s' ! x) = caller_ctx c (sched k))"
proof -
  let ?s = "sched k"
  have xt: "x < length (tasks ?s)" "st ?s x = TASK_STATE_RUNNING"
    using ok c x by (auto simp: sched_ok_in_def cpus_ok_def)
  define s1 where "s1 = put_cpu c ((cpus ?s ! c)\<lparr>curr_thread := Null\<rparr>) ?s"
  have s1: "tasks s1 = tasks ?s" by (simp add: s1_def put_cpu_def)
  have u: "upd (state_update (\<lambda>_. TASK_STATE_READY)) (Ref x) s1 = Some (off_cpu c x ?s)"
    using xt s1 by (simp add: upd_Ref s1_def put_cpu_def off_cpu_def)
  have sv: "save_task_context c (Ref x) (off_cpu c x ?s) = Some (saved c x (off_cpu c x ?s))"
    using c xt off_cpu_simps(1,2) [OF c(1) xt(1)] by (intro save_task_context_eq) auto
  obtain s4 s' where sw: "if idl ?s c = Ref x then s4 = off_cpu c x ?s
       else prio_insert_back (pr ?s x) (Ref x) (saved c x (off_cpu c x ?s)) = Some s4"
    and s': "switch_to_next_task c s4 = Some s'" "sched_ok s' (after_pick (requeue c x ?s L))"
      "cur s' c = Ref (next_of c ?s (requeue c x ?s L))" "idl ?s c \<noteq> Ref x \<longrightarrow> jctx (tasks s' ! x) = caller_ctx c ?s"
    using preempt_switch [OF ok c x] by blast
  have pre: "preempt_fetch_of c ?s = Some False" "get_this_cpu c ?s = Some (cpus ?s ! c)"
    using c by (simp_all add: preempt_fetch_of_def get_this_cpu_def)
  have "get_task (tasks s1) (Ref x) = Some (tasks ?s ! x)" using xt s1 by (simp add: get_task_Ref)
  then have "scheduler_preempt c k = Some (k\<lparr>sched := s'\<rparr>)"
    using sw s'(1) xt(2)
    by (cases "idl ?s c = Ref x") (auto simp: scheduler_preempt_def pre x s1_def [symmetric] u sv with_sched_def Let_def)
  with s' show ?thesis by blast
qed

end
