(* ===== verification/Sched_Props.thy ===== *)
theory Sched_Props
  imports Sched_Steps
begin

text \<open>
  Properties of the scheduler: the invariant of the running system, the choice of the next task,
  the task switch, the start of a kernel thread, and two ways to make the scheduler panic.
\<close>

section \<open>The running system\<close>









section \<open>A small system\<close>

text \<open>One processor; task 0 is its idle thread, task 1 runs, task 2 sleeps.\<close>

definition demo_task :: "task_state \<Rightarrow> task_priority \<Rightarrow> task" where
  "demo_task a p = zero_task\<lparr>state := a, prio := p\<rparr>"

definition demo_frames :: frame_state where
  "demo_frames = \<lparr>pages = [], frame_allocator_total = 0, frame_allocator_usable = 0, frame_allocator_free = 0,
     buddy_allocator = \<lparr>allocation_count = 0, deallocation_count = 0, orders = []\<rparr>\<rparr>"

definition empty_queue :: scheduler_runqueue where
  "empty_queue = \<lparr>num_tasks = 0, rq_head = Null, rq_tail = Null\<rparr>"

definition demo_sched :: ksched where
  "demo_sched = \<lparr>tasks = [demo_task TASK_STATE_READY TASK_PRIORITY_IDLE, demo_task TASK_STATE_RUNNING TASK_PRIORITY_NORMAL,
       demo_task TASK_STATE_SLEEPING TASK_PRIORITY_HIGH],
     task_id_counter = 3, prio_queue = replicate 5 empty_queue,
     sleep_queue = \<lparr>num_tasks = 1, rq_head = Ref 2, rq_tail = Ref 2\<rparr>, reap_queue = empty_queue,
     kernel_task = Null,
     cpus = [\<lparr>curr_thread = Ref 1, idle_thread = Ref 0, tss_rsp0 = 0, IF = True, cr3 = 0, oneshot_us = 0,
              regs = zero_jmpbuf, rdi = 0, rsi = 0, rax = 0\<rparr>],
     phys = demo_frames, kmem = (\<lambda>_. 0), hhdm_offset = 0, kernel_pmc = 0, sym_thread_spinup = 0, sym_kernel_idle = 0\<rparr>"


definition demo_queues :: assignment where
  "demo_queues = (\<lambda>_. [])(Sleep := [2])"

lemma queue_rel_empty: "queue_rel ts empty_queue []"
  by (simp add: queue_rel_def empty_queue_def)

lemma demo_ok: "sched_ok demo_sched demo_queues"
proof -
  have "queue_rel (tasks demo_sched) (rq_of demo_sched q) (demo_queues q)" if "is_queue q" for q
    using that queue_rel_empty
    by (cases q) (auto simp: demo_sched_def demo_queues_def TASK_PRIORITY_MAX_PRIORITIES_def queue_rel_def
        t_prev_def t_next_def demo_task_def zero_task_def)
  moreover have q: "queued demo_queues = {2}" by (auto simp: queued_def demo_queues_def split: if_splits)
  moreover have "rr_next (tasks demo_sched ! x) = Null \<and> rr_prev (tasks demo_sched ! x) = Null" if "x < 3" for x
    using that by (auto simp: demo_sched_def demo_task_def zero_task_def less_Suc_eq numeral_3_eq_3)
  ultimately have "queues_rel demo_sched demo_queues"
    by (auto simp: queues_rel_def demo_queues_def demo_sched_def TASK_PRIORITY_MAX_PRIORITIES_def)
  moreover have "states_ok demo_sched demo_queues"
    by (auto simp: states_ok_def demo_queues_def demo_sched_def demo_task_def zero_task_def less_Suc_eq)
  moreover have "cpus_ok {} demo_sched demo_queues"
    using q by (simp add: cpus_ok_def demo_sched_def demo_task_def zero_task_def)
  ultimately show ?thesis by (simp add: sched_ok_in_def)
qed


section \<open>Choosing the next task\<close>

lemma first_ready_upt:
  "(case first_ready L [m..<n] of
      None \<Rightarrow> \<forall>i. m \<le> i \<longrightarrow> i < n \<longrightarrow> L (Prio i) = []
    | Some (i, x) \<Rightarrow> m \<le> i \<and> i < n \<and> (\<exists>xs. L (Prio i) = x # xs) \<and> (\<forall>j. m \<le> j \<longrightarrow> j < i \<longrightarrow> L (Prio j) = []))"
proof (induction "n - m" arbitrary: m)
  case (Suc d)
  then have "[m..<n] = m # [Suc m..<n]" by (simp add: upt_conv_Cons)
  moreover have "case first_ready L [Suc m..<n] of
      None \<Rightarrow> \<forall>i. Suc m \<le> i \<longrightarrow> i < n \<longrightarrow> L (Prio i) = []
    | Some (i, x) \<Rightarrow> Suc m \<le> i \<and> i < n \<and> (\<exists>xs. L (Prio i) = x # xs) \<and> (\<forall>j. Suc m \<le> j \<longrightarrow> j < i \<longrightarrow> L (Prio j) = [])"
    using Suc by simp
  ultimately show ?case using Suc.hyps(2)
    by (auto split: option.splits list.splits) (metis Suc_leI le_neq_implies_less)+
qed auto

text \<open>C10. The switch goes to the first task of the non-empty run queue of highest priority, and to the
  idle thread of the processor when all run queues are empty; the task runs with its saved
  registers, its page map and its kernel stack, and has left its queue.\<close>

theorem next_task_has_highest_priority:
  assumes "sched_ok_in {c} s L" "c < length (cpus s)" "\<not> IF (cpus s ! c)"
  shows "\<exists>s' x. switch_to_next_task c s = Some s' \<and> runs_next c x s s' \<and>
    ((\<exists>i xs. i < TASK_PRIORITY_MAX_PRIORITIES \<and> L (Prio i) = x # xs \<and> (\<forall>j < i. L (Prio j) = []) \<and>
        sched_ok s' (L(Prio i := xs))) \<or>
     ((\<forall>i < TASK_PRIORITY_MAX_PRIORITIES. L (Prio i) = []) \<and> idl s c = Ref x \<and> sched_ok s' L))"
proof -
  obtain s' where s': "switch_to_next_task c s = Some s'" "sched_ok s' (after_pick L)"
    "runs_next c (next_of c s L) s s'" using switch_next_ok [OF assms] by blast
  note fr = first_ready_upt [where L = L and m = 0 and n = TASK_PRIORITY_MAX_PRIORITIES]
  show ?thesis
  proof (cases "first_ready L [0..<TASK_PRIORITY_MAX_PRIORITIES]")
    case None
    obtain y where "idl s c = Ref y" using assms(1,2) by (auto simp: sched_ok_in_def cpus_ok_def)
    then have "idl s c = Ref (next_of c s L)" using None by (simp add: next_of_def)
    then show ?thesis using s' None fr by (intro exI [of _ s'] exI) (auto simp: after_pick_def)
  next
    case (Some p)
    obtain i x where p: "p = (i, x)" by (cases p)
    obtain xs where xs: "L (Prio i) = x # xs" using fr Some p by auto
    have n: "next_of c s L = x" and L: "after_pick L = L(Prio i := xs)"
      using Some p xs by (simp_all add: next_of_def after_pick_def)
    have "i < TASK_PRIORITY_MAX_PRIORITIES" "\<forall>j < i. L (Prio j) = []" using fr Some p by auto
    then show ?thesis using s' xs unfolding n L by blast
  qed
qed

theorem next_task_has_highest_priority_witness:
  "\<exists>s s' x. scheduler_put_task2sleep 0 (Ref 1) (set_IF False 0 demo_sched) = Some s \<and>
     switch_to_next_task 0 s = Some s' \<and> runs_next 0 x s s'"
proof -
  let ?s0 = "set_IF False 0 demo_sched"
  have c: "0 < length (cpus ?s0)" "\<not> IF (cpus ?s0 ! 0)" "cur ?s0 0 = Ref 1" "idl ?s0 0 \<noteq> Ref 1"
    by (simp_all add: demo_sched_def set_IF_def)
  have "sched_ok ?s0 demo_queues" using demo_ok by (rule set_IF_ok) (simp add: demo_sched_def)
  from put2sleep_ok [OF this c] obtain s L where s: "scheduler_put_task2sleep 0 (Ref 1) ?s0 = Some s"
    "sched_ok_in {0} s L" "outer s = outer ?s0" by blast
  have "cpus s = cpus ?s0" using outer_eqD [OF s(3)] by simp
  then show ?thesis using next_task_has_highest_priority [OF s(2)] s(1) c(1,2) by auto
qed

section \<open>Contexts\<close>

text \<open>C11. A thread resumes where it gave up the processor. Blocking the current thread stores the
  registers of the caller in its context, with the return address as instruction pointer and the
  stack pointer above it, and a later switch to that thread loads exactly these registers.\<close>

theorem context_round_trip:
  assumes "sched_ok s L" "c < length (cpus s)" "cur s c = Ref x" "idl s c \<noteq> Ref x"
  shows "\<exists>s'. block_current c s = Some s' \<and>
     (\<forall>t d. d < length (cpus t) \<longrightarrow> \<not> IF (cpus t ! d) \<longrightarrow> x < length (tasks t) \<longrightarrow> st t x = TASK_STATE_READY \<longrightarrow>
        jctx (tasks t ! x) = jctx (tasks s' ! x) \<longrightarrow>
        (\<exists>t'. switch2task d (Ref x) t = Some t' \<and> rax (cpus t' ! d) = 1 \<and>
              regs (cpus t' ! d) = (regs (cpus s ! c))\<lparr>rip := kmem s (rsp (regs (cpus s ! c))), rsp := rsp (regs (cpus s ! c)) + 8\<rparr>))"
proof -
  obtain s' where s': "block_current c s = Some s'" "jctx (tasks s' ! x) = caller_ctx c s"
    using block_ok [OF assms] by blast
  then show ?thesis by (auto simp: switch2task_ok caller_ctx_def Let_def)
qed

theorem context_round_trip_witness:
  "\<exists>s' t'. block_current 0 demo_sched = Some s' \<and>
     switch2task 0 (Ref 1) (set_IF False 0 (demo_sched\<lparr>tasks := (tasks demo_sched)[1 := (tasks demo_sched ! 1)
        \<lparr>state := TASK_STATE_READY, jctx := jctx (tasks s' ! 1)\<rparr>]\<rparr>)) = Some t' \<and>
     rax (cpus t' ! 0) = 1 \<and> rsp (regs (cpus t' ! 0)) = 8"
proof -
  have a: "0 < length (cpus demo_sched)" "cur demo_sched 0 = Ref 1" "idl demo_sched 0 \<noteq> Ref 1"
    by (simp_all add: demo_sched_def)
  obtain s' where s': "block_current 0 demo_sched = Some s'" and
    sw: "\<And>t d. d < length (cpus t) \<Longrightarrow> \<not> IF (cpus t ! d) \<Longrightarrow> 1 < length (tasks t) \<Longrightarrow> st t 1 = TASK_STATE_READY \<Longrightarrow>
        jctx (tasks t ! 1) = jctx (tasks s' ! 1) \<Longrightarrow>
        \<exists>t'. switch2task d (Ref 1) t = Some t' \<and> rax (cpus t' ! d) = 1 \<and>
              regs (cpus t' ! d) = (regs (cpus demo_sched ! 0))\<lparr>rip := kmem demo_sched (rsp (regs (cpus demo_sched ! 0))),
                rsp := rsp (regs (cpus demo_sched ! 0)) + 8\<rparr>"
    using context_round_trip [OF demo_ok a] by blast
  let ?t = "set_IF False 0 (demo_sched\<lparr>tasks := (tasks demo_sched)[1 := (tasks demo_sched ! 1)
        \<lparr>state := TASK_STATE_READY, jctx := jctx (tasks s' ! 1)\<rparr>]\<rparr>)"
  have "\<exists>t'. switch2task 0 (Ref 1) ?t = Some t' \<and> rax (cpus t' ! 0) = 1 \<and>
      regs (cpus t' ! 0) = (regs (cpus demo_sched ! 0))\<lparr>rip := kmem demo_sched (rsp (regs (cpus demo_sched ! 0))),
        rsp := rsp (regs (cpus demo_sched ! 0)) + 8\<rparr>"
    by (rule sw) (simp_all add: demo_sched_def set_IF_def)
  moreover have "rsp (regs (cpus demo_sched ! 0)) = 0" by (simp add: demo_sched_def zero_jmpbuf_def)
  ultimately show ?thesis using s' by auto
qed

section \<open>Yielding without sleeping\<close>

lemma find_task_skip:
  assumes "queues_rel s L" "\<forall>j < n. L (Prio j) = []" "m \<le> n" "n \<le> TASK_PRIORITY_MAX_PRIORITIES"
  shows "find_task_from [m..<TASK_PRIORITY_MAX_PRIORITIES] s = find_task_from [n..<TASK_PRIORITY_MAX_PRIORITIES] s"
  using assms(3)
proof (induction "n - m" arbitrary: m)
  case (Suc d)
  then have m: "m < TASK_PRIORITY_MAX_PRIORITIES" "m < n" using assms(4) by auto
  have "find_task_from [m..<TASK_PRIORITY_MAX_PRIORITIES] s = find_task_from [Suc m..<TASK_PRIORITY_MAX_PRIORITIES] s"
    using prio_pop_empty [OF assms(1) m(1)] assms(2) m by (simp add: upt_conv_Cons)
  with Suc m show ?case by simp
qed simp

lemma yield_running_None:
  assumes ok: "sched_ok s L" and c: "c < length (cpus s)" and x: "cur s c = Ref x"
    and alone: "\<forall>i \<le> pr s x. L (Prio i) = []"
  shows "scheduler_yield c s = None"
proof -
  have xt: "x < length (tasks s)" "st s x = TASK_STATE_RUNNING" "x \<notin> queued L" and rel: "queues_rel s L"
    using ok c x by (auto simp: sched_ok_in_def cpus_ok_def)
  define s0 where "s0 = set_IF False c s"
  note f = set_IF_simps [OF c, where b = False, folded s0_def]
  have rel0: "queues_rel s0 L" using rel by (simp add: s0_def set_IF_def)
  have c0: "c < length (cpus s0)" and x0: "x < length (tasks s0)" using c xt f by simp_all
  define s1 where "s1 = saved c x s0"
  note g = saved_simps [OF c0 x0, folded s1_def]
  have rel1: "queues_rel s1 L" unfolding s1_def using rel0 by (rule saved_rel)
  have x1: "x < length (tasks s1)" using x0 g by simp
  obtain s2 where s2: "prio_insert_back (pr s x) (Ref x) s1 = Some s2"
    "moves s1 s2 (L(Prio (pr s x) := L (Prio (pr s x)) @ [x]))"
    using prio_insert_back_move [OF rel1 x1 xt(3)] by blast
  define L2 where "L2 = L(Prio (pr s x) := [x])"
  have rel2: "queues_rel s2 L2" using s2(2) alone by (simp add: moves_def L2_def)
  have x2: "x < length (tasks s2)" "st s2 x = TASK_STATE_RUNNING"
    using moves_bare [OF s2(2)] moves_st(1) [OF s2(2) x1] x1 g f xt by simp_all
  have p: "pr s x < TASK_PRIORITY_MAX_PRIORITIES" by simp
  have "L2 (Prio (pr s x)) = [x]" by (simp add: L2_def)
  from prio_pop_move [OF rel2 p this] obtain s3 where s3: "prio_pop (pr s x) s2 = Some (Ref x, s3)"
    "moves s2 s3 (L2(Prio (pr s x) := []))" by blast
  have "st s3 x = TASK_STATE_RUNNING" "x < length (tasks s3)"
    using moves_st(1) [OF s3(2) x2(1)] moves_bare [OF s3(2)] x2 by simp_all
  then have "find_task_from [pr s x..<TASK_PRIORITY_MAX_PRIORITIES] s2 = None"
    using s3(1) by (simp add: upt_conv_Cons [OF p] get_task_Ref)
  moreover have "\<forall>j < pr s x. L2 (Prio j) = []" using alone by (auto simp: L2_def)
  ultimately have "find_task_to_run s2 = None"
    using find_task_skip [OF rel2, of "pr s x" 0] p by (simp add: find_task_to_run_def)
  then have sw: "switch_to_next_task c s2 = None"
    by (simp add: switch_to_next_task_def split: Option.bind_split)
  have "rr_next (tasks s1 ! x) = Null" "rr_prev (tasks s1 ! x) = Null"
    using rel1 x1 xt(3) by (auto simp: queues_rel_def)
  moreover have "scheduler_curr_task c s0 = Some (Ref x)"
    using c0 f x by (simp add: scheduler_curr_task_def get_this_cpu_def)
  moreover have "st s1 x = TASK_STATE_RUNNING" "prio (tasks s1 ! x) = prio (tasks s ! x)" using g f xt by simp_all
  ultimately show ?thesis
    using s2(1) sw x1
    by (simp add: scheduler_yield_def s0_def [symmetric] save_task_context_eq [OF c0 x0] s1_def [symmetric]
        get_task_Ref Let_def)
qed

text \<open>C32. A thread that yields without having been put to sleep is queued in the state running, and the
  kernel panics as soon as the scheduler takes it out of its queue: at once, when no other thread
  of the same or a higher priority is ready. This is what a contended \<open>mutex_lock\<close> does.\<close>

theorem yield_running_panics:
  assumes ok: "sched_ok s L" and c: "c < length (cpus s)" and x: "cur s c = Ref x"
    and alone: "\<forall>i \<le> pr s x. L (Prio i) = []"
  shows "scheduler_yield c s = None"
  by (rule yield_running_None [OF assms])

theorem yield_running_panics_witness: "scheduler_yield 0 demo_sched = None"
  by (rule yield_running_panics [OF demo_ok, where x = 1]) (simp_all add: demo_sched_def demo_queues_def)

section \<open>The race between sleeping and waking\<close>

text \<open>C33. Waking a thread between its \<open>scheduler_put_task2sleep\<close> and its \<open>scheduler_yield\<close>, which an
  event launched on another processor does, makes the yield panic when another thread of the
  same priority is ready: the thread is already linked into the run queue.\<close>

theorem wake_before_yield_panics:
  assumes ok: "sched_ok s L" and c: "c < length (cpus s)" "\<not> IF (cpus s ! c)"
    and x: "cur s c = Ref x" "idl s c \<noteq> Ref x" and other: "L (Prio (pr s x)) \<noteq> []"
  shows "\<exists>s1 s2. scheduler_put_task2sleep c (Ref x) s = Some s1 \<and> scheduler_attempt_wake (Ref x) s1 = Some s2 \<and>
                 scheduler_yield c s2 = None"
proof -
  define L1 where "L1 = L(Sleep := L Sleep @ [x])"
  obtain s1 where s1: "scheduler_put_task2sleep c (Ref x) s = Some s1" "sched_ok_in {c} s1 L1"
    "outer s1 = outer s" "length (tasks s1) = length (tasks s)" "st s1 x = TASK_STATE_SLEEPING" "x < length (tasks s)"
    "prio (tasks s1 ! x) = prio (tasks s ! x)"
    using put2sleep_ok [OF ok c x] unfolding L1_def by blast
  have x1: "x < length (tasks s1)" using s1 by simp
  obtain s2 where s2: "scheduler_attempt_wake (Ref x) s1 = Some s2" "sched_ok_in {c} s2 (wake_list x (pr s1 x) L1)"
    "st s2 x = TASK_STATE_READY" "outer s2 = outer s1" "length (tasks s2) = length (tasks s1)"
    using wake_sleeping [OF s1(2) x1 s1(5)] by blast
  define p where "p = pr s x"
  define L2 where "L2 = wake_list x p L1"
  have rel2: "queues_rel s2 L2" using s2(2) s1(7) by (simp add: sched_ok_in_def L2_def p_def)
  obtain y ys where y: "L (Prio p) = y # ys" using other unfolding p_def by (meson list.exhaust)
  have "queue_rel (tasks s2) (rq_of s2 (Prio p)) (L2 (Prio p))" by (rule queues_relD [OF rel2]) (simp add: p_def)
  then have "rr_next (tasks s2 ! x) = Ref y"
    by (simp add: L2_def wake_list_def L1_def y queue_rel_def t_next_def)
  moreover have cp: "cpus s2 = cpus s" using outer_eqD(1) [OF s2(4)] outer_eqD(1) [OF s1(3)] by simp
  define s0 where "s0 = set_IF False c s2"
  have c2: "c < length (cpus s2)" using c cp by simp
  note f = set_IF_simps [OF c2, where b = False, folded s0_def]
  have c0: "c < length (cpus s0)" and x0: "x < length (tasks s0)" using c2 f s2(5) x1 by simp_all
  note g = saved_simps [OF c0 x0]
  have "scheduler_curr_task c s0 = Some (Ref x)"
    using c0 f x cp by (simp add: scheduler_curr_task_def get_this_cpu_def)
  ultimately have "scheduler_yield c s2 = None"
    using s2(3) x0 g f
    by (simp add: scheduler_yield_def s0_def [symmetric] save_task_context_eq [OF c0 x0] get_task_Ref Let_def)
  then show ?thesis using s1(1) s2(1) by blast
qed

text \<open>The small system with a second ready thread of the priority of the running one.\<close>

definition demo_sched2 :: ksched where
  "demo_sched2 = demo_sched\<lparr>tasks := tasks demo_sched @ [demo_task TASK_STATE_READY TASK_PRIORITY_NORMAL],
     prio_queue := (replicate 5 empty_queue)[2 := \<lparr>num_tasks = 1, rq_head = Ref 3, rq_tail = Ref 3\<rparr>]\<rparr>"

lemma demo2_ok: "sched_ok demo_sched2 (demo_queues(Prio 2 := [3]))"
proof -
  let ?L = "demo_queues(Prio 2 := [3])"
  note defs = demo_sched2_def demo_sched_def demo_queues_def demo_task_def zero_task_def
  have "queue_rel (tasks demo_sched2) (rq_of demo_sched2 q) (?L q)" if "is_queue q" for q
    using that queue_rel_empty
    by (cases q) (auto simp: defs TASK_PRIORITY_MAX_PRIORITIES_def queue_rel_def t_prev_def t_next_def nth_list_update)
  moreover have q: "queued ?L = {2, 3}" by (auto simp: queued_def demo_queues_def split: if_splits)
  moreover have "rr_next (tasks demo_sched2 ! x) = Null \<and> rr_prev (tasks demo_sched2 ! x) = Null" if "x < 4" for x
    using that by (auto simp: defs less_Suc_eq numeral_eq_Suc)
  ultimately have "queues_rel demo_sched2 ?L"
    by (auto simp: queues_rel_def demo_queues_def demo_sched2_def demo_sched_def TASK_PRIORITY_MAX_PRIORITIES_def)
  moreover have "states_ok demo_sched2 ?L"
    by (auto simp: states_ok_def defs less_Suc_eq)
  moreover have "cpus_ok {} demo_sched2 ?L" using q by (simp add: cpus_ok_def defs)
  ultimately show ?thesis by (simp add: sched_ok_in_def)
qed

theorem wake_before_yield_panics_witness:
  "\<exists>s1 s2. scheduler_put_task2sleep 0 (Ref 1) (set_IF False 0 demo_sched2) = Some s1 \<and>
           scheduler_attempt_wake (Ref 1) s1 = Some s2 \<and> scheduler_yield 0 s2 = None"
proof (rule wake_before_yield_panics)
  have "0 < length (cpus demo_sched2)" by (simp add: demo_sched2_def demo_sched_def)
  then show "sched_ok (set_IF False 0 demo_sched2) (demo_queues(Prio 2 := [3]))" using demo2_ok by (intro set_IF_ok)
qed (simp_all add: demo_sched2_def demo_sched_def set_IF_def demo_task_def)

end
