(* ===== verification/Kevent_Lists.thy ===== *)
theory Kevent_Lists
  imports Sched_Steps
begin

text \<open>
  The subscriber lists of the events and the pool of free subscriber nodes: the node table as a
  linked heap, the invariant that ties every event to the list of its subscriber nodes, and the
  effect of subscribing, unsubscribing and launching on it.
\<close>

section \<open>The node table as a linked heap\<close>

definition n_next :: "kevent_subscriber list \<Rightarrow> nat \<Rightarrow> sub_ptr" where
  "n_next h i = sub_next (h ! i)"

definition n_prev :: "kevent_subscriber list \<Rightarrow> nat \<Rightarrow> sub_ptr" where
  "n_prev h i = sub_prev (h ! i)"

definition n_set_next :: "kevent_subscriber list \<Rightarrow> nat \<Rightarrow> sub_ptr \<Rightarrow> kevent_subscriber list" where
  "n_set_next h i v = h[i := (h ! i)\<lparr>sub_next := v\<rparr>]"

definition n_set_prev :: "kevent_subscriber list \<Rightarrow> nat \<Rightarrow> sub_ptr \<Rightarrow> kevent_subscriber list" where
  "n_set_prev h i v = h[i := (h ! i)\<lparr>sub_prev := v\<rparr>]"

interpretation nl: link_heap "\<lambda>h i. i < length h" n_next n_prev n_set_next n_set_prev
  by unfold_locales
    (auto simp: n_next_def n_prev_def n_set_next_def n_set_prev_def fun_eq_iff nth_list_update)

text \<open>The pool is a singly linked chain.\<close>

fun chain :: "(nat \<Rightarrow> sub_ptr) \<Rightarrow> sub_ptr \<Rightarrow> nat list \<Rightarrow> bool" where
  "chain nx p [] \<longleftrightarrow> p = Null"
| "chain nx p (x # xs) \<longleftrightarrow> p = Ref x \<and> chain nx (nx x) xs"

lemma chain_cong: "(\<And>x. x \<in> set xs \<Longrightarrow> nx x = nx' x) \<Longrightarrow> chain nx p xs = chain nx' p xs"
  by (induction xs arbitrary: p) auto

lemma chain_Null [simp]: "chain nx Null xs \<longleftrightarrow> xs = []"
  by (cases xs) auto

definition kev_rel :: "kevent_state \<Rightarrow> (nat \<Rightarrow> nat list) \<Rightarrow> nat list \<Rightarrow> bool" where
  "kev_rel k E P \<longleftrightarrow>
     (\<forall>e < length (events k). dlist (n_next (subs k)) (n_prev (subs k)) (subscribers (events k ! e)) Null (E e)) \<and>
     (\<forall>e. e \<ge> length (events k) \<longrightarrow> E e = []) \<and>
     chain (n_next (subs k)) (subscriber_pool k) P \<and> distinct P \<and>
     (\<forall>e. \<forall>n \<in> set (E e). n < length (subs k) \<and> n \<notin> set P) \<and> (\<forall>n \<in> set P. n < length (subs k)) \<and>
     (\<forall>e e'. e \<noteq> e' \<longrightarrow> set (E e) \<inter> set (E e') = {})"

definition threads :: "kevent_state \<Rightarrow> nat list \<Rightarrow> task_ptr list" where
  "threads k ns = map (\<lambda>n. subscribed_thread (subs k ! n)) ns"

lemma upd_sub_Ref: "i < length h \<Longrightarrow> upd_sub f h (Ref i) = Some (h[i := f (h ! i)])"
  by (simp add: upd_sub_def)

lemma get_sub_Ref: "i < length h \<Longrightarrow> get_sub h (Ref i) = Some (h ! i)"
  by (simp add: get_sub_def)

section \<open>The pool\<close>

lemma pool_refill_spec:
  "chain (n_next (subs k)) (subscriber_pool k) P \<Longrightarrow> \<forall>n \<in> set P. n < length (subs k) \<Longrightarrow>
   let k' = pool_refill m k in
     (\<exists>xs. subs k' = subs k @ xs \<and> length xs = m) \<and> events k' = events k \<and> sched k' = sched k \<and> reap_event k' = reap_event k \<and>
     chain (n_next (subs k')) (subscriber_pool k') (rev [length (subs k)..<length (subs k) + m] @ P)"
proof (induction m arbitrary: k P)
  case (Suc m)
  define n where "n = length (subs k)"
  define k1 where "k1 = k\<lparr>subs := subs k @ [\<lparr>sub_next = subscriber_pool k, sub_prev = Null, sub_event = Null,
                             subscribed_thread = Null\<rparr>], subscriber_pool := Ref n\<rparr>"
  have "chain (n_next (subs k1)) (subscriber_pool k) P = chain (n_next (subs k)) (subscriber_pool k) P"
    by (rule chain_cong) (use Suc.prems in \<open>auto simp: n_next_def k1_def nth_append\<close>)
  then have "chain (n_next (subs k1)) (subscriber_pool k1) (n # P)"
    using Suc.prems by (simp add: k1_def n_next_def n_def)
  moreover have "\<forall>i \<in> set (n # P). i < length (subs k1)" using Suc.prems by (auto simp: k1_def n_def)
  ultimately have IH: "let k' = pool_refill m k1 in
     (\<exists>xs. subs k' = subs k1 @ xs \<and> length xs = m) \<and> events k' = events k1 \<and> sched k' = sched k1 \<and> reap_event k' = reap_event k1 \<and>
     chain (n_next (subs k')) (subscriber_pool k') (rev [length (subs k1)..<length (subs k1) + m] @ n # P)"
    by (rule Suc.IH)
  have "rev [n..<n + Suc m] = rev [Suc n..<Suc n + m] @ [n]" by (simp add: upt_conv_Cons)
  moreover have "pool_refill (Suc m) k = pool_refill m k1" by (simp add: k1_def n_def)
  ultimately show ?case using IH by (auto simp: k1_def n_def Let_def)
qed (simp add: n_next_def Let_def)

lemma pool_alloc_ok:
  assumes rel: "kev_rel k E P"
  shows "\<exists>n k1 P1. subscriber_pool_alloc k = Some (Ref n, k1) \<and> kev_rel k1 E P1 \<and> n < length (subs k1) \<and>
           n \<notin> set P1 \<and> (\<forall>e. n \<notin> set (E e)) \<and> events k1 = events k \<and> sched k1 = sched k \<and>
           (\<forall>e. threads k1 (E e) = threads k (E e))"
proof -
  define k0 where "k0 = (if subscriber_pool k = Null then pool_refill KEVENT_SUBSCRIBER_POOL_REFILL_AMOUNT k else k)"
  note R = rel [unfolded kev_rel_def]
  obtain xs P0 where k0: "subs k0 = subs k @ xs" "events k0 = events k" "sched k0 = sched k"
    "chain (n_next (subs k0)) (subscriber_pool k0) P0" "P0 \<noteq> []" "distinct P0"
    "\<forall>n \<in> set P0. n < length (subs k0) \<and> (\<forall>e. n \<notin> set (E e))"
  proof (cases "subscriber_pool k = Null")
    case True
    then have P: "P = []" using R by auto
    let ?m = KEVENT_SUBSCRIBER_POOL_REFILL_AMOUNT
    have "let k' = pool_refill ?m k in
     (\<exists>xs. subs k' = subs k @ xs \<and> length xs = ?m) \<and> events k' = events k \<and> sched k' = sched k \<and> reap_event k' = reap_event k \<and>
     chain (n_next (subs k')) (subscriber_pool k') (rev [length (subs k)..<length (subs k) + ?m] @ [])"
      by (rule pool_refill_spec) (use True in auto)
    then obtain xs where xs: "subs k0 = subs k @ xs" "length xs = ?m" "events k0 = events k" "sched k0 = sched k"
      "chain (n_next (subs k0)) (subscriber_pool k0) (rev [length (subs k)..<length (subs k) + ?m])"
      using True by (auto simp: k0_def Let_def)
    show ?thesis
    proof (rule that [OF xs(1,3,4,5)])
      show "\<forall>n \<in> set (rev [length (subs k)..<length (subs k) + ?m]). n < length (subs k0) \<and> (\<forall>e. n \<notin> set (E e))"
        using xs(1,2) R by fastforce
    qed (simp_all add: KEVENT_SUBSCRIBER_POOL_REFILL_AMOUNT_def)
  next
    case False
    show ?thesis
    proof (rule that [of "[]" P])
      show "P \<noteq> []" using False R by auto
    qed (use False R in \<open>auto simp: k0_def\<close>)
  qed
  obtain n P1 where P0: "P0 = n # P1" using k0(5) by (cases P0) auto
  define k1 where "k1 = k0\<lparr>subscriber_pool := sub_next (subs k0 ! n)\<rparr>"
  have n: "subscriber_pool k0 = Ref n" "n < length (subs k0)" using k0(4,7) P0 by auto
  have "subscriber_pool_alloc k = Some (Ref n, k1)"
    using n by (simp add: subscriber_pool_alloc_def k0_def [symmetric] get_sub_Ref k1_def Let_def)
  moreover have "kev_rel k1 E P1"
  proof -
    have "dlist (n_next (subs k0)) (n_prev (subs k0)) h Null (E e) = dlist (n_next (subs k)) (n_prev (subs k)) h Null (E e)" for h e
      by (rule dlist_cong) (use R k0(1) in \<open>auto simp: n_next_def n_prev_def nth_append\<close>)
    moreover have "chain (n_next (subs k0)) (sub_next (subs k0 ! n)) P1" using k0(4) P0 by (simp add: n_next_def)
    moreover have "m < length (subs k0) \<and> m \<notin> set P1" if "m \<in> set (E e)" for m e
    proof -
      have "m < length (subs k)" using R that by blast
      then show ?thesis using that k0(1,7) P0 by auto
    qed
    ultimately show ?thesis using R k0 P0 by (simp add: kev_rel_def k1_def)
  qed
  moreover have "threads k1 (E e) = threads k (E e)" for e
    using R k0(1) by (auto simp: threads_def k1_def nth_append)
  ultimately show ?thesis using n k0 P0 by (intro exI [of _ n] exI [of _ k1] exI [of _ P1]) (auto simp: k1_def)
qed

section \<open>Subscribing\<close>

lemma put_event_simps [simp]:
  "subs (put_event e ev k) = subs k" "sched (put_event e ev k) = sched k"
  "subscriber_pool (put_event e ev k) = subscriber_pool k"
  "events (put_event e ev k) = (events k)[e := ev]"
  by (simp_all add: put_event_def)

lemma link_ok:
  assumes rel: "kev_rel k E P" and e: "e < length (events k)"
  shows "\<exists>k' n P'. subscriber_list_link e t k = Some k' \<and> kev_rel k' (E(e := n # E e)) P' \<and> n \<notin> set (E e) \<and>
           length (events k') = length (events k) \<and> sched k' = sched k \<and>
           (\<forall>d. threads k' ((E(e := n # E e)) d) = (if d = e then t # threads k (E e) else threads k (E d))) \<and>
           (\<forall>d. unprocessed (events k' ! d) = unprocessed (events k ! d))"
proof -
  obtain n k1 P1 where k1: "subscriber_pool_alloc k = Some (Ref n, k1)" and rel1: "kev_rel k1 E P1"
    and n: "n < length (subs k1)" "n \<notin> set P1" "\<forall>e. n \<notin> set (E e)" and ev: "events k1 = events k" "sched k1 = sched k"
    and th: "\<forall>e. threads k1 (E e) = threads k (E e)"
    using pool_alloc_ok [OF rel] by blast
  note R = rel1 [unfolded kev_rel_def ev]
  define top where "top = subscribers (events k ! e)"
  define h0 where "h0 = (subs k1)[n := (subs k1 ! n)\<lparr>sub_event := Ref e, subscribed_thread := t\<rparr>]"
  define h1 where "h1 = n_set_next (n_set_prev h0 n Null) n top"
  define h2 where "h2 = (case top of Ref y \<Rightarrow> n_set_prev h1 y (Ref n) | _ \<Rightarrow> h1)"
  have len: "length h0 = length (subs k1)" "length h1 = length (subs k1)" "length h2 = length (subs k1)"
    by (simp_all add: h0_def h1_def h2_def n_set_next_def n_set_prev_def split: ptr.splits)
  have D: "dlist (n_next (subs k1)) (n_prev (subs k1)) top Null (E e)" using R e by (simp add: top_def)
  have D0: "dlist (n_next h0) (n_prev h0) p b xs = dlist (n_next (subs k1)) (n_prev (subs k1)) p b xs" for p b xs
    by (rule dlist_cong) (use n(1) in \<open>auto simp: h0_def n_next_def n_prev_def nth_list_update\<close>)
  have RE: "m < length (subs k1)" "m \<notin> set P1" if "m \<in> set (E d)" for m d
    using rel1 that by (auto simp: kev_rel_def)
  have top: "top = (if E e = [] then Null else Ref (hd (E e)))" using D by (rule dlist_head)
  have D2: "dlist (n_next h2) (n_prev h2) (Ref n) Null (n # E e)"
    by (rule nl.push_front [OF _ _ _ _ h1_def h2_def]) (use D D0 RE n len in auto)
  have h1: "h1 = (subs k1)[n := (subs k1 ! n)\<lparr>sub_event := Ref e, subscribed_thread := t, sub_prev := Null, sub_next := top\<rparr>]"
    using n(1) by (simp add: h1_def n_set_next_def n_set_prev_def h0_def)
  have hdv: "hd (E e) < length (subs k1)" "hd (E e) \<noteq> n" if "E e \<noteq> []" using RE(1) [of "hd (E e)" e] n(3) hd_in_set [OF that] by auto
  have nth: "h2 ! i = subs k1 ! i" if i: "i \<noteq> n" "i \<notin> set (E e)" for i
  proof -
    have "E e \<noteq> [] \<Longrightarrow> hd (E e) \<noteq> i" using i(2) hd_in_set by metis
    then show ?thesis using i top by (auto simp: h2_def h1 n_set_prev_def)
  qed
  have nth': "n_next h2 i = n_next (subs k1) i" "subscribed_thread (h2 ! i) = subscribed_thread (subs k1 ! i)"
    if "i \<noteq> n" for i
    using that top hdv len by (auto simp: h2_def h1 n_set_prev_def n_next_def nth_list_update)
  have tn: "subscribed_thread (h2 ! n) = t" using top hdv n(1) by (auto simp: h2_def h1 n_set_prev_def)
  define k2 where "k2 = put_event e ((events k ! e)\<lparr>subscribers := Ref n\<rparr>) (k1\<lparr>subs := h2\<rparr>)"
  have run: "subscriber_list_link e t k = Some k2"
    using e n(1) hdv len top
    by (auto simp: subscriber_list_link_def k1 get_event_def ev upd_sub_Ref k2_def top_def [symmetric] h1
        h2_def n_set_prev_def)
  have dis: "set (E d) \<inter> set (E d') = {}" if "d \<noteq> d'" for d d' using rel1 that by (simp add: kev_rel_def)
  have "kev_rel k2 (E(e := n # E e)) P1"
  proof -
    have "dlist (n_next h2) (n_prev h2) p Null (E d) = dlist (n_next (subs k1)) (n_prev (subs k1)) p Null (E d)"
      if d: "d \<noteq> e" for p d
    proof (rule dlist_cong)
      fix i assume "i \<in> set (E d)"
      then have "i \<noteq> n" "i \<notin> set (E e)" using n(3) dis [OF d] by auto
      then show "n_next h2 i = n_next (subs k1) i \<and> n_prev h2 i = n_prev (subs k1) i"
        using nth by (simp add: n_next_def n_prev_def)
    qed
    moreover have "chain (n_next h2) p P1 = chain (n_next (subs k1)) p P1" for p
      by (rule chain_cong, rule nth'(1)) (use n(2) in auto)
    ultimately show ?thesis
      using rel1 D2 n RE len dis e ev by (auto simp: kev_rel_def k2_def nth_list_update)
  qed
  moreover have "threads k2 ((E(e := n # E e)) d) = (if d = e then t # threads k (E e) else threads k (E d))" for d
  proof -
    have "threads k2 (E d) = threads k1 (E d)" for d
      unfolding threads_def
    proof (rule map_cong [OF refl])
      fix m assume "m \<in> set (E d)"
      then have "m \<noteq> n" using n(3) by auto
      then show "subscribed_thread (subs k2 ! m) = subscribed_thread (subs k1 ! m)" by (simp add: k2_def nth'(2))
    qed
    then have "threads k2 (E d) = threads k (E d)" for d using th by simp
    then show ?thesis using tn by (simp add: threads_def k2_def)
  qed
  moreover have "unprocessed (events k2 ! d) = unprocessed (events k ! d)" for d
    using e ev by (cases "d = e") (simp_all add: k2_def)
  ultimately show ?thesis using run n(3) ev by (intro exI [of _ k2] exI [of _ n] exI [of _ P1]) (simp add: k2_def)
qed

section \<open>Unsubscribing\<close>

lemma find_subscriber_ok:
  assumes "dlist (n_next h) (n_prev h) p b (ys @ n # zs)" "\<forall>y \<in> set (ys @ [n]). y < length h"
    "\<forall>y \<in> set ys. subscribed_thread (h ! y) \<noteq> t" "subscribed_thread (h ! n) = t" "length ys < fuel"
  shows "find_subscriber fuel t h p = Some (Ref n)"
  using assms
proof (induction ys arbitrary: p b fuel)
  case Nil
  then obtain f where "fuel = Suc f" by (cases fuel) auto
  with Nil show ?case by (simp add: get_sub_Ref)
next
  case (Cons y ys)
  then obtain f where f: "fuel = Suc f" by (cases fuel) auto
  have "dlist (n_next h) (n_prev h) (n_next h y) (Ref y) (ys @ n # zs)" using Cons.prems(1) by simp
  then have "find_subscriber f t h (n_next h y) = Some (Ref n)" by (rule Cons.IH) (use Cons.prems f in auto)
  with Cons.prems f show ?case by (simp add: get_sub_Ref n_next_def)
qed

lemma length_le_nodes: "distinct xs \<Longrightarrow> \<forall>x \<in> set xs. x < (m :: nat) \<Longrightarrow> length xs \<le> m"
  using card_mono [of "{..<m}" "set xs"] by (auto simp: distinct_card)

lemma unlink_ok:
  assumes rel: "kev_rel k E P" and e: "e < length (events k)" and t: "t \<in> set (threads k (E e))"
  shows "\<exists>k' E' P'. subscriber_list_unlink e t k = Some k' \<and> kev_rel k' E' P' \<and>
           length (events k') = length (events k) \<and> sched k' = sched k \<and>
           (\<forall>d. threads k' (E' d) = (if d = e then remove1 t (threads k (E e)) else threads k (E d))) \<and>
           (\<forall>d. unprocessed (events k' ! d) = unprocessed (events k ! d))"
proof -
  let ?h = "subs k" and ?f = "subscribers (events k ! e)"
  define th where "th n = subscribed_thread (?h ! n)" for n
  have RE: "m < length ?h" "m \<notin> set P" if "m \<in> set (E d)" for m d using rel that by (auto simp: kev_rel_def)
  have dis: "set (E d) \<inter> set (E d') = {}" if "d \<noteq> d'" for d d' using rel that by (simp add: kev_rel_def)
  have D: "dlist (n_next ?h) (n_prev ?h) ?f Null (E e)" using rel e by (simp add: kev_rel_def)
  have dist: "distinct (E e)" using D by (rule dlist_distinct)
  obtain n0 where "n0 \<in> set (E e)" "th n0 = t" using t by (auto simp: threads_def th_def)
  then obtain ys n zs where ns: "E e = ys @ n # zs" and n: "th n = t" "\<forall>y \<in> set ys. th y \<noteq> t"
    using split_list_first_prop [of "E e" "\<lambda>m. th m = t"] by auto
  have nn: "n \<in> set (E e)" "n < length ?h" "n \<notin> set P" using ns RE [of n e] by auto
  have rm: "remove1 n (E e) = ys @ zs" using ns dist by (simp add: remove1_append)
  note node = dlist_node [OF D [unfolded ns]]
  have pv: "sub_prev (?h ! n) = (if ys = [] then Null else Ref (last ys))"
    and nx: "sub_next (?h ! n) = (if zs = [] then Null else Ref (hd zs))"
    using node(1,2) by (simp_all add: n_prev_def n_next_def)
  have lv: "ys \<noteq> [] \<Longrightarrow> last ys < length ?h" "ys \<noteq> [] \<Longrightarrow> last ys \<noteq> n" "ys \<noteq> [] \<Longrightarrow> last ys \<in> set (E e)"
    "zs \<noteq> [] \<Longrightarrow> hd zs < length ?h" "zs \<noteq> [] \<Longrightarrow> hd zs \<noteq> n" "zs \<noteq> [] \<Longrightarrow> hd zs \<in> set (E e)"
    using RE(1) [of _ e] ns dist by auto
  have find: "find_subscriber (length ?h) t ?h ?f = Some (Ref n)"
  proof (rule find_subscriber_ok [OF D [unfolded ns]])
    have "length (E e) \<le> length ?h" using dist RE(1) by (intro length_le_nodes) auto
    then show "length ys < length ?h" using ns by simp
  qed (use n RE(1) [of _ e] ns in \<open>auto simp: th_def\<close>)
  define h1 where "h1 = (case n_prev ?h n of Ref p \<Rightarrow> n_set_next ?h p (n_next ?h n) | _ \<Rightarrow> ?h)"
  define h2 where "h2 = (case n_next h1 n of Ref m \<Rightarrow> n_set_prev h1 m (n_prev h1 n) | _ \<Rightarrow> h1)"
  define h3 where "h3 = h2[n := (h2 ! n)\<lparr>sub_next := subscriber_pool k\<rparr>]"
  have len: "length h1 = length ?h" "length h2 = length ?h"
    by (simp_all add: h1_def h2_def n_set_prev_def n_set_next_def split: ptr.splits)
  have n1: "h1 ! n = ?h ! n" using pv lv by (auto simp: h1_def n_prev_def n_set_next_def)
  define ev where "ev = (if ?f = Ref n then (events k ! e)\<lparr>subscribers := sub_next (?h ! n)\<rparr> else events k ! e)"
  define k2 where "k2 = (put_event e ev (k\<lparr>subs := h2\<rparr>))\<lparr>subs := h3, subscriber_pool := Ref n\<rparr>"
  have s1: "(if sub_prev (?h ! n) \<noteq> Null then upd_sub (sub_next_update (\<lambda>_. sub_next (?h ! n))) ?h (sub_prev (?h ! n))
      else Some ?h) = Some h1"
    using lv by (simp add: h1_def n_prev_def pv upd_sub_Ref n_set_next_def n_next_def)
  have s2: "(if sub_next (?h ! n) \<noteq> Null then upd_sub (sub_prev_update (\<lambda>_. sub_prev (?h ! n))) h1 (sub_next (?h ! n))
      else Some h1) = Some h2"
    using lv len by (simp add: h2_def n_next_def n1 nx upd_sub_Ref n_set_prev_def n_prev_def)
  have run: "subscriber_list_unlink e t k = Some k2"
  proof -
    have "get_event e k = Some (events k ! e)" using e by (simp add: get_event_def)
    moreover have "subscriber_pool_free (Ref n) (put_event e ev (k\<lparr>subs := h2\<rparr>)) = Some k2"
      using nn len by (simp add: subscriber_pool_free_def upd_sub_Ref k2_def h3_def)
    ultimately show ?thesis
      by (simp only: subscriber_list_unlink_def Option.bind.bind_lunit find get_sub_Ref [OF nn(2)] Let_def s1
          get_sub_Ref [of n h1, unfolded len, OF nn(2)] n1 s2 ev_def)
  qed
  have nth: "h3 ! i = ?h ! i" if i: "i \<notin> set (E e)" for i
  proof -
    have "i \<noteq> n" "ys \<noteq> [] \<Longrightarrow> last ys \<noteq> i" "zs \<noteq> [] \<Longrightarrow> hd zs \<noteq> i" using i lv nn by auto
    then show ?thesis using pv nx n1
      by (auto simp: h3_def h2_def h1_def n_set_prev_def n_set_next_def n_prev_def n_next_def)
  qed
  have th3: "subscribed_thread (h3 ! i) = th i" if "i < length ?h" for i
    using that pv nx n1 lv nn len
    by (auto simp: h3_def h2_def h1_def n_set_prev_def n_set_next_def n_prev_def n_next_def nth_list_update th_def)
  have D3: "dlist (n_next h3) (n_prev h3) (if ?f = Ref n then n_next ?h n else ?f) Null (remove1 n (E e))"
    by (rule nl.unlink [OF D nn(1) _ h1_def h2_def])
      (use RE in \<open>auto simp: h3_def n_next_def n_prev_def\<close>)
  have "subscribers ev = (if ?f = Ref n then n_next ?h n else ?f)" by (simp add: ev_def n_next_def)
  then have De: "dlist (n_next h3) (n_prev h3) (subscribers ev) Null (ys @ zs)" using D3 rm by simp
  have Dd: "dlist (n_next h3) (n_prev h3) p Null (E d) = dlist (n_next ?h) (n_prev ?h) p Null (E d)" if "d \<noteq> e" for p d
    by (rule dlist_cong) (use nth dis [OF that] in \<open>auto simp: n_next_def n_prev_def disjoint_iff\<close>)
  have P: "chain (n_next h3) (Ref n) (n # P)"
  proof -
    have "x \<notin> set (E e)" if "x \<in> set P" for x using RE(2) [of x e] that by blast
    then have "chain (n_next h3) p P = chain (n_next ?h) p P" for p
      by (intro chain_cong) (simp add: n_next_def nth)
    then show ?thesis using rel nn len by (simp add: kev_rel_def h3_def n_next_def)
  qed
  have other: "set (E d) \<inter> set (ys @ zs) = {}" "n \<notin> set (E d)" if "d \<noteq> e" for d
    using dis [OF that] ns by auto
  have yz: "n \<notin> set (ys @ zs)" using dist ns by simp
  have krel: "kev_rel k2 (E(e := ys @ zs)) (n # P)"
    unfolding kev_rel_def
  proof (intro conjI allI impI)
    show "dlist (n_next (subs k2)) (n_prev (subs k2)) (subscribers (events k2 ! d)) Null ((E(e := ys @ zs)) d)"
      if "d < length (events k2)" for d
      using that De Dd [of d] rel e by (cases "d = e") (simp_all add: k2_def kev_rel_def)
    show "chain (n_next (subs k2)) (subscriber_pool k2) (n # P)" using P by (simp add: k2_def)
    show "\<forall>m \<in> set ((E(e := ys @ zs)) d). m < length (subs k2) \<and> m \<notin> set (n # P)" for d
      using RE [of _ d] RE [of _ e] other(2) [of d] yz ns len by (cases "d = e") (auto simp: k2_def h3_def)
    show "set ((E(e := ys @ zs)) d) \<inter> set ((E(e := ys @ zs)) d') = {}" if "d \<noteq> d'" for d d'
      using dis [OF that] other(1) [of d] other(1) [of d'] that by (cases "d = e"; cases "d' = e") auto
  qed (use rel e nn len in \<open>auto simp: kev_rel_def k2_def h3_def\<close>)
  have "threads k2 ((E(e := ys @ zs)) d) = (if d = e then remove1 t (threads k (E e)) else threads k (E d))" for d
  proof -
    have *: "threads k2 ms = map th ms" if "\<forall>m \<in> set ms. m < length ?h" for ms
      using that th3 by (simp add: threads_def k2_def)
    have "remove1 t (map th (E e)) = map th (ys @ zs)" using n ns by (auto simp: remove1_append)
    moreover have "threads k ms = map th ms" for ms by (simp add: threads_def th_def)
    moreover have "threads k2 (ys @ zs) = map th (ys @ zs)" using RE(1) [of _ e] ns by (intro *) auto
    moreover have "threads k2 (E d) = map th (E d)" using RE(1) [of _ d] by (intro *) auto
    ultimately show ?thesis by (cases "d = e") simp_all
  qed
  moreover have "unprocessed (events k2 ! d) = unprocessed (events k ! d)" for d
    using e by (cases "d = e") (simp_all add: k2_def ev_def)
  ultimately show ?thesis using run krel
    by (intro exI [of _ k2] exI [of _ "E(e := ys @ zs)"] exI [of _ "n # P"]) (simp add: k2_def)
qed

section \<open>Lists of events\<close>

text \<open>Subscribing and unsubscribing a list of events, on the lists of subscribed threads.\<close>

fun sub_all :: "nat list \<Rightarrow> 't \<Rightarrow> (nat \<Rightarrow> 't list) \<Rightarrow> nat \<Rightarrow> 't list" where
  "sub_all [] t T = T"
| "sub_all (e # es) t T = sub_all es t (T(e := t # T e))"

fun unsub_all :: "nat list \<Rightarrow> 't \<Rightarrow> (nat \<Rightarrow> 't list) \<Rightarrow> nat \<Rightarrow> 't list" where
  "unsub_all [] t T = T"
| "unsub_all (e # es) t T = unsub_all es t (T(e := remove1 t (T e)))"

lemma replicate_front: "replicate n t @ t # xs = t # replicate n t @ xs"
  by (induction n) auto

lemma sub_all_replicate: "sub_all es t T e = replicate (count_list es e) t @ T e"
  by (induction es arbitrary: T) (auto simp: replicate_front)

lemma unsub_all_replicate:
  "\<forall>e. \<exists>xs. T e = replicate (count_list es e) t @ xs \<Longrightarrow> unsub_all es t T e = drop (count_list es e) (T e)"
proof (induction es arbitrary: T)
  case (Cons a es)
  define T' where "T' = T(a := remove1 t (T a))"
  obtain ys where ys: "T a = t # replicate (count_list es a) t @ ys" using Cons.prems [rule_format, of a] by auto
  have "\<forall>e. \<exists>xs. T' e = replicate (count_list es e) t @ xs"
  proof
    fix e
    show "\<exists>xs. T' e = replicate (count_list es e) t @ xs"
      using Cons.prems [rule_format, of e] ys by (cases "e = a") (simp_all add: T'_def)
  qed
  then have "unsub_all es t T' e = drop (count_list es e) (T' e)" by (rule Cons.IH)
  moreover have "unsub_all (a # es) t T = unsub_all es t T'" by (simp add: T'_def)
  ultimately show ?case using ys by (cases "e = a") (simp_all add: T'_def)
qed simp

lemma unsub_sub: "unsub_all es t (sub_all es t T) = T"
proof
  fix e
  have "unsub_all es t (sub_all es t T) e = drop (count_list es e) (sub_all es t T e)"
    by (rule unsub_all_replicate) (auto simp: sub_all_replicate)
  then show "unsub_all es t (sub_all es t T) e = T e" by (simp add: sub_all_replicate)
qed

definition thread_lists :: "kevent_state \<Rightarrow> (nat \<Rightarrow> nat list) \<Rightarrow> nat \<Rightarrow> task_ptr list" where
  "thread_lists k E = (\<lambda>e. threads k (E e))"

lemma subscribe_ok:
  assumes "kev_rel k E P" "\<forall>e \<in> set es. e < length (events k)"
  shows "\<exists>k' E' P'. kevent_subscribe es t k = Some k' \<and> kev_rel k' E' P' \<and> length (events k') = length (events k) \<and>
           sched k' = sched k \<and> thread_lists k' E' = sub_all es t (thread_lists k E) \<and>
           (\<forall>d. unprocessed (events k' ! d) = unprocessed (events k ! d))"
  using assms
proof (induction es arbitrary: k E P)
  case (Cons e es)
  obtain k1 n P1 where k1: "subscriber_list_link e t k = Some k1" "kev_rel k1 (E(e := n # E e)) P1"
    "length (events k1) = length (events k)" "sched k1 = sched k"
    "\<forall>d. threads k1 ((E(e := n # E e)) d) = (if d = e then t # threads k (E e) else threads k (E d))"
    "\<forall>d. unprocessed (events k1 ! d) = unprocessed (events k ! d)"
    using link_ok [OF Cons.prems(1), of e t] Cons.prems(2) by auto
  have es: "\<forall>e \<in> set es. e < length (events k1)" using Cons.prems(2) k1(3) by simp
  obtain k' E' P' where k': "kevent_subscribe es t k1 = Some k'" "kev_rel k' E' P'" "length (events k') = length (events k1)"
    "sched k' = sched k1" "thread_lists k' E' = sub_all es t (thread_lists k1 (E(e := n # E e)))"
    "\<forall>d. unprocessed (events k' ! d) = unprocessed (events k1 ! d)"
    using Cons.IH [OF k1(2) es] by blast
  have "thread_lists k1 (E(e := n # E e)) = (thread_lists k E)(e := t # thread_lists k E e)"
    using k1(5) by (simp add: thread_lists_def fun_eq_iff)
  with k1 k' show ?case by (intro exI [of _ k'] exI [of _ E'] exI [of _ P']) simp
qed auto

lemma unsubscribe_ok:
  assumes "kev_rel k E P" "\<forall>e \<in> set es. e < length (events k)"
    and "\<forall>e. count_list es e \<le> count_list (thread_lists k E e) t"
  shows "\<exists>k' E' P'. kevent_unsubscribe es t k = Some k' \<and> kev_rel k' E' P' \<and> length (events k') = length (events k) \<and>
           sched k' = sched k \<and> thread_lists k' E' = unsub_all es t (thread_lists k E) \<and>
           (\<forall>d. unprocessed (events k' ! d) = unprocessed (events k ! d))"
  using assms
proof (induction es arbitrary: k E P)
  case (Cons e es)
  have "count_list (thread_lists k E e) t > 0" using Cons.prems(3) [rule_format, of e] by simp
  then have t: "t \<in> set (threads k (E e))" by (metis count_notin thread_lists_def less_not_refl)
  obtain k1 E1 P1 where k1: "subscriber_list_unlink e t k = Some k1" "kev_rel k1 E1 P1"
    "length (events k1) = length (events k)" "sched k1 = sched k"
    "\<forall>d. threads k1 (E1 d) = (if d = e then remove1 t (threads k (E e)) else threads k (E d))"
    "\<forall>d. unprocessed (events k1 ! d) = unprocessed (events k ! d)"
    using unlink_ok [OF Cons.prems(1) _ t] Cons.prems(2) by auto
  have T1: "thread_lists k1 E1 = (thread_lists k E)(e := remove1 t (thread_lists k E e))"
    using k1(5) by (simp add: thread_lists_def fun_eq_iff)
  have cnt: "count_list (remove1 t xs) t = count_list xs t - 1" for xs :: "task_ptr list" by (induction xs) auto
  have c1: "\<forall>d. count_list es d \<le> count_list (thread_lists k1 E1 d) t"
  proof
    fix d
    show "count_list es d \<le> count_list (thread_lists k1 E1 d) t"
      using Cons.prems(3) [rule_format, of d] by (cases "d = e") (simp_all add: T1 cnt)
  qed
  have es: "\<forall>e \<in> set es. e < length (events k1)" using Cons.prems(2) k1(3) by simp
  obtain k' E' P' where k': "kevent_unsubscribe es t k1 = Some k'" "kev_rel k' E' P'" "length (events k') = length (events k1)"
    "sched k' = sched k1" "thread_lists k' E' = unsub_all es t (thread_lists k1 E1)"
    "\<forall>d. unprocessed (events k' ! d) = unprocessed (events k1 ! d)"
    using Cons.IH [OF k1(2) es c1] by blast
  with k1 T1 show ?case by (intro exI [of _ k'] exI [of _ E'] exI [of _ P']) simp
qed auto

end
