(* ===== verification/Kevent_Props.thy ===== *)
theory Kevent_Props
  imports Kevent_Lists Sched_Props
begin

text \<open>
  Events end to end: launching wakes every subscribed thread that sleeps, a launch without
  subscribers panics, and a thread that polls is woken by the next launch of one of its events,
  gets the index of that event, and leaves no subscription behind.
\<close>

section \<open>Launching\<close>

lemma with_sched_Some: "f (sched k) = Some s \<Longrightarrow> with_sched f k = Some (k\<lparr>sched := s\<rparr>)"
  by (simp add: with_sched_def)

definition woken :: "task_ptr set \<Rightarrow> ksched \<Rightarrow> ksched \<Rightarrow> bool" where
  "woken T s s' \<longleftrightarrow> length (tasks s') = length (tasks s) \<and> cpus s' = cpus s \<and>
     (\<forall>i < length (tasks s). st s' i = (if Ref i \<in> T \<and> st s i = TASK_STATE_SLEEPING then TASK_STATE_READY else st s i))"

lemma wake_woken:
  assumes "sched_ok s L" "x < length (tasks s)"
  shows "\<exists>s' L'. scheduler_attempt_wake (Ref x) s = Some s' \<and> sched_ok s' L' \<and> woken {Ref x} s s'"
proof (cases "st s x = TASK_STATE_SLEEPING")
  case True
  then obtain s' L' where "scheduler_attempt_wake (Ref x) s = Some s'" "sched_ok s' L'" "st s' x = TASK_STATE_READY"
    "outer s' = outer s" "length (tasks s') = length (tasks s)" "\<forall>i < length (tasks s). i \<noteq> x \<longrightarrow> st s' i = st s i"
    using wake_sleeping [OF assms] by blast
  then show ?thesis using True outer_eqD(1) [of s' s] by (auto simp: woken_def)
next
  case False
  then show ?thesis using wake_other [OF assms(2)] assms(1) by (auto simp: woken_def)
qed

lemma woken_trans: "woken A s s1 \<Longrightarrow> woken B s1 s2 \<Longrightarrow> woken (A \<union> B) s s2"
  by (auto simp: woken_def)

lemma wake_subscribers_ok:
  assumes "dlist (n_next (subs k)) (n_prev (subs k)) p b ns" "length ns \<le> fuel"
    "\<forall>n \<in> set ns. n < length (subs k) \<and> (\<exists>x. subscribed_thread (subs k ! n) = Ref x \<and> x < length (tasks (sched k)))"
    "sched_ok (sched k) L"
  shows "\<exists>s' L'. wake_subscribers fuel p k = Some (k\<lparr>sched := s'\<rparr>) \<and> sched_ok s' L' \<and>
           woken (set (threads k ns)) (sched k) s'"
  using assms
proof (induction ns arbitrary: p b fuel k L)
  case Nil
  then show ?case by (intro exI [of _ "sched k"] exI [of _ L]) (simp add: woken_def threads_def)
next
  case (Cons n ns)
  obtain f where f: "fuel = Suc f" using Cons.prems(2) by (cases fuel) auto
  obtain x where x: "subscribed_thread (subs k ! n) = Ref x" "x < length (tasks (sched k))" using Cons.prems(3) by auto
  obtain s1 L1 where s1: "scheduler_attempt_wake (Ref x) (sched k) = Some s1" "sched_ok s1 L1" "woken {Ref x} (sched k) s1"
    using wake_woken [OF Cons.prems(4) x(2)] by blast
  let ?k1 = "k\<lparr>sched := s1\<rparr>"
  have "\<exists>s' L'. wake_subscribers f (n_next (subs k) n) ?k1 = Some (?k1\<lparr>sched := s'\<rparr>) \<and> sched_ok s' L' \<and>
           woken (set (threads ?k1 ns)) (sched ?k1) s'"
  proof (rule Cons.IH)
    show "dlist (n_next (subs ?k1)) (n_prev (subs ?k1)) (n_next (subs k) n) (Ref n) ns" using Cons.prems(1) by simp
    show "length ns \<le> f" using Cons.prems(2) f by simp
    show "sched_ok (sched ?k1) L1" using s1(2) by simp
    show "\<forall>n \<in> set ns. n < length (subs ?k1) \<and> (\<exists>x. subscribed_thread (subs ?k1 ! n) = Ref x \<and> x < length (tasks (sched ?k1)))"
      using Cons.prems(3) s1(3) by (auto simp: woken_def)
  qed
  then obtain s' L' where s': "wake_subscribers f (n_next (subs k) n) ?k1 = Some (k\<lparr>sched := s'\<rparr>)" "sched_ok s' L'"
    "woken (set (threads k ns)) s1 s'" by (auto simp: threads_def)
  have "wake_subscribers fuel p k = Some (k\<lparr>sched := s'\<rparr>)"
    using Cons.prems(1,3) f x(1) with_sched_Some [of "scheduler_attempt_wake (Ref x)", OF s1(1)] s'(1) by (simp add: get_sub_Ref n_next_def)
  moreover have "woken (set (threads k (n # ns))) (sched k) s'"
    using woken_trans [OF s1(3) s'(3)] x(1) by (simp add: threads_def)
  ultimately show ?case using s'(2) by blast
qed

text \<open>The invariant of the event system: well-formed lists, and every subscriber is a task.\<close>

definition kev_ok :: "kevent_state \<Rightarrow> (nat \<Rightarrow> nat list) \<Rightarrow> nat list \<Rightarrow> bool" where
  "kev_ok k E P \<longleftrightarrow> kev_rel k E P \<and>
     (\<forall>e. \<forall>t \<in> set (thread_lists k E e). \<exists>x < length (tasks (sched k)). t = Ref x)"

lemma launch_ok:
  assumes ok: "kev_ok k E P" "sched_ok (sched k) L" and e: "e < length (events k)" "E e \<noteq> []"
  shows "\<exists>s' L'. kevent_launch e k =
           Some ((put_event e ((events k ! e)\<lparr>unprocessed := unprocessed (events k ! e) + 1\<rparr>) k)\<lparr>sched := s'\<rparr>) \<and>
         sched_ok s' L' \<and> woken (set (thread_lists k E e)) (sched k) s'"
proof -
  have rel: "kev_rel k E P" using ok by (simp add: kev_ok_def)
  have D: "dlist (n_next (subs k)) (n_prev (subs k)) (subscribers (events k ! e)) Null (E e)"
    and v: "\<forall>n \<in> set (E e). n < length (subs k)" using rel e by (auto simp: kev_rel_def)
  let ?k1 = "put_event e ((events k ! e)\<lparr>unprocessed := unprocessed (events k ! e) + 1\<rparr>) k"
  have "\<exists>s' L'. wake_subscribers (length (subs k)) (subscribers (events k ! e)) ?k1 = Some (?k1\<lparr>sched := s'\<rparr>) \<and>
       sched_ok s' L' \<and> woken (set (threads ?k1 (E e))) (sched ?k1) s'"
  proof (rule wake_subscribers_ok)
    show "length (E e) \<le> length (subs k)" using dlist_distinct [OF D] v by (intro length_le_nodes)
    show "\<forall>n \<in> set (E e). n < length (subs ?k1) \<and>
        (\<exists>x. subscribed_thread (subs ?k1 ! n) = Ref x \<and> x < length (tasks (sched ?k1)))"
      using ok(1) v unfolding kev_ok_def thread_lists_def threads_def by fastforce
  qed (use D ok in auto)
  then obtain s' L' where s': "wake_subscribers (length (subs k)) (subscribers (events k ! e)) ?k1 = Some (?k1\<lparr>sched := s'\<rparr>)"
    "sched_ok s' L'" "woken (set (threads k (E e))) (sched k) s'" by (auto simp: threads_def)
  have "subscribers (events k ! e) \<noteq> Null" using D e(2) by auto
  then have "kevent_launch e k = Some (?k1\<lparr>sched := s'\<rparr>)"
    using e(1) s'(1) by (simp add: kevent_launch_def get_event_def)
  then show ?thesis using s'(2,3) unfolding thread_lists_def by blast
qed

section \<open>Polling\<close>

lemma count_replicate: "count_list (replicate n t) t = n"
  by (induction n) auto

lemma find_unprocessed_none:
  "\<forall>e \<in> set es. e < length (events k) \<and> unprocessed (events k ! e) = 0 \<Longrightarrow>
   find_unprocessed_from i es k = Some (KEVENT_POLL_INVALID, k)"
  by (induction es arbitrary: i) (auto simp: get_event_def)

lemma find_unprocessed_first:
  assumes "\<forall>d \<in> set es. d < length (events k)" "e \<in> set es" "unprocessed (events k ! e) \<noteq> 0"
    "\<forall>d \<in> set es. d \<noteq> e \<longrightarrow> unprocessed (events k ! d) = 0"
  shows "\<exists>j < length es. es ! j = e \<and> find_unprocessed_from i es k =
           Some (int (i + j), put_event e ((events k ! e)\<lparr>unprocessed := unprocessed (events k ! e) - 1\<rparr>) k)"
  using assms
proof (induction es arbitrary: i)
  case (Cons d es)
  show ?case
  proof (cases "d = e")
    case True
    then show ?thesis using Cons.prems by (intro exI [of _ 0]) (simp add: get_event_def)
  next
    case False
    then obtain j where "j < length es" "es ! j = e" "find_unprocessed_from (Suc i) es k =
           Some (int (Suc i + j), put_event e ((events k ! e)\<lparr>unprocessed := unprocessed (events k ! e) - 1\<rparr>) k)"
      using Cons.IH [of "Suc i"] Cons.prems by auto
    then show ?thesis using False Cons.prems by (intro exI [of _ "Suc j"]) (simp add: get_event_def)
  qed
qed simp

lemma poll_blocks:
  assumes ok: "kev_ok k E P" "sched_ok (sched k) L" and c: "c < length (cpus (sched k))"
    and x: "cur (sched k) c = Ref x" "idl (sched k) c \<noteq> Ref x"
    and es: "\<forall>e \<in> set es. e < length (events k) \<and> unprocessed (events k ! e) = 0"
  shows "\<exists>k' E' P' L'. kevents_poll c es k = Some (Inr (IF (cpus (sched k) ! c), Ref x, k')) \<and>
           kev_ok k' E' P' \<and> sched_ok (sched k') L' \<and> st (sched k') x = TASK_STATE_SLEEPING \<and>
           x < length (tasks (sched k')) \<and> length (cpus (sched k')) = length (cpus (sched k)) \<and>
           length (events k') = length (events k) \<and>
           (\<forall>d. unprocessed (events k' ! d) = unprocessed (events k ! d)) \<and>
           thread_lists k' E' = sub_all es (Ref x) (thread_lists k E)"
proof -
  define s0 where "s0 = set_IF False c (sched k)"
  define k0 where "k0 = k\<lparr>sched := s0\<rparr>"
  have rel0: "kev_rel k0 E P" using ok(1) by (simp add: kev_ok_def kev_rel_def k0_def)
  have T0: "thread_lists k0 E = thread_lists k E" by (simp add: thread_lists_def threads_def k0_def)
  have es0: "\<forall>e \<in> set es. e < length (events k0)" using es by (simp add: k0_def)
  obtain k2 E2 P2 where k2: "kevent_subscribe es (Ref x) k0 = Some k2" "kev_rel k2 E2 P2" "length (events k2) = length (events k0)"
    "sched k2 = sched k0" "thread_lists k2 E2 = sub_all es (Ref x) (thread_lists k0 E)"
    "\<forall>d. unprocessed (events k2 ! d) = unprocessed (events k0 ! d)"
    using subscribe_ok [OF rel0 es0] by blast
  obtain s' L' where s': "block_current c (sched k) = Some s'" "sched_ok s' L'" "st s' x = TASK_STATE_SLEEPING"
    "x < length (tasks s')" "length (tasks s') = length (tasks (sched k))" "length (cpus s') = length (cpus (sched k))"
    using block_ok [OF ok(2) c x] by blast
  have ct: "scheduler_curr_task c s0 = Some (Ref x)"
    using c x set_IF_simps [OF c, where b = False] by (simp add: s0_def scheduler_curr_task_def get_this_cpu_def)
  then obtain s1 where s1: "scheduler_put_task2sleep c (Ref x) s0 = Some s1" "scheduler_yield c s1 = Some s'"
    using s'(1) by (auto simp: block_current_def s0_def [symmetric] Let_def split: Option.bind_splits)
  define k' where "k' = k2\<lparr>sched := s'\<rparr>"
  have "find_unprocessed es k0 = Some (KEVENT_POLL_INVALID, k0)"
    unfolding find_unprocessed_def by (rule find_unprocessed_none) (use es in \<open>simp add: k0_def\<close>)
  then have "kevents_poll c es k = Some (Inr (IF (cpus (sched k) ! c), Ref x, k'))"
    using c ct k2(1,4) s1
    by (simp add: kevents_poll_def preempt_fetch_of_def s0_def [symmetric] k0_def [symmetric] Let_def with_sched_def k'_def)
      (simp add: k0_def)
  moreover have "kev_ok k' E2 P2"
  proof -
    have "\<exists>y < length (tasks s'). t = Ref y" if "t \<in> set (sub_all es (Ref x) (thread_lists k E) e)" for t e
      using that ok(1) s'(4,5) by (auto simp: sub_all_replicate kev_ok_def)
    then show ?thesis using k2(2,5) T0
      by (simp add: kev_ok_def k'_def thread_lists_def threads_def kev_rel_def)
  qed
  moreover have "thread_lists k' E2 = sub_all es (Ref x) (thread_lists k E)"
    using k2(5) T0 by (simp add: k'_def thread_lists_def threads_def)
  ultimately show ?thesis using s' k2(3,6)
    by (intro exI [of _ k'] exI [of _ E2] exI [of _ P2] exI [of _ L']) (simp add: k'_def k0_def)
qed

section \<open>Properties\<close>

text \<open>C31. Launching an event that has subscribers counts the launch, makes every subscribed thread that
  slept ready to run and leaves every other thread as it was, and keeps the scheduler consistent;
  launching an event without subscribers panics.\<close>

theorem launch_wakes_subscribers:
  assumes "kev_ok k E P" "sched_ok (sched k) L" "e < length (events k)"
  shows "(E e = [] \<longrightarrow> kevent_launch e k = None) \<and>
    (E e \<noteq> [] \<longrightarrow>
      (\<exists>k' L'. kevent_launch e k = Some k' \<and> sched_ok (sched k') L' \<and>
         unprocessed (events k' ! e) = unprocessed (events k ! e) + 1 \<and>
         (\<forall>i < length (tasks (sched k)). st (sched k') i =
            (if Ref i \<in> set (thread_lists k E e) \<and> st (sched k) i = TASK_STATE_SLEEPING then TASK_STATE_READY
             else st (sched k) i))))"
proof (cases "E e = []")
  case True
  then have "subscribers (events k ! e) = Null" using assms by (auto simp: kev_ok_def kev_rel_def)
  then show ?thesis using True assms(3) by (simp add: kevent_launch_def get_event_def)
next
  case False
  define k1 where "k1 = put_event e ((events k ! e)\<lparr>unprocessed := unprocessed (events k ! e) + 1\<rparr>) k"
  from launch_ok [OF assms False] obtain s' L' where s': "kevent_launch e k = Some (k1\<lparr>sched := s'\<rparr>)"
    "sched_ok s' L'" "woken (set (thread_lists k E e)) (sched k) s'" unfolding k1_def by blast
  have "unprocessed (events (k1\<lparr>sched := s'\<rparr>) ! e) = unprocessed (events k ! e) + 1" using assms(3) by (simp add: k1_def)
  moreover have "sched_ok (sched (k1\<lparr>sched := s'\<rparr>)) L'" using s'(2) by simp
  moreover have "\<forall>i < length (tasks (sched k)). st (sched (k1\<lparr>sched := s'\<rparr>)) i =
            (if Ref i \<in> set (thread_lists k E e) \<and> st (sched k) i = TASK_STATE_SLEEPING then TASK_STATE_READY
             else st (sched k) i)" using s'(3) by (simp add: woken_def)
  ultimately show ?thesis using s'(1) False by blast
qed

text \<open>The small system with two events; the sleeping thread waits for the first.\<close>

definition demo_events :: kevent_state where
  "demo_events = \<lparr>sched = demo_sched,
     subs = [\<lparr>sub_next = Null, sub_prev = Null, sub_event = Ref 0, subscribed_thread = Ref 2\<rparr>],
     subscriber_pool = Null, events = [\<lparr>unprocessed = 0, subscribers = Ref 0\<rparr>, \<lparr>unprocessed = 0, subscribers = Null\<rparr>],
     reap_event = 1\<rparr>"

definition demo_lists :: "nat \<Rightarrow> nat list" where
  "demo_lists = (\<lambda>_. [])(0 := [0])"

lemma demo_events_ok: "kev_ok demo_events demo_lists []"
proof -
  have "dlist (n_next (subs demo_events)) (n_prev (subs demo_events)) (subscribers (events demo_events ! e)) Null (demo_lists e)"
    if "e < 2" for e
    using that by (auto simp: demo_events_def demo_lists_def less_2_cases_iff n_next_def n_prev_def)
  moreover have "demo_lists e = []" if "e \<ge> 2" for e using that by (simp add: demo_lists_def)
  ultimately have "kev_rel demo_events demo_lists []"
    by (auto simp: kev_rel_def demo_events_def) (auto simp: demo_lists_def split: if_splits)
  then show ?thesis
    by (auto simp: kev_ok_def thread_lists_def threads_def demo_lists_def demo_events_def demo_sched_def split: if_splits)
qed

theorem launch_wakes_subscribers_witness:
  "\<exists>k'. kevent_launch 0 demo_events = Some k' \<and> unprocessed (events k' ! 0) = 1 \<and> st (sched k') 2 = TASK_STATE_READY \<and>
        kevent_launch 1 demo_events = None"
proof -
  have s: "sched demo_events = demo_sched" by (simp add: demo_events_def)
  have ok: "sched_ok (sched demo_events) demo_queues" using demo_ok by (simp add: s)
  have "2 < length (tasks demo_sched)" "st demo_sched 2 = TASK_STATE_SLEEPING" "Ref 2 \<in> set (thread_lists demo_events demo_lists 0)"
    by (simp_all add: demo_sched_def demo_task_def thread_lists_def threads_def demo_lists_def demo_events_def)
  then show ?thesis
    using launch_wakes_subscribers [OF demo_events_ok ok, of 0] launch_wakes_subscribers [OF demo_events_ok ok, of 1]
    by (auto simp: demo_lists_def demo_events_def s)
qed

text \<open>C5. No wake-up is lost: a thread that polls events none of which is pending goes to sleep; the
  next launch of one of the events makes it ready, and when it runs again, whatever the scheduler
  did meanwhile, the poll returns an index of that event, consumes the launch, and every
  subscriber list is what it was before the poll.\<close>

theorem poll_launch_resume:
  assumes ok: "kev_ok k E P" "sched_ok (sched k) L" and c: "c < length (cpus (sched k))"
    and x: "cur (sched k) c = Ref x" "idl (sched k) c \<noteq> Ref x"
    and es: "\<forall>d \<in> set es. d < length (events k) \<and> unprocessed (events k ! d) = 0" and e: "e \<in> set es"
  shows "\<exists>k1 k2. kevents_poll c es k = Some (Inr (IF (cpus (sched k) ! c), Ref x, k1)) \<and>
    st (sched k1) x = TASK_STATE_SLEEPING \<and> kevent_launch e k1 = Some k2 \<and> st (sched k2) x = TASK_STATE_READY \<and>
    (\<forall>s. \<exists>i < length es. es ! i = e \<and>
       (\<exists>k3 E3 P3. kevents_poll_resume c es (IF (cpus (sched k) ! c)) (Ref x) (k2\<lparr>sched := s\<rparr>) = Some (int i, k3) \<and>
          kev_rel k3 E3 P3 \<and> thread_lists k3 E3 = thread_lists k E \<and>
          (\<forall>d < length (events k). unprocessed (events k3 ! d) = unprocessed (events k ! d))))"
proof -
  obtain k1 E1 P1 L1 where k1: "kevents_poll c es k = Some (Inr (IF (cpus (sched k) ! c), Ref x, k1))"
    "kev_ok k1 E1 P1" "sched_ok (sched k1) L1" "st (sched k1) x = TASK_STATE_SLEEPING" "x < length (tasks (sched k1))"
    "length (events k1) = length (events k)" "\<forall>d. unprocessed (events k1 ! d) = unprocessed (events k ! d)"
    "thread_lists k1 E1 = sub_all es (Ref x) (thread_lists k E)"
    using poll_blocks [OF ok c x es] by blast
  have sub: "count_list es e > 0" using e count_list_0_iff [of es e] by (cases "count_list es e") auto
  have el: "e < length (events k1)" using es e k1(6) by simp
  have xin: "Ref x \<in> set (thread_lists k1 E1 e)" using sub by (simp add: k1(8) sub_all_replicate)
  then have ne: "E1 e \<noteq> []" by (auto simp: thread_lists_def threads_def)
  define k1' where "k1' = put_event e ((events k1 ! e)\<lparr>unprocessed := unprocessed (events k1 ! e) + 1\<rparr>) k1"
  obtain s' L' where s': "kevent_launch e k1 = Some (k1'\<lparr>sched := s'\<rparr>)" "sched_ok s' L'"
    "woken (set (thread_lists k1 E1 e)) (sched k1) s'"
    using launch_ok [OF k1(2,3) el ne] unfolding k1'_def by blast
  define k2 where "k2 = k1'\<lparr>sched := s'\<rparr>"
  have ready: "st (sched k2) x = TASK_STATE_READY" using s'(3) k1(4,5) xin by (simp add: woken_def k2_def)
  have resume: "\<exists>i < length es. es ! i = e \<and>
       (\<exists>k3 E3 P3. kevents_poll_resume c es b (Ref x) (k2\<lparr>sched := s\<rparr>) = Some (int i, k3) \<and>
          kev_rel k3 E3 P3 \<and> thread_lists k3 E3 = thread_lists k E \<and>
          (\<forall>d < length (events k). unprocessed (events k3 ! d) = unprocessed (events k ! d)))" for s b
  proof -
    let ?k = "k2\<lparr>sched := s\<rparr>"
    have ev: "events ?k = (events k1)[e := (events k1 ! e)\<lparr>unprocessed := unprocessed (events k1 ! e) + 1\<rparr>]" "subs ?k = subs k1"
      "subscriber_pool ?k = subscriber_pool k1"
      by (simp_all add: k2_def k1'_def)
    have u: "unprocessed (events ?k ! d) = (if d = e then 1 else unprocessed (events k ! d))" if "d < length (events k1)" for d
      using that el es e k1(7) by (simp add: ev nth_list_update)
    have a1: "\<forall>d \<in> set es. d < length (events ?k)" using es k1(6) by (simp add: ev(1))
    have a2: "unprocessed (events ?k ! e) \<noteq> 0" using u [OF el] by simp
    have a3: "\<forall>d \<in> set es. d \<noteq> e \<longrightarrow> unprocessed (events ?k ! d) = 0" using u es k1(6) by simp
    obtain i where i: "i < length es" "es ! i = e" "find_unprocessed_from 0 es ?k =
        Some (int (0 + i), put_event e ((events ?k ! e)\<lparr>unprocessed := unprocessed (events ?k ! e) - 1\<rparr>) ?k)"
      using find_unprocessed_first [OF a1 e a2 a3, of 0] by blast
    define k4 where "k4 = put_event e ((events ?k ! e)\<lparr>unprocessed := unprocessed (events ?k ! e) - 1\<rparr>) ?k"
    have len4: "length (events k4) = length (events k)" by (simp add: k4_def ev k1(6))
    have sb4: "subscribers (events k4 ! d) = subscribers (events k1 ! d)" if "d < length (events k1)" for d
      using that el by (simp add: k4_def ev nth_list_update)
    have u4: "unprocessed (events k4 ! d) = unprocessed (events k ! d)" if "d < length (events k)" for d
      using that el k1(6,7) by (simp add: k4_def nth_list_update ev(1))
    have rel4: "kev_rel k4 E1 P1"
      using k1(2) sb4 len4 k1(6) ev by (simp add: kev_ok_def kev_rel_def k4_def)
    have T4: "thread_lists k4 E1 = sub_all es (Ref x) (thread_lists k E)"
      using k1(8) ev by (simp add: k4_def thread_lists_def threads_def)
    have es4: "\<forall>d \<in> set es. d < length (events k4)" using es len4 by simp
    have cnt: "\<forall>d. count_list es d \<le> count_list (thread_lists k4 E1 d) (Ref x)"
      by (simp add: T4 sub_all_replicate count_replicate)
    obtain k5 E5 P5 where k5: "kevent_unsubscribe es (Ref x) k4 = Some k5" "kev_rel k5 E5 P5"
      "thread_lists k5 E5 = unsub_all es (Ref x) (thread_lists k4 E1)"
      "\<forall>d. unprocessed (events k5 ! d) = unprocessed (events k4 ! d)"
      using unsubscribe_ok [OF rel4 es4 cnt] by blast
    define k6 where "k6 = (if b then k5\<lparr>sched := set_IF True c (sched k5)\<rparr> else k5)"
    have k6: "events k6 = events k5" "subs k6 = subs k5" "subscriber_pool k6 = subscriber_pool k5" by (simp_all add: k6_def)
    have "kevents_poll_resume c es b (Ref x) ?k = Some (int i, k6)"
      using i(3) k5(1) by (simp add: kevents_poll_resume_def find_unprocessed_def k4_def k6_def)
    moreover have "kev_rel k6 E5 P5" using k5(2) k6 by (simp add: kev_rel_def)
    moreover have "thread_lists k6 E5 = thread_lists k E"
      using k5(3) k6 T4 unsub_sub by (simp add: thread_lists_def threads_def)
    ultimately show ?thesis using i k5(4) u4 k6 by auto
  qed
  show ?thesis using k1(1,4) s'(1) ready resume unfolding k2_def by blast
qed

theorem poll_launch_resume_witness:
  "\<exists>k1 k2. kevents_poll 0 [1, 0] demo_events = Some (Inr (True, Ref 1, k1)) \<and>
     kevent_launch 0 k1 = Some k2 \<and> st (sched k2) 1 = TASK_STATE_READY \<and>
     (\<exists>k3. kevents_poll_resume 0 [1, 0] True (Ref 1) k2 = Some (1, k3))"
proof -
  have s: "sched demo_events = demo_sched" by (simp add: demo_events_def)
  have ok: "sched_ok (sched demo_events) demo_queues" using demo_ok by (simp add: s)
  have a: "0 < length (cpus (sched demo_events))" "cur (sched demo_events) 0 = Ref 1" "idl (sched demo_events) 0 \<noteq> Ref 1"
    "IF (cpus (sched demo_events) ! 0) = True"
    by (simp_all add: s demo_sched_def)
  have es: "\<forall>d \<in> set [1, 0]. d < length (events demo_events) \<and> unprocessed (events demo_events ! d) = 0"
    by (simp add: demo_events_def)
  have e: "0 \<in> set [1, 0::nat]" by simp
  obtain k1 k2 where k: "kevents_poll 0 [1, 0] demo_events = Some (Inr (True, Ref 1, k1))"
    "kevent_launch 0 k1 = Some k2" "st (sched k2) 1 = TASK_STATE_READY"
    and r: "\<forall>s. \<exists>i < length [1, 0::nat]. [1, 0::nat] ! i = 0 \<and>
       (\<exists>k3. kevents_poll_resume 0 [1, 0] True (Ref 1) (k2\<lparr>sched := s\<rparr>) = Some (int i, k3))"
    using poll_launch_resume [OF demo_events_ok ok a(1,2,3) es e] unfolding a(4) by blast
  obtain i where i: "i < 2" "[1, 0::nat] ! i = 0" "\<exists>k3. kevents_poll_resume 0 [1, 0] True (Ref 1) (k2\<lparr>sched := sched k2\<rparr>) = Some (int i, k3)"
    using r [rule_format, of "sched k2"] by auto
  have "i = 1" using i(1,2) by (auto simp: less_2_cases_iff)
  then show ?thesis using k i(3) by auto
qed

end
