(* ===== verification/Locking.thy ===== *)
theory Locking
  imports Tasks
begin

text \<open>
  Spin locks and mutexes, \<open>kernel/src/std/locking.c\<close>. The atomic operations are single steps on
  the lock word. A spin lock with interrupt state is used by several processors at a time, so
  \<open>spin_lock_global\<close> and \<open>spin_unlock_global\<close> are given as the sequence of steps of one processor,
  each of them one access to shared memory or to the processor's own interrupt flag; \<open>lock_step\<close>
  interleaves the processors. The loops that wait for other processors take what they observe
  (the results of their atomic operations, the tick counter) as functions of the attempt.
\<close>

section \<open>Data\<close>

record k_spinlock =
  lock :: u64
  old_state :: bool

record k_mutex =
  mlock :: u64

section \<open>Interrupt flag\<close>

definition preempt_disable :: "bool \<Rightarrow> bool" where
  "preempt_disable fl = False"

definition preempt_enable :: "bool \<Rightarrow> bool" where
  "preempt_enable fl = True"

definition preempt_fetch :: "bool \<Rightarrow> bool" where
  "preempt_fetch fl = fl"

definition preempt_fetch_disable :: "bool \<Rightarrow> bool \<times> bool" where
  "preempt_fetch_disable fl = (let old = preempt_fetch fl in (old, preempt_disable fl))"

definition preempt_restore :: "bool \<Rightarrow> bool \<Rightarrow> bool" where
  "preempt_restore st fl = (if st then preempt_enable fl else fl)"

section \<open>Atomic operations\<close>

text \<open>\<open>__atomic_test_and_set\<close> sets the first byte of the word and returns whether it was set;
  \<open>__sync_bool_compare_and_swap\<close> works on the whole word.\<close>

definition test_and_set :: "u64 \<Rightarrow> bool \<times> u64" where
  "test_and_set w = (w AND 0xFF \<noteq> 0, (w AND NOT 0xFF) OR 1)"

definition compare_and_swap :: "u64 \<Rightarrow> u64 \<Rightarrow> u64 \<Rightarrow> bool \<times> u64" where
  "compare_and_swap old new w = (if w = old then (True, new) else (False, w))"

section \<open>Spin locks\<close>

definition SPIN_LIMIT :: nat where
  "SPIN_LIMIT = 10000000"

text \<open>The loop of \<open>spin_lock\<close>: \<open>busy i\<close> tells whether attempt \<open>i\<close> finds the lock taken. The result is the
  attempt that acquired it, or a panic.\<close>

function spin_lock :: "(nat \<Rightarrow> bool) \<Rightarrow> nat \<Rightarrow> nat option" where
  "spin_lock busy c =
     (if busy c then if Suc c > SPIN_LIMIT then None else spin_lock busy (Suc c) else Some c)"
  by pat_completeness auto
termination
  by (relation "measure (\<lambda>(busy, c). SPIN_LIMIT - c)") auto

declare spin_lock.simps [simp del]

definition spin_unlock :: "k_spinlock \<Rightarrow> k_spinlock" where
  "spin_unlock l = l\<lparr>lock := 0\<rparr>"

text \<open>\<open>spin_lock_timeout\<close>: \<open>busy i\<close> is the result of attempt \<open>i\<close>, \<open>ticks i\<close> the tick counter after it.\<close>

partial_function (option) lock_timeout :: "(nat \<Rightarrow> bool) \<Rightarrow> (nat \<Rightarrow> u64) \<Rightarrow> u64 \<Rightarrow> nat \<Rightarrow> (bool \<times> nat) option" where
  "lock_timeout busy ticks e i =
     (if busy i then if ticks i > e then Some (False, i) else lock_timeout busy ticks e (Suc i)
      else Some (True, i))"

definition spin_lock_timeout :: "(nat \<Rightarrow> bool) \<Rightarrow> (nat \<Rightarrow> u64) \<Rightarrow> u64 \<Rightarrow> u64 \<Rightarrow> (bool \<times> nat) option" where
  "spin_lock_timeout busy ticks now millis = lock_timeout busy ticks (now + millis) 0"

text \<open>The steps of one processor that takes and releases a lock with interrupt state: \<open>Outside\<close> calls
  \<open>spin_lock_global\<close>, \<open>Fetched\<close> has saved and cleared its interrupt flag, \<open>Spinning\<close> waits in
  \<open>spin_lock\<close>, \<open>Holding\<close> is inside the critical section, \<open>Released\<close> has stored 0 in
  \<open>spin_unlock_global\<close> and has not yet restored the flag.\<close>

datatype spin_pc = Outside | Fetched bool | Spinning nat | Holding | Released

fun cpu_step :: "spin_pc \<Rightarrow> bool \<Rightarrow> k_spinlock \<Rightarrow> (spin_pc \<times> bool \<times> k_spinlock) option" where
  "cpu_step Outside fl l = (let (old, fl') = preempt_fetch_disable fl in Some (Fetched old, fl', l))"
| "cpu_step (Fetched old) fl l = Some (Spinning 0, fl, l\<lparr>old_state := old\<rparr>)"
| "cpu_step (Spinning c) fl l =
     (let (taken, w) = test_and_set (lock l) in
      if taken then if Suc c > SPIN_LIMIT then None else Some (Spinning (Suc c), fl, l\<lparr>lock := w\<rparr>)
      else Some (Holding, fl, l\<lparr>lock := w\<rparr>))"
| "cpu_step Holding fl l = Some (Released, fl, spin_unlock l)"
| "cpu_step Released fl l = Some (Outside, preempt_restore (old_state l) fl, l)"

record spin_sys =
  the_lock :: k_spinlock
  pc :: "nat \<Rightarrow> spin_pc"
  IFs :: "nat \<Rightarrow> bool"

definition sys_step :: "nat \<Rightarrow> spin_sys \<Rightarrow> spin_sys option" where
  "sys_step c s = map_option (\<lambda>(p, fl, l). s\<lparr>the_lock := l, pc := (pc s)(c := p), IFs := (IFs s)(c := fl)\<rparr>)
     (cpu_step (pc s c) (IFs s c) (the_lock s))"

text \<open>The processors run in any order, and outside the lock code each may change its interrupt flag.\<close>

inductive lock_step :: "spin_sys \<Rightarrow> spin_sys \<Rightarrow> bool" where
  step: "sys_step c s = Some s' \<Longrightarrow> lock_step s s'"
| flag: "pc s c = Outside \<Longrightarrow> lock_step s (s\<lparr>IFs := (IFs s)(c := b)\<rparr>)"

inductive_cases lock_stepE: "lock_step s s'"

primrec run_cpus :: "nat list \<Rightarrow> spin_sys \<Rightarrow> spin_sys option" where
  "run_cpus [] s = Some s"
| "run_cpus (c # cs) s = Option.bind (sys_step c s) (run_cpus cs)"

section \<open>Mutexes\<close>

text \<open>\<open>mutex_lock\<close> up to its return (\<open>Inl\<close>) or to the yield to another thread (\<open>Inr\<close>), after which the
  thread tries again when it runs next.\<close>

definition mutex_lock :: "nat \<Rightarrow> k_mutex \<Rightarrow> ksched \<Rightarrow> (k_mutex + ksched) option" where
  "mutex_lock c m s =
     (let (ok, w) = compare_and_swap 0 1 (mlock m) in
      if ok then Some (Inl (m\<lparr>mlock := w\<rparr>)) else map_option Inr (scheduler_yield c s))"

text \<open>\<open>mutex_lock_timeout\<close> in the same way: \<open>e\<close> is the last tick at which it goes on waiting, and
  \<open>mutex_lock_timeout_resume\<close> continues behind the yield at tick \<open>now\<close>.\<close>

definition mutex_lock_until :: "nat \<Rightarrow> k_mutex \<Rightarrow> ksched \<Rightarrow> ((bool \<times> k_mutex) + ksched) option" where
  "mutex_lock_until c m s =
     (let (ok, w) = compare_and_swap 0 1 (mlock m) in
      if ok then Some (Inl (True, m\<lparr>mlock := w\<rparr>)) else map_option Inr (scheduler_yield c s))"

definition mutex_lock_timeout :: "nat \<Rightarrow> k_mutex \<Rightarrow> u64 \<Rightarrow> u64 \<Rightarrow> ksched \<Rightarrow> u64 \<times> ((bool \<times> k_mutex) + ksched) option" where
  "mutex_lock_timeout c m now millis s = (now + millis, mutex_lock_until c m s)"

definition mutex_lock_timeout_resume :: "nat \<Rightarrow> k_mutex \<Rightarrow> u64 \<Rightarrow> u64 \<Rightarrow> ksched \<Rightarrow> ((bool \<times> k_mutex) + ksched) option" where
  "mutex_lock_timeout_resume c m now e s = (if now > e then Some (Inl (False, m)) else mutex_lock_until c m s)"

definition mutex_unlock :: "k_mutex \<Rightarrow> k_mutex" where
  "mutex_unlock m = m\<lparr>mlock := 0\<rparr>"

end
