(* ===== verification/Lock_Props.thy ===== *)
theory Lock_Props
  imports Locking Sched_Props
begin

text \<open>
  What the locks promise: mutual exclusion under every interleaving of the processors, the
  outcome of waiting, and what happens to the interrupt flag and to a contended mutex.
\<close>

section \<open>Mutual exclusion\<close>

definition lock_inv :: "spin_sys \<Rightarrow> bool" where
  "lock_inv s \<longleftrightarrow> lock (the_lock s) \<in> {0, 1} \<and>
     (\<forall>c d. pc s c = Holding \<and> pc s d = Holding \<longrightarrow> c = d) \<and>
     (lock (the_lock s) = 0 \<longrightarrow> (\<forall>c. pc s c \<noteq> Holding)) \<and>
     (\<forall>c. pc s c \<noteq> Outside \<longrightarrow> \<not> IFs s c)"

lemma test_and_set_01 [simp]: "test_and_set 0 = (False, 1)" "test_and_set 1 = (True, 1)"
  by (simp_all add: test_and_set_def)

lemma cpu_step_facts:
  assumes "cpu_step p fl l = Some (p', fl', l')" "lock l \<in> {0, 1}" "p \<noteq> Outside \<longrightarrow> \<not> fl"
  shows "lock l' \<in> {0, 1}" "p' = Holding \<Longrightarrow> lock l = 0 \<and> lock l' = 1"
    "lock l' = 0 \<Longrightarrow> lock l = 0 \<or> p = Holding" "p' \<noteq> Outside \<Longrightarrow> \<not> fl'"
  using assms
  by (cases p; auto simp: preempt_fetch_disable_def preempt_disable_def spin_unlock_def Let_def split: if_splits)+

lemma sys_step_inv:
  assumes inv: "lock_inv s" and step: "sys_step c s = Some s'"
  shows "lock_inv s'"
proof -
  obtain p fl l where run: "cpu_step (pc s c) (IFs s c) (the_lock s) = Some (p, fl, l)"
    and s': "s' = s\<lparr>the_lock := l, pc := (pc s)(c := p), IFs := (IFs s)(c := fl)\<rparr>"
    using step by (auto simp: sys_step_def)
  note f = cpu_step_facts [OF run] and i = inv [unfolded lock_inv_def]
  have "lock l \<in> {0, 1}" "p = Holding \<Longrightarrow> lock (the_lock s) = 0 \<and> lock l = 1"
    "lock l = 0 \<Longrightarrow> lock (the_lock s) = 0 \<or> pc s c = Holding" "p \<noteq> Outside \<Longrightarrow> \<not> fl"
    using f i by blast+
  then show ?thesis using i unfolding lock_inv_def s' by simp (metis zero_neq_one)
qed

lemma lock_step_inv: "lock_step s s' \<Longrightarrow> lock_inv s \<Longrightarrow> lock_inv s'"
proof (induction rule: lock_step.induct)
  case (step c s s')
  then show ?case by (blast intro: sys_step_inv)
next
  case (flag s c b)
  then show ?case unfolding lock_inv_def by simp
qed

lemma lock_steps_inv: "lock_step\<^sup>*\<^sup>* s s' \<Longrightarrow> lock_inv s \<Longrightarrow> lock_inv s'"
  by (induction rule: rtranclp_induct) (auto dest: lock_step_inv)

text \<open>C9. Mutual exclusion. From a free lock that no processor uses, in every interleaving of the
  processors at most one holds the lock, and a processor that is anywhere in the lock code or
  holds the lock has its interrupts disabled.\<close>

theorem spin_lock_mutual_exclusion:
  assumes "lock (the_lock s) = 0" "\<And>c. pc s c = Outside" "lock_step\<^sup>*\<^sup>* s s'"
  shows "(pc s' c = Holding \<and> pc s' d = Holding \<longrightarrow> c = d) \<and> (pc s' c \<noteq> Outside \<longrightarrow> \<not> IFs s' c)"
proof -
  have "lock_inv s" using assms(1,2) by (simp add: lock_inv_def)
  from lock_steps_inv [OF assms(3) this] show ?thesis by (auto simp: lock_inv_def)
qed

definition demo_lock :: spin_sys where
  "demo_lock = \<lparr>the_lock = \<lparr>lock = 0, old_state = False\<rparr>, pc = (\<lambda>_. Outside), IFs = (\<lambda>c. c = 1)\<rparr>"

lemma run_cpus_steps: "run_cpus cs s = Some s' \<Longrightarrow> lock_step\<^sup>*\<^sup>* s s'"
proof (induction cs arbitrary: s)
  case (Cons c cs)
  then obtain s1 where "sys_step c s = Some s1" "run_cpus cs s1 = Some s'" by (auto split: Option.bind_splits)
  then show ?case using Cons.IH by (meson converse_rtranclp_into_rtranclp lock_step.step)
qed simp

theorem spin_lock_mutual_exclusion_witness:
  "\<exists>s'. run_cpus [1, 1, 1, 0, 0, 0] demo_lock = Some s' \<and> pc s' 1 = Holding \<and> pc s' 0 = Spinning 1 \<and> \<not> IFs s' 1"
proof -
  define s' where "s' = the (run_cpus [1, 1, 1, 0, 0, 0] demo_lock)"
  have s': "run_cpus [1, 1, 1, 0, 0, 0] demo_lock = Some s'" "pc s' 1 = Holding" "pc s' 0 = Spinning 1"
    unfolding s'_def by (simp_all add: demo_lock_def sys_step_def preempt_fetch_disable_def SPIN_LIMIT_def)
  have "lock (the_lock demo_lock) = 0" "pc demo_lock c = Outside" for c by (simp_all add: demo_lock_def)
  from spin_lock_mutual_exclusion [OF this run_cpus_steps [OF s'(1)], of 1 1] show ?thesis using s' by auto
qed

section \<open>Waiting\<close>

text \<open>C37. \<open>spin_lock\<close> ends: it acquires the lock at the first attempt that finds it free when that is
  among the first \<open>SPIN_LIMIT + 1\<close> attempts, and panics otherwise.\<close>

theorem spin_lock_outcome:
  "(spin_lock busy 0 = Some n \<longleftrightarrow> n \<le> SPIN_LIMIT \<and> \<not> busy n \<and> (\<forall>i < n. busy i)) \<and>
   (spin_lock busy 0 = None \<longleftrightarrow> (\<forall>i \<le> SPIN_LIMIT. busy i))"
proof -
  have "c \<le> SPIN_LIMIT \<Longrightarrow> (spin_lock busy c = Some n \<longleftrightarrow> c \<le> n \<and> n \<le> SPIN_LIMIT \<and> \<not> busy n \<and> (\<forall>i. c \<le> i \<longrightarrow> i < n \<longrightarrow> busy i)) \<and>
     (spin_lock busy c = None \<longleftrightarrow> (\<forall>i. c \<le> i \<longrightarrow> i \<le> SPIN_LIMIT \<longrightarrow> busy i))" for c n
  proof (induction busy c rule: spin_lock.induct)
    case (1 busy c)
    have le: "(\<forall>i. c \<le> i \<longrightarrow> i < n \<longrightarrow> busy i) \<longleftrightarrow> (c < n \<longrightarrow> busy c) \<and> (\<forall>i. Suc c \<le> i \<longrightarrow> i < n \<longrightarrow> busy i)"
      "(\<forall>i. c \<le> i \<longrightarrow> i \<le> SPIN_LIMIT \<longrightarrow> busy i) \<longleftrightarrow> busy c \<and> (\<forall>i. Suc c \<le> i \<longrightarrow> i \<le> SPIN_LIMIT \<longrightarrow> busy i)"
      using 1(2) by (metis Suc_le_eq le_neq_implies_less less_or_eq_imp_le not_less_eq_eq order_refl)+
    show ?case
    proof (cases "busy c")
      case True
      show ?thesis
      proof (cases "Suc c > SPIN_LIMIT")
        case True
        then have "c = SPIN_LIMIT" using 1(2) by simp
        then show ?thesis using \<open>busy c\<close> by (subst (1 2) spin_lock.simps) auto
      next
        case False
        then have run: "spin_lock busy c = spin_lock busy (Suc c)" using \<open>busy c\<close> by (subst spin_lock.simps) simp
        show ?thesis unfolding run le using 1(1) [OF True False] False True
          by (auto simp: Suc_le_eq)
      qed
    next
      case False
      then have "spin_lock busy c = Some c" by (subst spin_lock.simps) simp
      then show ?thesis using False 1(2) by (auto simp: le_less)
    qed
  qed
  from this [of 0 n] show ?thesis by simp
qed

theorem spin_lock_outcome_witness: "spin_lock (\<lambda>i. i < 5) 0 = Some 5 \<and> spin_lock (\<lambda>_. True) 0 = None"
  using spin_lock_outcome [of "\<lambda>i. i < 5" 5] spin_lock_outcome [of "\<lambda>_. True" 0] by (simp add: SPIN_LIMIT_def)

lemma lock_timeout_ends:
  assumes "\<not> busy n \<or> ticks n > e" "i \<le> n"
  shows "\<exists>b m. lock_timeout busy ticks e i = Some (b, m) \<and> i \<le> m \<and> m \<le> n \<and> (b \<longleftrightarrow> \<not> busy m) \<and>
    (\<not> b \<longrightarrow> ticks m > e) \<and> (\<forall>j. i \<le> j \<longrightarrow> j < m \<longrightarrow> busy j)"
  using assms(2)
proof (induction "n - i" arbitrary: i)
  case 0
  then have "i = n" by simp
  then show ?case using assms(1) by (subst lock_timeout.simps) auto
next
  case (Suc k)
  show ?case
  proof (cases "busy i \<and> \<not> ticks i > e")
    case True
    then have ne: "i \<noteq> n" using assms(1) by auto
    obtain b m where "lock_timeout busy ticks e (Suc i) = Some (b, m)" "Suc i \<le> m" "m \<le> n" "b \<longleftrightarrow> \<not> busy m"
      "\<not> b \<longrightarrow> ticks m > e" "\<forall>j. Suc i \<le> j \<longrightarrow> j < m \<longrightarrow> busy j"
      using Suc(1) [of "Suc i"] Suc(2,3) ne by (metis Suc_diff_Suc Suc_inject Suc_leI le_neq_implies_less)
    moreover from this(6) True have "\<forall>j. i \<le> j \<longrightarrow> j < m \<longrightarrow> busy j" by (metis Suc_leI le_neq_implies_less)
    ultimately show ?thesis using True by (subst lock_timeout.simps) auto
  next
    case False
    then show ?thesis using Suc(3) by (subst lock_timeout.simps) auto
  qed
qed

text \<open>\<open>spin_lock_timeout\<close>. When the tick counter reaches a value behind the deadline at some attempt,
  the call ends; it reports success exactly when it ended on an attempt that found the lock free,
  and a failure means that the tick counter is behind \<open>now + millis\<close> (modulo \<open>2 ^ 64\<close>).\<close>

lemma spin_lock_timeout_ends:
  assumes "\<not> busy n \<or> ticks n > now + millis"
  shows "\<exists>ok m. spin_lock_timeout busy ticks now millis = Some (ok, m) \<and> m \<le> n \<and> (ok \<longleftrightarrow> \<not> busy m) \<and>
    (\<not> ok \<longrightarrow> ticks m > now + millis) \<and> (\<forall>j < m. busy j)"
  using lock_timeout_ends [where busy = busy and ticks = ticks and n = n and e = "now + millis" and i = 0] assms by (auto simp: spin_lock_timeout_def)

section \<open>The interrupt flag\<close>

lemma run_alone:
  assumes "pc s c = Outside" "lock (the_lock s) = 0"
  shows "run_cpus [c, c, c, c, c] s = Some (s\<lparr>the_lock := \<lparr>lock = 0, old_state = IFs s c\<rparr>\<rparr>)"
  using assms
  by (cases s; cases "the_lock s")
    (auto simp: sys_step_def preempt_fetch_disable_def preempt_disable_def preempt_fetch_def preempt_restore_def
      preempt_enable_def spin_unlock_def fun_upd_idem)

text \<open>A processor that is alone with a free lock takes and releases it, and the interrupt flags of all
  processors are what they were.\<close>

lemma interrupt_flag_restored_alone:
  assumes "pc s c = Outside" "lock (the_lock s) = 0"
  shows "\<exists>s'. run_cpus [c, c, c, c, c] s = Some s' \<and> pc s' = pc s \<and> IFs s' = IFs s \<and> lock (the_lock s') = 0"
  using run_alone [OF assms] by simp


section \<open>Mutexes\<close>

text \<open>C39. \<open>mutex_lock\<close> takes a free mutex, and \<open>mutex_unlock\<close> frees it. When the mutex is taken and no other
  thread of the same or a higher priority is ready, \<open>mutex_lock\<close> stops the kernel instead of
  waiting: it yields while its thread is marked as running.\<close>

theorem mutex_lock_outcome:
  assumes ok: "sched_ok s L" and c: "c < length (cpus s)" and x: "cur s c = Ref x"
    and alone: "\<forall>i \<le> pr s x. L (Prio i) = []"
  shows "mutex_lock c m s = (if mlock m = 0 then Some (Inl (m\<lparr>mlock := 1\<rparr>)) else None) \<and>
         mutex_lock c (mutex_unlock m) s = Some (Inl (m\<lparr>mlock := 1\<rparr>))"
  using yield_running_None [OF assms]
  by (simp add: mutex_lock_def compare_and_swap_def mutex_unlock_def)

theorem mutex_lock_outcome_witness:
  "mutex_lock 0 \<lparr>mlock = 1\<rparr> demo_sched = None \<and> mutex_lock 0 \<lparr>mlock = 0\<rparr> demo_sched = Some (Inl \<lparr>mlock = 1\<rparr>)"
  using mutex_lock_outcome [OF demo_ok, of 0 1 "\<lparr>mlock = 1\<rparr>"] mutex_lock_outcome [OF demo_ok, of 0 1 "\<lparr>mlock = 0\<rparr>"]
  by (simp add: demo_sched_def demo_queues_def)

end
