(* ===== verification/Mmu.thy ===== *)
theory Mmu
  imports Frame_Contract
begin

text \<open>
  The page tables, \<open>kernel/src/arch/x86-64/mmu.c\<close> with \<open>kernel/include/mmu.h\<close>. Table entries are
  64-bit words in memory; a table is the address of its first word in the direct map, which is
  its physical address plus \<open>hhdm_off\<close>. New tables come from the frame allocator of the
  development and are cleared. Reloading \<open>cr3\<close> (\<open>tlb_flush\<close>) has no effect on the tables, and each
  operation runs under one lock. The loops over address ranges are partial functions, since their
  64-bit counter could wrap around.
\<close>

section \<open>Page table format\<close>

definition PM_COMMON_PRESENT :: u64 where
  "PM_COMMON_PRESENT = push_bit 0 1"

definition PM_COMMON_WRITE :: u64 where
  "PM_COMMON_WRITE = push_bit 1 1"

definition PM_COMMON_USER :: u64 where
  "PM_COMMON_USER = push_bit 2 1"

definition PM_COMMON_PWT :: u64 where
  "PM_COMMON_PWT = push_bit 3 1"

definition PM_COMMON_PCD :: u64 where
  "PM_COMMON_PCD = push_bit 4 1"

definition PM_COMMON_NX :: u64 where
  "PM_COMMON_NX = push_bit 63 1"

definition PDXX_COMMON_PS :: u64 where
  "PDXX_COMMON_PS = push_bit 7 1"

definition PDXX_COMMON_PAT :: u64 where
  "PDXX_COMMON_PAT = push_bit 12 1"

definition PT_PAT :: u64 where
  "PT_PAT = push_bit 7 1"

definition PML_LOWER_MASK :: u64 where
  "PML_LOWER_MASK = 0x000ffffffffff000"

definition MAF_WRITE :: u64 where
  "MAF_WRITE = PM_COMMON_WRITE"

definition MAF_NX :: u64 where
  "MAF_NX = PM_COMMON_NX"

datatype memory_cache_type =
    MCT_UNCACHEABLE | MCT_WRITE_COMBINING | MCT_WRITE_THROUGH | MCT_WRITE_BACK | MCT_WRITE_PROTECTED

section \<open>State\<close>

record mmu_state =
  phys_frames :: frame_state
  pmem :: "u64 \<Rightarrow> u64"
  hhdm_off :: u64
  kernel_pml4 :: u64
  phys_addr_width :: u64
  lin_addr_width :: u64
  lapic_addr :: u64
  active_pml4 :: u64

definition ALIGN_UP64 :: "u64 \<Rightarrow> u64 \<Rightarrow> u64" where
  "ALIGN_UP64 x base = (x + base - 1) AND NOT (base - 1)"

definition ALIGN_DOWN64 :: "u64 \<Rightarrow> u64 \<Rightarrow> u64" where
  "ALIGN_DOWN64 x base = x AND NOT (base - 1)"

definition DIFF :: "u64 \<Rightarrow> u64 \<Rightarrow> u64" where
  "DIFF x y = max x y - min x y"

definition entry_at :: "mmu_state \<Rightarrow> u64 \<Rightarrow> u64 \<Rightarrow> u64" where
  "entry_at s pml index = pmem s (pml + 8 * index)"

definition set_entry :: "u64 \<Rightarrow> u64 \<Rightarrow> u64 \<Rightarrow> mmu_state \<Rightarrow> mmu_state" where
  "set_entry pml index e s = s\<lparr>pmem := (pmem s)(pml + 8 * index := e)\<rparr>"

definition zero_memory :: "u64 \<Rightarrow> u64 \<Rightarrow> mmu_state \<Rightarrow> mmu_state" where
  "zero_memory base n s = s\<lparr>pmem := (\<lambda>a. if a - base < n then 0 else pmem s a)\<rparr>"

text \<open>\<open>page_calloc\<close>: a zeroed block of pages, with its physical address.\<close>

definition page_calloc :: "nat \<Rightarrow> mmu_state \<Rightarrow> (page_ptr \<times> mmu_state) option" where
  "page_calloc order s = do {
     (out, fs) \<leftarrow> page_alloc order (phys_frames s);
     a \<leftarrow> page2phys (pages fs) out;
     Some (out, zero_memory (of_nat a + hhdm_off s) (of_nat (push_bit PAGE_SHIFT (order2size order))) (s\<lparr>phys_frames := fs\<rparr>))
   }"

section \<open>Walking one level\<close>

definition attempt_walk_pagemap_single_lvl :: "u64 \<Rightarrow> u64 \<Rightarrow> mmu_state \<Rightarrow> u64" where
  "attempt_walk_pagemap_single_lvl pml index s =
     (if entry_at s pml index AND PM_COMMON_PRESENT \<noteq> 0
      then (entry_at s pml index AND PML_LOWER_MASK) + hhdm_off s else 0)"

definition force_walk_pagemap_single_lvl :: "u64 \<Rightarrow> u64 \<Rightarrow> u64 \<Rightarrow> mmu_state \<Rightarrow> (u64 \<times> mmu_state) option" where
  "force_walk_pagemap_single_lvl pml index flags s =
     (if entry_at s pml index AND PM_COMMON_PRESENT \<noteq> 0
      then Some ((entry_at s pml index AND PML_LOWER_MASK) + hhdm_off s, s)
      else do {
        (pg, s1) \<leftarrow> page_calloc 0 s;
        a \<leftarrow> page2phys (pages (phys_frames s1)) pg;
        let below_pml = of_nat a;
        Some (below_pml + hhdm_off s, set_entry pml index (below_pml OR flags) s1)
      })"

definition table_index :: "nat \<Rightarrow> u64 \<Rightarrow> u64" where
  "table_index sh va = drop_bit sh (va AND push_bit sh 0x1ff)"

section \<open>Mapping one page\<close>

definition mmu_map_single_page_4k :: "u64 \<Rightarrow> u64 \<Rightarrow> u64 \<Rightarrow> u64 \<Rightarrow> mmu_state \<Rightarrow> mmu_state option" where
  "mmu_map_single_page_4k pml4 va pa flags s = do {
     kassert (pa AND 0xfff = 0 \<and> va AND 0xfff = 0);
     (pdpt, s1) \<leftarrow> force_walk_pagemap_single_lvl pml4 (table_index 39 va) (PM_COMMON_PRESENT OR PM_COMMON_WRITE) s;
     (pd, s2) \<leftarrow> force_walk_pagemap_single_lvl pdpt (table_index 30 va) (PM_COMMON_PRESENT OR PM_COMMON_WRITE) s1;
     (pt, s3) \<leftarrow> force_walk_pagemap_single_lvl pd (table_index 21 va) (PM_COMMON_PRESENT OR PM_COMMON_WRITE) s2;
     Some (set_entry pt (table_index 12 va) (pa OR flags) s3)
   }"

definition mmu_map_single_page_2m :: "u64 \<Rightarrow> u64 \<Rightarrow> u64 \<Rightarrow> u64 \<Rightarrow> mmu_state \<Rightarrow> mmu_state option" where
  "mmu_map_single_page_2m pml4 va pa flags s = do {
     kassert (pa AND 0x1fffff = 0 \<and> va AND 0x1fffff = 0);
     (pdpt, s1) \<leftarrow> force_walk_pagemap_single_lvl pml4 (table_index 39 va) (PM_COMMON_PRESENT OR PM_COMMON_WRITE) s;
     (pd, s2) \<leftarrow> force_walk_pagemap_single_lvl pdpt (table_index 30 va) (PM_COMMON_PRESENT OR PM_COMMON_WRITE) s1;
     Some (set_entry pd (table_index 21 va) (pa OR flags OR PDXX_COMMON_PS) s2)
   }"

definition mmu_map_single_page_1g :: "u64 \<Rightarrow> u64 \<Rightarrow> u64 \<Rightarrow> u64 \<Rightarrow> mmu_state \<Rightarrow> mmu_state option" where
  "mmu_map_single_page_1g pml4 va pa flags s = do {
     kassert (pa AND 0x3fffffff = 0 \<and> va AND 0x3fffffff = 0);
     (pdpt, s1) \<leftarrow> force_walk_pagemap_single_lvl pml4 (table_index 39 va) (PM_COMMON_PRESENT OR PM_COMMON_WRITE) s;
     Some (set_entry pdpt (table_index 30 va) (pa OR flags OR PDXX_COMMON_PS) s1)
   }"

section \<open>Mapping a range\<close>

partial_function (option) map_loop ::
  "(u64 \<Rightarrow> mmu_state \<Rightarrow> mmu_state option) \<Rightarrow> u64 \<Rightarrow> u64 \<Rightarrow> u64 \<Rightarrow> mmu_state \<Rightarrow> (u64 \<times> mmu_state) option" where
  "map_loop f step e lo s =
     (if lo < e then Option.bind (f lo s) (\<lambda>s'. map_loop f step e (lo + step) s') else Some (lo, s))"

text \<open>The flags of 4 KiB pages and of larger pages for a cache type.\<close>

fun cache_flags :: "memory_cache_type \<Rightarrow> u64 \<Rightarrow> u64 \<times> u64" where
  "cache_flags MCT_UNCACHEABLE fl = (fl OR PM_COMMON_PWT OR PT_PAT, fl OR PM_COMMON_PWT OR PDXX_COMMON_PAT)"
| "cache_flags MCT_WRITE_BACK fl = (fl, fl)"
| "cache_flags MCT_WRITE_COMBINING fl = (fl OR PM_COMMON_PCD OR PT_PAT, fl OR PM_COMMON_PCD OR PDXX_COMMON_PAT)"
| "cache_flags MCT_WRITE_PROTECTED fl = (fl OR PM_COMMON_PCD, fl)"
| "cache_flags MCT_WRITE_THROUGH fl = (fl OR PT_PAT, fl OR PDXX_COMMON_PAT)"

definition mmu_map_range_linear ::
  "u64 \<Rightarrow> u64 \<Rightarrow> u64 \<Rightarrow> u64 \<Rightarrow> u64 \<Rightarrow> memory_cache_type \<Rightarrow> mmu_state \<Rightarrow> mmu_state option" where
  "mmu_map_range_linear pml4 vbase pbase sz access_flags cache_type s = do {
     kassert (pbase AND 0xfff = 0 \<and> vbase AND 0xfff = 0 \<and> sz AND 0xfff = 0);
     let off = DIFF vbase pbase;
     let limit = pbase + sz;
     let (flags_pt, flags_pdxx) = cache_flags cache_type (access_flags OR PM_COMMON_PRESENT);
     let map_4k = (\<lambda>lo. mmu_map_single_page_4k pml4 (lo + off) lo flags_pt);
     let map_2m = (\<lambda>lo. mmu_map_single_page_2m pml4 (lo + off) lo flags_pdxx);
     let map_1g = (\<lambda>lo. mmu_map_single_page_1g pml4 (lo + off) lo flags_pdxx);
     (lo1, s1) \<leftarrow> map_loop map_4k 0x1000 (min (ALIGN_UP64 pbase 0x200000) (ALIGN_DOWN64 limit 0x1000)) pbase s;
     (lo2, s2) \<leftarrow> map_loop map_2m 0x200000 (min (ALIGN_UP64 lo1 0x40000000) (ALIGN_DOWN64 limit 0x200000)) lo1 s1;
     (lo3, s3) \<leftarrow> map_loop map_1g 0x40000000 (ALIGN_DOWN64 limit 0x40000000) lo2 s2;
     (lo4, s4) \<leftarrow> map_loop map_2m 0x200000 (ALIGN_DOWN64 limit 0x200000) lo3 s3;
     (lo5, s5) \<leftarrow> map_loop map_4k 0x1000 (ALIGN_DOWN64 limit 0x1000) lo4 s4;
     Some s5
   }"

section \<open>Translation\<close>

text \<open>\<open>mmu_walk_table\<close>: the table (0 when there is none), the depth and the index into the table.\<close>

definition mmu_walk_table :: "u64 \<Rightarrow> u64 \<Rightarrow> mmu_state \<Rightarrow> u64 \<times> nat \<times> u64" where
  "mmu_walk_table pml4 va s =
     (let pdpt = attempt_walk_pagemap_single_lvl pml4 (table_index 39 va) s in
      if pdpt = 0 then (0, 0, 0)
      else if entry_at s pdpt (table_index 30 va) AND PDXX_COMMON_PS \<noteq> 0 then (pdpt, 1, table_index 30 va)
      else
        let pd = attempt_walk_pagemap_single_lvl pdpt (table_index 30 va) s in
        if pd = 0 then (0, 1, table_index 30 va)
        else if entry_at s pd (table_index 21 va) AND PDXX_COMMON_PS \<noteq> 0 then (pd, 2, table_index 21 va)
        else
          let pt = attempt_walk_pagemap_single_lvl pd (table_index 21 va) s in
          if pt = 0 then (0, 2, table_index 21 va)
          else if entry_at s pt (table_index 12 va) AND PM_COMMON_PRESENT \<noteq> 0 then (pt, 3, table_index 12 va)
          else (0, 3, table_index 12 va))"

definition virt2phys :: "u64 \<Rightarrow> mmu_state \<Rightarrow> u64 option" where
  "virt2phys virt s =
     (let (pmlx, depth, index) = mmu_walk_table (kernel_pml4 s) virt s;
          width_mask = push_bit (unat (phys_addr_width s)) 1 - 1
      in if pmlx = 0 then Some 0
         else if depth = 1 then Some ((entry_at s pmlx index AND (width_mask AND NOT 0x3fffffff)) OR (virt AND 0x3fffffff))
         else if depth = 2 then Some ((entry_at s pmlx index AND (width_mask AND NOT 0x1fffff)) OR (virt AND 0x1fffff))
         else if depth = 3 then Some ((entry_at s pmlx index AND (width_mask AND NOT 0xfff)) OR (virt AND 0xfff))
         else None)"

definition mmu_set_ctx :: "u64 \<Rightarrow> mmu_state \<Rightarrow> mmu_state" where
  "mmu_set_ctx pml4 s = s\<lparr>active_pml4 := pml4 - hhdm_off s\<rparr>"

definition mmu_unmap_single_page :: "u64 \<Rightarrow> u64 \<Rightarrow> bool \<Rightarrow> mmu_state \<Rightarrow> bool \<times> mmu_state" where
  "mmu_unmap_single_page pml4 va free_pa s = (True, s)"

definition pml4_to_pt :: "u64 \<Rightarrow> u64 \<Rightarrow> bool \<Rightarrow> mmu_state \<Rightarrow> (u64 \<times> mmu_state) option" where
  "pml4_to_pt pml4 va force s = do {
     (pdpt, s1) \<leftarrow> force_walk_pagemap_single_lvl pml4 (table_index 39 va) (PM_COMMON_PRESENT OR PM_COMMON_WRITE) s;
     (pd, s2) \<leftarrow> force_walk_pagemap_single_lvl pdpt (table_index 30 va) (PM_COMMON_PRESENT OR PM_COMMON_WRITE) s1;
     force_walk_pagemap_single_lvl pd (table_index 21 va) (PM_COMMON_PRESENT OR PM_COMMON_WRITE) s2
   }"

section \<open>The kernel page map\<close>

text \<open>What the boot loader and the linker provide: the addresses the kernel was loaded at and its
  segments. The types of memory map entries are those of the Limine boot protocol.\<close>

record kernel_image =
  virtual_base :: u64
  physical_base :: u64
  text_seg :: "u64 \<times> u64"
  rodata_seg :: "u64 \<times> u64"
  data_seg :: "u64 \<times> u64"

definition LIMINE_MEMMAP_BOOTLOADER_RECLAIMABLE :: nat where
  "LIMINE_MEMMAP_BOOTLOADER_RECLAIMABLE = 5"

definition LIMINE_MEMMAP_FRAMEBUFFER :: nat where
  "LIMINE_MEMMAP_FRAMEBUFFER = 7"

definition claim_pml4 :: "mmu_state \<Rightarrow> mmu_state option" where
  "claim_pml4 s = do {
     (a, fs) \<leftarrow> page_alloc_temp (psize2order PAGE_SIZE) (phys_frames s);
     kassert (a \<noteq> 0);
     let pml4 = of_nat a + hhdm_off s;
     Some (zero_memory pml4 (of_nat PAGE_SIZE) (s\<lparr>phys_frames := fs, kernel_pml4 := pml4\<rparr>))
   }"

definition map_early :: "(nat \<times> nat) \<Rightarrow> mmu_state \<Rightarrow> mmu_state option" where
  "map_early m s = map_option snd
     (map_loop (\<lambda>a. mmu_map_single_page_4k (kernel_pml4 s) (a + hhdm_off s) a (PM_COMMON_PRESENT OR PM_COMMON_WRITE))
        0x1000 (ALIGN_UP64 (of_nat (fst m) + of_nat (snd m)) 0x1000) (ALIGN_DOWN64 (of_nat (fst m)) 0x1000) s)"

definition map_entry :: "memmap_entry \<Rightarrow> mmu_state \<Rightarrow> mmu_state option" where
  "map_entry e s =
     (let st = of_nat (start e); l = of_nat (len e) in
      if mtype e = LIMINE_MEMMAP_USABLE
      then mmu_map_range_linear (kernel_pml4 s) (st + hhdm_off s) st l MAF_WRITE MCT_WRITE_BACK s
      else if mtype e = LIMINE_MEMMAP_FRAMEBUFFER
      then mmu_map_range_linear (kernel_pml4 s) (ALIGN_DOWN64 (st + hhdm_off s) 0x1000) (ALIGN_DOWN64 st 0x1000)
             (ALIGN_UP64 l 0x1000) (MAF_NX OR MAF_WRITE) MCT_WRITE_COMBINING s
      else if mtype e = LIMINE_MEMMAP_BOOTLOADER_RECLAIMABLE
      then mmu_map_range_linear (kernel_pml4 s) (st + hhdm_off s) st l MAF_WRITE MCT_WRITE_BACK s
      else Some s)"

definition map_segment :: "kernel_image \<Rightarrow> u64 \<times> u64 \<Rightarrow> u64 \<Rightarrow> mmu_state \<Rightarrow> mmu_state option" where
  "map_segment k seg fl s =
     mmu_map_range_linear (kernel_pml4 s) (fst seg) (fst seg - virtual_base k + physical_base k)
       (snd seg - fst seg) fl MCT_WRITE_BACK s"

fun map_all :: "('a \<Rightarrow> mmu_state \<Rightarrow> mmu_state option) \<Rightarrow> 'a list \<Rightarrow> mmu_state \<Rightarrow> mmu_state option" where
  "map_all f [] s = Some s"
| "map_all f (x # xs) s = Option.bind (f x s) (map_all f xs)"

definition init_kpm :: "kernel_image option \<Rightarrow> early_state \<Rightarrow> mmu_state \<Rightarrow> mmu_state option" where
  "init_kpm response es s = do {
     kernel_address \<leftarrow> response;
     s1 \<leftarrow> claim_pml4 s;
     s2 \<leftarrow> mmu_map_single_page_4k (kernel_pml4 s1) (ALIGN_DOWN64 (lapic_addr s1 + hhdm_off s1) 0x1000)
             (ALIGN_DOWN64 (lapic_addr s1) 0x1000) (PM_COMMON_PRESENT OR PM_COMMON_WRITE) s1;
     let s3 = s2\<lparr>lapic_addr := lapic_addr s2 + hhdm_off s2\<rparr>;
     s4 \<leftarrow> map_all map_early (early_mem_mappings es) s3;
     s5 \<leftarrow> map_all map_entry (memmap es) s4;
     s6 \<leftarrow> map_segment kernel_address (text_seg kernel_address) 0 s5;
     s7 \<leftarrow> map_segment kernel_address (rodata_seg kernel_address) MAF_NX s6;
     s8 \<leftarrow> map_segment kernel_address (data_seg kernel_address) (MAF_WRITE OR MAF_NX) s7;
     Some (mmu_set_ctx (kernel_pml4 s8) s8)
   }"

definition init_vmm :: "u32 \<Rightarrow> kernel_image option \<Rightarrow> early_state \<Rightarrow> mmu_state \<Rightarrow> mmu_state option" where
  "init_vmm eax response es s =
     init_kpm response es
       (s\<lparr>phys_addr_width := ucast (eax AND 0xFF), lin_addr_width := ucast (drop_bit 8 eax AND 0xFF)\<rparr>)"

end
