(* ===== verification/Mmu_Tables.thy ===== *)
theory Mmu_Tables
  imports Mmu
begin

text \<open>
  The tree of page tables. \<open>T\<close> labels every frame that is used as a table with its level (4 for the
  root, 1 for a page table) and with the part of a virtual address that leads to it. The
  invariant \<open>pm_ok\<close> says that every present entry leads to the table with the right label. A table
  has one label, so it is reached in one way, and writing one entry changes the translation of
  exactly the addresses below that entry.
\<close>

section \<open>Entries\<close>

definition present :: "u64 \<Rightarrow> bool" where
  "present e \<longleftrightarrow> e AND PM_COMMON_PRESENT \<noteq> 0"

definition large :: "u64 \<Rightarrow> bool" where
  "large e \<longleftrightarrow> e AND PDXX_COMMON_PS \<noteq> 0"

lemma and_bit: "n < 64 \<Longrightarrow> e AND push_bit n 1 \<noteq> 0 \<longleftrightarrow> bit e n" for e :: u64
  by (simp add: and_exp_eq_0_iff_not_bit push_bit_of_1)

lemma present_bit: "present e \<longleftrightarrow> bit e 0"
  unfolding present_def PM_COMMON_PRESENT_def by (rule and_bit) simp

lemma large_bit: "large e \<longleftrightarrow> bit e 7"
  unfolding large_def PDXX_COMMON_PS_def by (rule and_bit) simp

lemma present_0 [simp]: "\<not> present 0" "\<not> large 0"
  by (simp_all add: present_bit large_bit)

definition page_of :: "u64 \<Rightarrow> nat" where
  "page_of e = unat (e AND PML_LOWER_MASK) div 4096"

lemma mask_bit: "bit PML_LOWER_MASK n \<longleftrightarrow> 12 \<le> n \<and> n < 52"
proof -
  have "PML_LOWER_MASK = push_bit 12 (mask 40)" by (simp add: PML_LOWER_MASK_def mask_eq_exp_minus_1 push_bit_eq_mult)
  then have "bit PML_LOWER_MASK n = bit (push_bit 12 (mask 40) :: u64) n" by simp
  then show ?thesis by (auto simp: bit_simps)
qed

text \<open>The physical address of a frame.\<close>

definition faddr :: "nat \<Rightarrow> u64" where
  "faddr m = of_nat (m * 4096)"

lemma faddr_bit: "m * 4096 < 2 ^ 52 \<Longrightarrow> bit (faddr m) n \<longleftrightarrow> 12 \<le> n \<and> n < 52 \<and> bit m (n - 12)"
proof -
  assume m: "m * 4096 < 2 ^ 52"
  have hi: "k < 40" if "bit m k" for k
  proof (rule ccontr)
    assume "\<not> k < 40"
    then have "(2::nat) ^ 40 \<le> 2 ^ k" by (intro power_increasing) auto
    then have "m < 2 ^ k" using m by simp
    then show False using that by (simp add: bit_iff_odd)
  qed
  have "faddr m = of_nat (push_bit 12 m)" by (simp add: push_bit_eq_mult faddr_def)
  then have "bit (faddr m) n \<longleftrightarrow> n < 64 \<and> bit (push_bit 12 m) n" by (simp add: bit_of_nat_iff)
  then show ?thesis using hi [of "n - 12"] by (auto simp: bit_push_bit_iff_nat)
qed

lemma unat_faddr: "m * 4096 < 2 ^ 52 \<Longrightarrow> unat (faddr m) = m * 4096"
  unfolding faddr_def unat_of_nat by (rule mod_less) simp

lemma table_entry:
  assumes "m * 4096 < 2 ^ 52"
  shows "(faddr m OR (PM_COMMON_PRESENT OR PM_COMMON_WRITE)) AND PML_LOWER_MASK = faddr m" (is ?a)
    "present (faddr m OR (PM_COMMON_PRESENT OR PM_COMMON_WRITE))" (is ?b)
    "\<not> large (faddr m OR (PM_COMMON_PRESENT OR PM_COMMON_WRITE))" (is ?c)
proof -
  have "bit PM_COMMON_PRESENT n \<longleftrightarrow> n = 0" "bit PM_COMMON_WRITE n \<longleftrightarrow> n = 1" for n
    by (auto simp: PM_COMMON_PRESENT_def PM_COMMON_WRITE_def bit_simps)
  note b = faddr_bit [OF assms] mask_bit this
  show ?a by (rule bit_eqI) (auto simp: b bit_and_iff bit_or_iff)
  show ?b ?c by (auto simp: present_bit large_bit b bit_or_iff)
qed

lemma page_of_frame: "m * 4096 < 2 ^ 52 \<Longrightarrow> e AND PML_LOWER_MASK = faddr m \<Longrightarrow> page_of e = m"
  by (simp add: page_of_def unat_faddr)

section \<open>Addresses\<close>

definition npages :: "mmu_state \<Rightarrow> nat" where
  "npages s = length (pages (phys_frames s))"

definition tab :: "mmu_state \<Rightarrow> nat \<Rightarrow> u64" where
  "tab s n = faddr n + hhdm_off s"

definition ent :: "mmu_state \<Rightarrow> nat \<Rightarrow> nat \<Rightarrow> u64" where
  "ent s n i = entry_at s (tab s n) (of_nat i)"

definition layout_ok :: "mmu_state \<Rightarrow> bool" where
  "layout_ok s \<longleftrightarrow> 0 < unat (hhdm_off s) \<and> unat (hhdm_off s) + npages s * 4096 \<le> 2 ^ 64 \<and> npages s * 4096 \<le> 2 ^ 52"

lemma unat_entry:
  assumes "layout_ok s" "n < npages s" "i < 512"
  shows "unat (tab s n + 8 * of_nat i) = unat (hhdm_off s) + n * 4096 + 8 * i"
proof -
  have "n * 4096 + 4096 \<le> npages s * 4096" using assms(2) by simp
  then have b: "unat (hhdm_off s) + n * 4096 + 8 * i < 2 ^ 64" using assms by (simp add: layout_ok_def)
  have "tab s n + 8 * of_nat i = of_nat (unat (hhdm_off s) + n * 4096 + 8 * i)" by (simp add: tab_def faddr_def)
  then show ?thesis using b by (simp only: unat_of_nat) (simp add: take_bit_nat_eq_self)
qed

lemma entry_inj:
  assumes "layout_ok s" "n < npages s" "i < 512" "m < npages s" "j < 512"
  shows "tab s n + 8 * of_nat i = tab s m + 8 * of_nat j \<longleftrightarrow> n = m \<and> i = j"
proof
  assume "tab s n + 8 * of_nat i = tab s m + 8 * of_nat j"
  then have "n * 4096 + 8 * i = m * 4096 + 8 * j"
    using unat_entry [OF assms(1-3)] unat_entry [OF assms(1,4,5)] by simp
  moreover have "(n * 4096 + 8 * i) div 4096 = n" "(m * 4096 + 8 * j) div 4096 = m" using assms by simp_all
  ultimately show "n = m \<and> i = j" by (metis add_left_cancel mult_left_cancel zero_neq_numeral)
qed simp

lemma tab_nonzero: "layout_ok s \<Longrightarrow> n < npages s \<Longrightarrow> tab s n \<noteq> 0"
  using unat_entry [of s n 0] by (auto simp: layout_ok_def)

lemma set_entry_simps [simp]:
  "phys_frames (set_entry p i e s) = phys_frames s" "hhdm_off (set_entry p i e s) = hhdm_off s"
  "kernel_pml4 (set_entry p i e s) = kernel_pml4 s" "phys_addr_width (set_entry p i e s) = phys_addr_width s"
  by (simp_all add: set_entry_def)

lemma zero_memory_simps [simp]:
  "phys_frames (zero_memory a n s) = phys_frames s" "hhdm_off (zero_memory a n s) = hhdm_off s"
  "kernel_pml4 (zero_memory a n s) = kernel_pml4 s" "phys_addr_width (zero_memory a n s) = phys_addr_width s"
  by (simp_all add: zero_memory_def)

lemma ent_set:
  assumes "layout_ok s" "n < npages s" "i < 512" "m < npages s" "j < 512"
  shows "ent (set_entry (tab s n) (of_nat i) e s) m j = (if m = n \<and> j = i then e else ent s m j)"
  using entry_inj [OF assms(1,4,5,2,3)] by (auto simp: ent_def entry_at_def set_entry_def tab_def)

lemma ent_zero:
  assumes "layout_ok s" "n < npages s" "m < npages s" "j < 512"
  shows "ent (zero_memory (tab s n) 4096 s) m j = (if m = n then 0 else ent s m j)"
proof -
  let ?a = "tab s m + 8 * of_nat j"
  have n: "unat (tab s n) = unat (hhdm_off s) + n * 4096" using unat_entry [OF assms(1,2), of 0] by simp
  have a: "unat ?a = unat (hhdm_off s) + m * 4096 + 8 * j" using unat_entry [OF assms(1,3,4)] .
  have "?a - tab s n < 4096 \<longleftrightarrow> m = n"
  proof (cases "n \<le> m")
    case True
    then have "unat (?a - tab s n) = m * 4096 + 8 * j - n * 4096"
      using n a by (subst unat_sub) (auto simp: word_le_nat_alt)
    then show ?thesis using True assms(4) by (auto simp: word_less_nat_alt)
  next
    case False
    then have lt: "unat ?a < unat (tab s n)" using n a assms(4) by simp
    then have "unat (?a - tab s n) = 2 ^ 64 - (unat (tab s n) - unat ?a)"
      by (simp add: unat_sub_if' word_le_nat_alt)
    moreover have "unat (tab s n) - unat ?a \<le> n * 4096" using n a by simp
    moreover have "n * 4096 + 4096 \<le> 2 ^ 52" using assms(1,2) by (simp add: layout_ok_def)
    ultimately have "4096 \<le> unat (?a - tab s n)" by simp
    then show ?thesis using False by (auto simp: word_less_nat_alt)
  qed
  then show ?thesis by (simp add: ent_def entry_at_def zero_memory_def tab_def)
qed

section \<open>Paths\<close>

text \<open>\<open>vidx k va\<close> is the index of a virtual address into a table of level \<open>k + 1\<close>, \<open>vpre l va\<close> the part
  of the address above the reach of a table of level \<open>l\<close>.\<close>

definition vidx :: "nat \<Rightarrow> u64 \<Rightarrow> nat" where
  "vidx k va = unat va div 2 ^ (12 + 9 * k) mod 512"

definition vpre :: "nat \<Rightarrow> u64 \<Rightarrow> nat" where
  "vpre l va = unat va mod 2 ^ 48 div 2 ^ (12 + 9 * l)"

lemma vidx_less [simp]: "vidx k va < 512"
  by (simp add: vidx_def)

lemma vpre_root [simp]: "vpre 4 va = 0"
  by (simp add: vpre_def)

lemma mod_mult_div: "0 < b \<Longrightarrow> a mod (b * c) div b = a div b mod c" for a b c :: nat
  by (simp add: mod_mult2_eq)

lemma vpre_step:
  assumes "k < 4"
  shows "vpre k va = vpre (Suc k) va * 512 + vidx k va"
proof -
  have idx: "vidx k va = unat va mod 2 ^ 48 div 2 ^ (12 + 9 * k) mod 512"
  proof -
    have "(2::nat) ^ 48 = 2 ^ (12 + 9 * k) * (512 * 2 ^ (9 * (3 - k)))"
    proof -
      have "48 = (12 + 9 * k) + (9 + 9 * (3 - k))" using assms by simp
      then have "(2::nat) ^ 48 = 2 ^ (12 + 9 * k) * 2 ^ (9 + 9 * (3 - k))" by (metis power_add)
      then show ?thesis by (simp add: power_add)
    qed
    then have "unat va mod 2 ^ 48 div 2 ^ (12 + 9 * k) = unat va div 2 ^ (12 + 9 * k) mod (512 * 2 ^ (9 * (3 - k)))"
      by (simp only: mod_mult_div zero_less_power zero_less_numeral)
    then show ?thesis by (simp add: vidx_def mod_mod_cancel)
  qed
  have "(2::nat) ^ (12 + 9 * Suc k) = 2 ^ (12 + 9 * k) * 512" by (simp add: power_add)
  then have "vpre (Suc k) va = unat va mod 2 ^ 48 div 2 ^ (12 + 9 * k) div 512"
    unfolding vpre_def by (simp only: div_mult2_eq)
  then show ?thesis unfolding idx vpre_def by simp
qed

lemma table_index_vidx: "k < 4 \<Longrightarrow> table_index (12 + 9 * k) va = of_nat (vidx k va)"
proof -
  assume k: "k < 4"
  have m: "0x1ff = (mask 9 :: u64)" by (simp add: mask_eq_exp_minus_1)
  have "table_index (12 + 9 * k) va = take_bit 9 (drop_bit (12 + 9 * k) va)"
    unfolding table_index_def m
    by (rule bit_eqI) (use k in \<open>auto simp: bit_simps\<close>)
  moreover have "take_bit 64 (unat va) = unat va"
    by (rule take_bit_nat_eq_self) (use unsigned_less [of va] in simp)
  ultimately have "unat (table_index (12 + 9 * k) va) = take_bit 9 (drop_bit (12 + 9 * k) (unat va))"
    by (simp add: unsigned_take_bit_eq unsigned_drop_bit_eq)
  also have "\<dots> = vidx k va" by (simp add: vidx_def take_bit_eq_mod drop_bit_eq_div)
  finally show ?thesis by (metis of_nat_unat ucast_id)
qed

lemmas table_indices = table_index_vidx [of 3, simplified] table_index_vidx [of 2, simplified]
  table_index_vidx [of 1, simplified, folded One_nat_def] table_index_vidx [of 0, simplified]

section \<open>The invariant\<close>

type_synonym labels = "nat \<Rightarrow> (nat \<times> nat) option"

definition pm_ok :: "mmu_state \<Rightarrow> labels \<Rightarrow> nat set \<Rightarrow> bool" where
  "pm_ok s T A \<longleftrightarrow> layout_ok s \<and> frames_ok (phys_frames s) A \<and> dom T \<inter> A = {} \<and> (\<forall>n \<in> dom T. n < npages s) \<and>
     (\<forall>n l p i. T n = Some (l, p) \<longrightarrow> 1 < l \<longrightarrow> i < 512 \<longrightarrow> present (ent s n i) \<longrightarrow> l = 4 \<or> \<not> large (ent s n i) \<longrightarrow>
        (\<exists>m. ent s n i AND PML_LOWER_MASK = faddr m \<and> T m = Some (l - 1, p * 512 + i)))"

text \<open>The walk over frames, from a table of level \<open>l\<close>.\<close>

fun awalk :: "mmu_state \<Rightarrow> nat \<Rightarrow> nat \<Rightarrow> u64 \<Rightarrow> (nat \<times> u64) option" where
  "awalk s n 0 va = None"
| "awalk s n (Suc k) va =
     (let e = ent s n (vidx k va) in
      if k = 0 then if present e then Some (3, e) else None
      else if k < 3 \<and> large e then Some (3 - k, e)
      else if present e then awalk s (page_of e) k va else None)"

declare awalk.simps [simp del]

text \<open>What \<open>mmu_walk_table\<close> finds for an address: the depth and the entry.\<close>

definition leaf :: "mmu_state \<Rightarrow> u64 \<Rightarrow> u64 \<Rightarrow> (nat \<times> u64) option" where
  "leaf s pml4 va =
     (let (t, d, i) = mmu_walk_table pml4 va s in if t = 0 then None else Some (d, entry_at s t i))"

lemma frame_bound: "layout_ok s \<Longrightarrow> n < npages s \<Longrightarrow> n * 4096 < 2 ^ 52"
  unfolding layout_ok_def by linarith

lemma pm_okD:
  assumes "pm_ok s T A" "T n = Some (l, p)" "1 < l" "i < 512" "present (ent s n i)" "l = 4 \<or> \<not> large (ent s n i)"
  shows "T (page_of (ent s n i)) = Some (l - 1, p * 512 + i)" "page_of (ent s n i) < npages s"
    "(ent s n i AND PML_LOWER_MASK) + hhdm_off s = tab s (page_of (ent s n i))" "tab s (page_of (ent s n i)) \<noteq> 0"
proof -
  obtain m where m: "ent s n i AND PML_LOWER_MASK = faddr m" "T m = Some (l - 1, p * 512 + i)"
    using assms unfolding pm_ok_def by blast
  have "m < npages s" and lay: "layout_ok s" using assms(1) m(2) by (auto simp: pm_ok_def)
  moreover from this have pg: "page_of (ent s n i) = m" using m(1) page_of_frame frame_bound by blast
  ultimately show "T (page_of (ent s n i)) = Some (l - 1, p * 512 + i)" "page_of (ent s n i) < npages s"
    "(ent s n i AND PML_LOWER_MASK) + hhdm_off s = tab s (page_of (ent s n i))" "tab s (page_of (ent s n i)) \<noteq> 0"
    unfolding pg using m tab_nonzero by (simp_all add: tab_def)
qed

lemma attempt_walk_ent:
  assumes "pm_ok s T A" "T n = Some (l, p)" "1 < l" "i < 512" "l = 4 \<or> \<not> large (ent s n i)"
  shows "attempt_walk_pagemap_single_lvl (tab s n) (of_nat i) s =
    (if present (ent s n i) then tab s (page_of (ent s n i)) else 0)"
  using pm_okD(3) [OF assms(1-4) _ assms(5)]
  by (simp add: attempt_walk_pagemap_single_lvl_def present_def ent_def)

lemma awalk_levels:
  "awalk s n 4 va = (if present (ent s n (vidx 3 va)) then awalk s (page_of (ent s n (vidx 3 va))) 3 va else None)"
  "awalk s n 3 va = (if large (ent s n (vidx 2 va)) then Some (1, ent s n (vidx 2 va))
     else if present (ent s n (vidx 2 va)) then awalk s (page_of (ent s n (vidx 2 va))) 2 va else None)"
  "awalk s n 2 va = (if large (ent s n (vidx 1 va)) then Some (2, ent s n (vidx 1 va))
     else if present (ent s n (vidx 1 va)) then awalk s (page_of (ent s n (vidx 1 va))) 1 va else None)"
  "awalk s n 1 va = (if present (ent s n (vidx 0 va)) then Some (3, ent s n (vidx 0 va)) else None)"
  using awalk.simps(2) [of s n 3 va] awalk.simps(2) [of s n 2 va] awalk.simps(2) [of s n 1 va] awalk.simps(2) [of s n 0 va, folded One_nat_def]
  by (simp_all add: Let_def del: One_nat_def)

lemma entry_folds:
  "entry_at s (tab s n) (of_nat i) = ent s n i"
  "e AND PDXX_COMMON_PS = 0 \<longleftrightarrow> \<not> large e" "e AND PM_COMMON_PRESENT = 0 \<longleftrightarrow> \<not> present e"
  by (simp_all add: ent_def large_def present_def)

lemma leaf_awalk:
  assumes ok: "pm_ok s T A" and root: "T r = Some (4, 0)"
  shows "leaf s (tab s r) va = awalk s r 4 va"
proof -
  note aw = attempt_walk_ent [OF ok] and D = pm_okD [OF ok]
  note unf = leaf_def mmu_walk_table_def table_indices Let_def awalk_levels entry_folds
  let ?e4 = "ent s r (vidx 3 va)"
  define n3 where "n3 = page_of ?e4"
  let ?e3 = "ent s n3 (vidx 2 va)"
  define n2 where "n2 = page_of ?e3"
  let ?e2 = "ent s n2 (vidx 1 va)"
  define n1 where "n1 = page_of ?e2"
  show ?thesis
  proof (cases "present ?e4")
    case p4: True
    have n3: "T n3 = Some (3, vidx 3 va)" "tab s n3 \<noteq> 0"
      "attempt_walk_pagemap_single_lvl (tab s r) (of_nat (vidx 3 va)) s = tab s n3"
      using D [OF root _ _ p4] aw [OF root] p4 by (simp_all add: n3_def)
    note unf3 = unf n3_def [symmetric]
    show ?thesis
    proof (cases "\<not> large ?e3 \<and> present ?e3")
      case p3: True
      have n2: "T n2 = Some (2, vidx 3 va * 512 + vidx 2 va)" "tab s n2 \<noteq> 0"
        "attempt_walk_pagemap_single_lvl (tab s n3) (of_nat (vidx 2 va)) s = tab s n2"
        using D [OF n3(1)] aw [OF n3(1)] p3 by (simp_all add: n2_def)
      note unf2 = unf3 n2_def [symmetric]
      show ?thesis
      proof (cases "\<not> large ?e2 \<and> present ?e2")
        case p2: True
        have n1: "tab s n1 \<noteq> 0" "attempt_walk_pagemap_single_lvl (tab s n2) (of_nat (vidx 1 va)) s = tab s n1"
          using D [OF n2(1)] aw [OF n2(1)] p2 by (simp_all add: n1_def del: One_nat_def)
        show ?thesis using n1 n2 n3 p4 p3 p2 by (simp add: unf2 n1_def [symmetric] del: One_nat_def)
      next
        case False
        then show ?thesis using n2 n3 p4 p3 aw [OF n2(1), of "vidx 1 va"] by (cases "large ?e2") (simp_all add: unf2 del: One_nat_def)
      qed
    next
      case False
      then show ?thesis using n3 p4 aw [OF n3(1), of "vidx 2 va"] by (cases "large ?e3") (simp_all add: unf3 del: One_nat_def)
    qed
  next
    case False
    then show ?thesis using aw [OF root, of "vidx 3 va"] by (simp add: unf del: One_nat_def)
  qed
qed

section \<open>Adding tables\<close>

lemma frames_alloc_one:
  assumes "frames_ok fs A" "A \<noteq> {}"
  shows "\<exists>m fs'. page_alloc 0 fs = Some (Ref m, fs') \<and> m \<in> A \<and> frames_ok fs' (A - {m}) \<and> length (pages fs') = length (pages fs) \<and>
    m < length (pages fs)"
proof -
  obtain F where F: "buddy_rel fs F" "free_set F = A" using assms(1) by (auto simp: frames_ok_def)
  obtain k where "k \<le> BUDDY_HIGH_ORDER" "F k \<noteq> []" using F(2) assms(2) by (fastforce simp: free_set_def)
  then have sa: "spec_alloc 0 F \<noteq> None" by (auto simp: spec_alloc_None)
  then obtain q F' where "spec_alloc 0 F = Some (q, F')" by auto
  from buddy_alloc_refines [OF F(1) this] obtain s' where "buddy_alloc 0 fs = Some (Ref q, s')" by auto
  with frames.alloc_RefD [OF assms(1) this] show ?thesis by (auto simp: page_alloc_def blk_def)
qed

lemma push_bit_page: "of_nat (push_bit PAGE_SHIFT m) = faddr m"
  by (simp add: faddr_def PAGE_SHIFT_def push_bit_eq_mult)

lemma force_walk_new:
  assumes ok: "pm_ok s T A" and free: "A \<noteq> {}" and n: "T n = Some (l, p)" and i: "i < 512" and new: "\<not> present (ent s n i)"
  obtains m s' where "force_walk_pagemap_single_lvl (tab s n) (of_nat i) (PM_COMMON_PRESENT OR PM_COMMON_WRITE) s = Some (tab s m, s')"
    "m \<in> A" "m < npages s" "frames_ok (phys_frames s') (A - {m})" "npages s' = npages s" "hhdm_off s' = hhdm_off s"
    "kernel_pml4 s' = kernel_pml4 s" "phys_addr_width s' = phys_addr_width s"
    "\<And>n' j. n' < npages s \<Longrightarrow> j < 512 \<Longrightarrow> ent s' n' j =
       (if n' = n \<and> j = i then faddr m OR (PM_COMMON_PRESENT OR PM_COMMON_WRITE) else if n' = m then 0 else ent s n' j)"
proof -
  have lay: "layout_ok s" and nb: "n < npages s" and fr: "frames_ok (phys_frames s) A" using ok n by (auto simp: pm_ok_def)
  obtain m fs where m: "page_alloc 0 (phys_frames s) = Some (Ref m, fs)" "m \<in> A" "frames_ok fs (A - {m})"
    "length (pages fs) = npages s" "m < npages s"
    using frames_alloc_one [OF fr free] by (auto simp: npages_def)
  define s0 where "s0 = s\<lparr>phys_frames := fs\<rparr>"
  define s1 where "s1 = zero_memory (tab s m) 4096 s0"
  define s' where "s' = set_entry (tab s n) (of_nat i) (faddr m OR (PM_COMMON_PRESENT OR PM_COMMON_WRITE)) s1"
  have sz: "faddr (order2size 0) = 4096" by (simp add: faddr_def order2size_def)
  have "page_calloc 0 s = Some (Ref m, s1)"
    using m by (simp add: page_calloc_def page2phys_def page2idx_def push_bit_page tab_def s1_def s0_def sz)
  moreover have "\<not> entry_at s (tab s n) (of_nat i) AND PM_COMMON_PRESENT \<noteq> 0" using new by (simp add: present_def ent_def)
  ultimately have run: "force_walk_pagemap_single_lvl (tab s n) (of_nat i) (PM_COMMON_PRESENT OR PM_COMMON_WRITE) s = Some (tab s m, s')"
    using m by (simp add: force_walk_pagemap_single_lvl_def page2phys_def page2idx_def push_bit_page s'_def s1_def s0_def tab_def Let_def)
  have np: "npages s0 = npages s" "npages s1 = npages s" using m by (simp_all add: npages_def s0_def s1_def)
  have lay01: "layout_ok s0" "layout_ok s1" using lay np by (simp_all add: layout_ok_def s0_def s1_def)
  have tab01: "tab s0 = tab s" "tab s1 = tab s" by (simp_all add: tab_def s0_def s1_def fun_eq_iff)
  have "ent s' n' j = (if n' = n \<and> j = i then faddr m OR (PM_COMMON_PRESENT OR PM_COMMON_WRITE) else if n' = m then 0 else ent s n' j)"
    if "n' < npages s" "j < 512" for n' j
  proof -
    have "ent s0 n' j = ent s n' j" by (simp add: ent_def entry_at_def s0_def tab_def)
    then have "ent s1 n' j = (if n' = m then 0 else ent s n' j)"
      using ent_zero [OF lay01(1), of m n' j] that m(5) by (simp add: s1_def np tab01)
    then show ?thesis
      using ent_set [OF lay01(2), of n i n' j] that nb i unfolding s'_def np tab01 by presburger
  qed
  then show ?thesis using run m by (intro that [of m s']) (simp_all add: s'_def s1_def s0_def npages_def)
qed

text \<open>The addresses below an entry that was not present are not mapped before or after.\<close>

lemma awalk_new_table:
  assumes ok: "pm_ok s T A" and n: "T n = Some (l, p)" "1 < l" "l \<le> 4"
    and old: "\<not> present (ent s n i)" "l = 4 \<or> \<not> large (ent s n i)" and m: "m \<notin> dom T" "m < npages s" "m * 4096 < 2 ^ 52"
    and ent': "\<And>n' j. n' < npages s \<Longrightarrow> j < 512 \<Longrightarrow> ent s' n' j =
       (if n' = n \<and> j = i then faddr m OR (PM_COMMON_PRESENT OR PM_COMMON_WRITE) else if n' = m then 0 else ent s n' j)"
  shows "T n' = Some (l', p') \<Longrightarrow> l' \<le> 4 \<Longrightarrow> awalk s' n' l' va = awalk s n' l' va"
proof (induction l' arbitrary: n' p')
  case (Suc k)
  have nb: "n < npages s" "n' < npages s" and ne: "n \<noteq> m" "n' \<noteq> m"
    using ok n(1) Suc.prems(1) m(1) by (auto simp: pm_ok_def)
  show ?case
  proof (cases "n' = n \<and> vidx k va = i")
    case True
    then have l: "l = Suc k" using n(1) Suc.prems(1) by simp
    obtain k' where k': "k = Suc k'" using l n(2) by (cases k) auto
    have e': "ent s' n i = faddr m OR (PM_COMMON_PRESENT OR PM_COMMON_WRITE)" using ent' nb True vidx_less by (metis (full_types))
    have z: "ent s' m (vidx k' va) = 0" using ent' [OF m(2), of "vidx k' va"] ne(1) by auto
    have "page_of (ent s' n i) = m" unfolding e' using table_entry(1) [OF m(3)] m(3) page_of_frame by blast
    moreover have "present (ent s' n i)" "\<not> large (ent s' n i)" unfolding e' using table_entry [OF m(3)] by simp_all
    moreover have "awalk s' m k va = None" using z k' by (simp add: awalk.simps)
    ultimately have "awalk s' n' (Suc k) va = None" using True by (simp add: awalk.simps k')
    moreover have "\<not> (k < 3 \<and> large (ent s n i))" using old(2) l by auto
    then have "awalk s n' (Suc k) va = None" using True old(1) k' by (auto simp: awalk.simps Let_def)
    ultimately show ?thesis by simp
  next
    case False
    let ?e = "ent s n' (vidx k va)"
    have e: "ent s' n' (vidx k va) = ?e" using ent' [OF nb(2) vidx_less] False ne(2) by auto
    have "awalk s' (page_of ?e) k va = awalk s (page_of ?e) k va" if "k \<noteq> 0" "\<not> (k < 3 \<and> large ?e)" "present ?e"
    proof -
      have "Suc k = 4 \<or> \<not> large ?e" using that Suc.prems(2) by auto
      then show ?thesis using Suc.IH pm_okD(1) [OF ok Suc.prems(1) _ vidx_less that(3)] that(1) Suc.prems(2) by simp
    qed
    then show ?thesis by (simp add: awalk.simps Let_def e)
  qed
qed (simp add: awalk.simps)

text \<open>What one operation keeps: the parameters of the machine and the labels of the tables; it may take
  up to \<open>c\<close> free frames for new tables.\<close>

definition grows :: "nat \<Rightarrow> mmu_state \<Rightarrow> labels \<Rightarrow> nat set \<Rightarrow> mmu_state \<Rightarrow> labels \<Rightarrow> nat set \<Rightarrow> bool" where
  "grows c s T A s' T' A' \<longleftrightarrow> hhdm_off s' = hhdm_off s \<and> kernel_pml4 s' = kernel_pml4 s \<and>
     phys_addr_width s' = phys_addr_width s \<and> npages s' = npages s \<and> T \<subseteq>\<^sub>m T' \<and> A' \<subseteq> A \<and> card A \<le> card A' + c"

lemma grows_refl [simp]: "grows 0 s T A s T A"
  by (simp add: grows_def)

lemma grows_trans: "grows c s T A s1 T1 A1 \<Longrightarrow> grows d s1 T1 A1 s2 T2 A2 \<Longrightarrow> grows (c + d) s T A s2 T2 A2"
  unfolding grows_def by (auto intro: map_le_trans)

lemma grows_mono: "grows c s T A s' T' A' \<Longrightarrow> c \<le> d \<Longrightarrow> grows d s T A s' T' A'"
  by (auto simp: grows_def)

lemma grows_tab: "grows c s T A s' T' A' \<Longrightarrow> tab s' = tab s"
  by (simp add: grows_def tab_def fun_eq_iff)

lemma grows_label: "grows c s T A s' T' A' \<Longrightarrow> T n = Some x \<Longrightarrow> T' n = Some x"
  unfolding grows_def map_le_def by (metis domI)

lemma force_walk_ok:
  assumes ok: "pm_ok s T A" and free: "A \<noteq> {}" and n: "T n = Some (l, p)" "1 < l" "l \<le> 4" and i: "i < 512"
    and old: "l = 4 \<or> \<not> large (ent s n i)"
  obtains m s' T' A' where
    "force_walk_pagemap_single_lvl (tab s n) (of_nat i) (PM_COMMON_PRESENT OR PM_COMMON_WRITE) s = Some (tab s m, s')"
    "pm_ok s' T' A'" "grows 1 s T A s' T' A'" "T' m = Some (l - 1, p * 512 + i)"
    "present (ent s' n i)" "l = 4 \<or> \<not> large (ent s' n i)" "page_of (ent s' n i) = m"
    "\<forall>n' j. n' \<in> dom T \<longrightarrow> j < 512 \<longrightarrow> (n', j) \<noteq> (n, i) \<longrightarrow> ent s' n' j = ent s n' j"
    "\<forall>n' l' p' va. T n' = Some (l', p') \<longrightarrow> l' \<le> 4 \<longrightarrow> awalk s' n' l' va = awalk s n' l' va"
proof (cases "present (ent s n i)")
  case True
  then have "force_walk_pagemap_single_lvl (tab s n) (of_nat i) (PM_COMMON_PRESENT OR PM_COMMON_WRITE) s =
      Some (tab s (page_of (ent s n i)), s)"
    using pm_okD(3) [OF ok n(1,2) i True old] by (simp add: force_walk_pagemap_single_lvl_def present_def ent_def)
  then show ?thesis
    using pm_okD(1) [OF ok n(1,2) i True old] True old ok
    by (intro that [of "page_of (ent s n i)" s T A]) (auto intro: grows_mono [OF grows_refl])
next
  case new: False
  obtain m s' where run: "force_walk_pagemap_single_lvl (tab s n) (of_nat i) (PM_COMMON_PRESENT OR PM_COMMON_WRITE) s = Some (tab s m, s')"
    and m: "m \<in> A" "m < npages s" and fr: "frames_ok (phys_frames s') (A - {m})"
    and par: "npages s' = npages s" "hhdm_off s' = hhdm_off s" "kernel_pml4 s' = kernel_pml4 s" "phys_addr_width s' = phys_addr_width s"
    and ent': "\<And>n' j. n' < npages s \<Longrightarrow> j < 512 \<Longrightarrow> ent s' n' j =
       (if n' = n \<and> j = i then faddr m OR (PM_COMMON_PRESENT OR PM_COMMON_WRITE) else if n' = m then 0 else ent s n' j)"
    using force_walk_new [OF ok free n(1) i new] by blast
  define T' where "T' = T(m \<mapsto> (l - 1, p * 512 + i))"
  have lay: "layout_ok s" and dT: "n' < npages s" "n' \<noteq> m" if "n' \<in> dom T" for n' using ok that m by (auto simp: pm_ok_def)
  have lay: "layout_ok s" and mT: "m \<notin> dom T" using ok m by (auto simp: pm_ok_def)
  have mb: "m * 4096 < 2 ^ 52" using frame_bound [OF lay m(2)] .
  note te = table_entry [OF mb]
  have eni: "ent s' n i = faddr m OR (PM_COMMON_PRESENT OR PM_COMMON_WRITE)" using ent' [of n i] dT [of n] n(1) i by auto
  have other: "ent s' n' j = ent s n' j" if "n' \<in> dom T" "j < 512" "(n', j) \<noteq> (n, i)" for n' j
    using ent' [of n' j] dT [OF that(1)] that by auto
  have "pm_ok s' T' (A - {m})"
    unfolding pm_ok_def
  proof (intro conjI allI impI ballI)
    show "layout_ok s'" using lay par by (simp add: layout_ok_def)
    show "dom T' \<inter> (A - {m}) = {}" using ok by (auto simp: pm_ok_def T'_def)
    show "n' < npages s'" if "n' \<in> dom T'" for n' using that dT m(2) par(1) by (cases "n' = m") (auto simp: T'_def)
    fix n' l' p' j assume h: "T' n' = Some (l', p')" "1 < l'" "j < 512" "present (ent s' n' j)" "l' = 4 \<or> \<not> large (ent s' n' j)"
    show "\<exists>m'. ent s' n' j AND PML_LOWER_MASK = faddr m' \<and> T' m' = Some (l' - 1, p' * 512 + j)"
    proof (cases "n' = m")
      case True
      then have "ent s' n' j = 0" using ent' [OF m(2) h(3)] dT(2) [of n] n(1) by auto
      then show ?thesis using h(4) by simp
    next
      case False
      then have T: "T n' = Some (l', p')" using h(1) by (simp add: T'_def)
      show ?thesis
      proof (cases "(n', j) = (n, i)")
        case True
        then show ?thesis using T n(1) te(1) eni by (auto simp: T'_def)
      next
        case False
        then have "ent s' n' j = ent s n' j" using other T h(3) by auto
        then obtain m' where "ent s' n' j AND PML_LOWER_MASK = faddr m'" "T m' = Some (l' - 1, p' * 512 + j)"
          using ok T h unfolding pm_ok_def by metis
        then show ?thesis using mT by (intro exI [of _ m']) (auto simp: T'_def)
      qed
    qed
  qed (use fr in simp)
  moreover have "grows 1 s T A s' T' (A - {m})"
    using par mT m(1) by (auto simp: grows_def T'_def map_le_def card_Diff_singleton_if)
  ultimately show ?thesis
    using run te other awalk_new_table [OF ok n new old mT m(2) mb ent'] page_of_frame [OF mb te(1)]
    by (intro that [of m s' T' "A - {m}"]) (simp_all add: eni T'_def)
qed

section \<open>Writing an entry\<close>

lemma vpre_eq_step: "k < 4 \<Longrightarrow> vpre k va = vpre k va' \<longleftrightarrow> vpre (Suc k) va = vpre (Suc k) va' \<and> vidx k va = vidx k va'"
proof -
  assume k: "k < 4"
  have "vpre k va div 512 = vpre (Suc k) va" "vpre k va mod 512 = vidx k va" for va
    using vpre_step [OF k, of va] by simp_all
  then show ?thesis using vpre_step [OF k] by metis
qed

lemma write_leaf:
  assumes ok: "pm_ok s T A" and n: "T n = Some (l, p)" "l \<noteq> 4" and i: "i < 512" and e: "l = 1 \<or> large e"
  shows "pm_ok (set_entry (tab s n) (of_nat i) e s) T A" (is "pm_ok ?s T A")
    and "grows 0 s T A (set_entry (tab s n) (of_nat i) e s) T A"
    and "\<And>n' j. n' \<in> dom T \<Longrightarrow> j < 512 \<Longrightarrow>
           ent (set_entry (tab s n) (of_nat i) e s) n' j = (if n' = n \<and> j = i then e else ent s n' j)"
    and "\<And>n' l' va. T n' = Some (l', vpre l' va) \<Longrightarrow> l' \<le> 4 \<Longrightarrow> l = 0 \<or> \<not> (vpre l va = p \<and> vidx (l - 1) va = i) \<Longrightarrow>
           awalk (set_entry (tab s n) (of_nat i) e s) n' l' va = awalk s n' l' va"
proof -
  have lay: "layout_ok s" and dT: "n' < npages s" if "n' \<in> dom T" for n' using ok that by (auto simp: pm_ok_def)
  have lay: "layout_ok s" using ok by (simp add: pm_ok_def)
  have np: "npages ?s = npages s" by (simp add: npages_def)
  show g: "grows 0 s T A ?s T A" by (simp add: grows_def np)
  show ent': "ent ?s n' j = (if n' = n \<and> j = i then e else ent s n' j)" if "n' \<in> dom T" "j < 512" for n' j
  proof -
    have "n < npages s" using dT n(1) by blast
    from ent_set [OF lay this i dT [OF that(1)] that(2)] show ?thesis .
  qed
  show "pm_ok ?s T A"
    unfolding pm_ok_def
  proof (intro conjI allI impI)
    fix n' l' p' j assume h: "T n' = Some (l', p')" "1 < l'" "j < 512" "present (ent ?s n' j)" "l' = 4 \<or> \<not> large (ent ?s n' j)"
    have d: "n' \<in> dom T" using h(1) by blast
    have "\<not> (n' = n \<and> j = i)" using h(1,2,5) n e ent' [OF d h(3)] by auto
    then have "ent ?s n' j = ent s n' j" using ent' [OF d h(3)] by auto
    then show "\<exists>m. ent ?s n' j AND PML_LOWER_MASK = faddr m \<and> T m = Some (l' - 1, p' * 512 + j)"
      using ok h unfolding pm_ok_def by metis
  qed (use ok np in \<open>auto simp: pm_ok_def layout_ok_def\<close>)
  show "awalk ?s n' l' va = awalk s n' l' va"
    if "T n' = Some (l', vpre l' va)" "l' \<le> 4" "l = 0 \<or> \<not> (vpre l va = p \<and> vidx (l - 1) va = i)" for n' l' va
    using that(1,2)
  proof (induction l' arbitrary: n')
    case (Suc k)
    let ?e = "ent s n' (vidx k va)"
    have "\<not> (n' = n \<and> vidx k va = i)" using that(3) Suc.prems(1) n(1) by auto
    then have e': "ent ?s n' (vidx k va) = ?e" using ent' [of n' "vidx k va"] domI [of T n'] Suc.prems(1) by auto
    have "awalk ?s (page_of ?e) k va = awalk s (page_of ?e) k va" if "k \<noteq> 0" "\<not> (k < 3 \<and> large ?e)" "present ?e"
    proof -
      have "Suc k = 4 \<or> \<not> large ?e" using that Suc.prems(2) by auto
      then have "T (page_of ?e) = Some (k, vpre (Suc k) va * 512 + vidx k va)"
        using pm_okD(1) [OF ok Suc.prems(1) _ vidx_less that(3)] that(1) by simp
      then show ?thesis using Suc.IH vpre_step [of k va] Suc.prems(2) by simp
    qed
    then show ?case by (simp add: awalk.simps Let_def e')
  qed (simp add: awalk.simps)
qed

end
