(* ===== verification/Mmu_Map.thy ===== *)
theory Mmu_Map
  imports Mmu_Tables
begin

text \<open>
  Mapping single pages and ranges. Each mapping operation refines an update of the function \<open>leaf\<close>,
  which gives what a table walk finds for every virtual address: the operation sets it on the
  addresses of the new page and nowhere else.
\<close>

section \<open>Descending one level\<close>

text \<open>The step from table \<open>n\<close> through entry \<open>i\<close> to table \<open>m\<close>: no translation changes.\<close>

definition descends ::
  "nat \<Rightarrow> nat \<Rightarrow> mmu_state \<Rightarrow> labels \<Rightarrow> nat set \<Rightarrow> nat \<Rightarrow> mmu_state \<Rightarrow> labels \<Rightarrow> nat set \<Rightarrow> bool" where
  "descends n i s T A m s' T' A' \<longleftrightarrow> pm_ok s' T' A' \<and> grows 1 s T A s' T' A' \<and>
     present (ent s' n i) \<and> page_of (ent s' n i) = m \<and>
     (\<forall>n' j. n' \<in> dom T \<longrightarrow> j < 512 \<longrightarrow> (n', j) \<noteq> (n, i) \<longrightarrow> ent s' n' j = ent s n' j) \<and>
     (\<forall>n' l' p' va. T n' = Some (l', p') \<longrightarrow> l' \<le> 4 \<longrightarrow> awalk s' n' l' va = awalk s n' l' va)"

lemma force_walk_down:
  assumes "pm_ok s T A" "1 \<le> card A" "T n = Some (Suc k, vpre (Suc k) va)" "0 < k" "k \<le> 3"
    and "k = 3 \<or> \<not> large (ent s n (vidx k va))"
  shows "\<exists>m s' T' A'.
    force_walk_pagemap_single_lvl (tab s n) (of_nat (vidx k va)) (PM_COMMON_PRESENT OR PM_COMMON_WRITE) s = Some (tab s m, s') \<and>
    descends n (vidx k va) s T A m s' T' A' \<and> T' m = Some (k, vpre k va) \<and> (k = 3 \<or> \<not> large (ent s' n (vidx k va)))"
proof -
  have "A \<noteq> {}" "1 < Suc k" "Suc k \<le> 4" "Suc k = 4 \<or> \<not> large (ent s n (vidx k va))" using assms by auto
  note fw = force_walk_ok [OF assms(1) this(1) assms(3) this(2,3) vidx_less this(4)]
  have p: "vpre (Suc k) va * 512 + vidx k va = vpre k va" using vpre_step [of k va] assms(5) by simp
  obtain m s' T' A' where
    "force_walk_pagemap_single_lvl (tab s n) (of_nat (vidx k va)) (PM_COMMON_PRESENT OR PM_COMMON_WRITE) s = Some (tab s m, s')"
    "pm_ok s' T' A'" "grows 1 s T A s' T' A'" "T' m = Some (Suc k - 1, vpre (Suc k) va * 512 + vidx k va)"
    "present (ent s' n (vidx k va))" "Suc k = 4 \<or> \<not> large (ent s' n (vidx k va))" "page_of (ent s' n (vidx k va)) = m"
    "\<forall>n' j. n' \<in> dom T \<longrightarrow> j < 512 \<longrightarrow> (n', j) \<noteq> (n, vidx k va) \<longrightarrow> ent s' n' j = ent s n' j"
    "\<forall>n' l' p' va. T n' = Some (l', p') \<longrightarrow> l' \<le> 4 \<longrightarrow> awalk s' n' l' va = awalk s n' l' va"
    by (rule fw)
  then show ?thesis unfolding p descends_def by (intro exI [of _ m] exI [of _ s'] exI [of _ T'] exI [of _ A']) simp
qed

section \<open>Paths through the tables\<close>

text \<open>The walk for \<open>va\<close> leads from table \<open>a\<close> of level \<open>la\<close> to table \<open>n\<close> of level \<open>l\<close>.\<close>

fun reach :: "mmu_state \<Rightarrow> nat \<Rightarrow> nat \<Rightarrow> u64 \<Rightarrow> nat \<Rightarrow> nat \<Rightarrow> bool" where
  "reach s a 0 va n l \<longleftrightarrow> False"
| "reach s a (Suc k) va n l \<longleftrightarrow>
     Suc k = l \<and> a = n \<or>
     l \<le> k \<and> present (ent s a (vidx k va)) \<and> (k = 3 \<or> \<not> large (ent s a (vidx k va))) \<and>
       reach s (page_of (ent s a (vidx k va))) k va n l"

lemma reach_level: "reach s a la va n l \<Longrightarrow> l \<le> la \<and> 0 < l"
proof (induction la arbitrary: a)
  case (Suc k)
  then show ?case by fastforce
qed simp

lemma reach_awalk:
  assumes "reach s a la va n l" "la \<le> 4"
  shows "awalk s a la va = awalk s n l va"
  using assms
proof (induction la arbitrary: a)
  case (Suc k)
  show ?case
  proof (cases "Suc k = l \<and> a = n")
    case False
    let ?e = "ent s a (vidx k va)"
    have h: "l \<le> k" "present ?e" "k = 3 \<or> \<not> large ?e" "reach s (page_of ?e) k va n l" using Suc.prems(1) False by auto
    have "0 < k" using reach_level [OF h(4)] by simp
    then have "awalk s a (Suc k) va = awalk s (page_of ?e) k va" using h(2,3) by (auto simp: awalk.simps Let_def)
    then show ?thesis using Suc.IH [OF h(4)] Suc.prems(2) by simp
  qed simp
qed simp

lemma reach_prefix:
  assumes "reach s a la va n l" "vpre l va' = vpre l va" "la \<le> 4"
  shows "reach s a la va' n l"
  using assms
proof (induction la arbitrary: a)
  case (Suc k)
  show ?case
  proof (cases "Suc k = l \<and> a = n")
    case False
    let ?e = "ent s a (vidx k va)"
    have h: "l \<le> k" "present ?e" "k = 3 \<or> \<not> large ?e" "reach s (page_of ?e) k va n l" using Suc.prems(1) False by auto
    have "vpre j va' = vpre j va" if "l \<le> j" "j \<le> 4" for j
      using that
    proof (induction j rule: dec_induct)
      case (step j)
      then show ?case using vpre_eq_step [of j va' va] by simp
    qed (use Suc.prems(2) in simp)
    then have "vpre k va' = vpre k va" using h(1) Suc.prems(3) by simp
    then have "vidx k va' = vidx k va" using vpre_eq_step [of k va' va] Suc.prems(3) by simp
    then show ?thesis using h Suc.IH [OF h(4) Suc.prems(2)] Suc.prems(3) by simp
  qed auto
qed simp

text \<open>Only entries of tables above level \<open>l\<close> matter.\<close>

lemma reach_cong:
  assumes ok: "pm_ok s T A" and "reach s a la va n l" "T a = Some (la, p)" "la \<le> 4"
    and same: "\<And>n' j l' p'. T n' = Some (l', p') \<Longrightarrow> l < l' \<Longrightarrow> j < 512 \<Longrightarrow> ent s' n' j = ent s n' j"
  shows "reach s' a la va n l"
  using assms(2-4)
proof (induction la arbitrary: a p)
  case (Suc k)
  show ?case
  proof (cases "Suc k = l \<and> a = n")
    case False
    let ?e = "ent s a (vidx k va)"
    have h: "l \<le> k" "present ?e" "k = 3 \<or> \<not> large ?e" "reach s (page_of ?e) k va n l" using Suc.prems(1) False by auto
    have "0 < k" using reach_level [OF h(4)] by simp
    then have "T (page_of ?e) = Some (k, p * 512 + vidx k va)"
      using pm_okD(1) [OF ok Suc.prems(2) _ vidx_less h(2)] h(3) by auto
    moreover have "ent s' a (vidx k va) = ?e" using same Suc.prems(2) h(1) by simp
    ultimately show ?thesis using h Suc.IH [OF h(4)] Suc.prems(3) by simp
  qed auto
qed simp

lemma reach_step:
  assumes "reach s a la va n (Suc k)" "0 < k" "la \<le> 4" "present (ent s n (vidx k va))" "k = 3 \<or> \<not> large (ent s n (vidx k va))"
  shows "reach s a la va (page_of (ent s n (vidx k va))) k"
  using assms(1,3)
proof (induction la arbitrary: a)
  case (Suc j)
  show ?case
  proof (cases "Suc j = Suc k \<and> a = n")
    case True
    then show ?thesis using assms(2,4,5) by (cases k) auto
  next
    case False
    then have "Suc k \<le> j" using Suc.prems(1) by auto
    then show ?thesis using Suc False by auto
  qed
qed simp

section \<open>Single pages\<close>

text \<open>Two addresses lie in the same page, for pages of \<open>2 ^ (12 + 9 * k)\<close> bytes.\<close>

definition same_page :: "nat \<Rightarrow> u64 \<Rightarrow> u64 \<Rightarrow> bool" where
  "same_page k va va' \<longleftrightarrow> vpre k va = vpre k va'"

text \<open>The depth at which the walk ends on an entry, 0 when the address is not mapped.\<close>

definition depth_of :: "(nat \<times> u64) option \<Rightarrow> nat" where
  "depth_of x = (case x of None \<Rightarrow> 0 | Some (d, e) \<Rightarrow> d)"

text \<open>The state of an operation on the tables below the root \<open>r\<close> that has come down to table \<open>n\<close> of level
  \<open>Suc k\<close>, and has not changed any translation.\<close>

definition at_table :: "nat \<Rightarrow> u64 \<Rightarrow> nat \<Rightarrow> nat \<Rightarrow> mmu_state \<Rightarrow> labels \<Rightarrow> nat set \<Rightarrow> bool" where
  "at_table r va n k s T A \<longleftrightarrow> pm_ok s T A \<and> T r = Some (4, 0) \<and> T n = Some (Suc k, vpre (Suc k) va) \<and> reach s r 4 va n (Suc k)"

lemma at_root: "pm_ok s T A \<Longrightarrow> T r = Some (4, 0) \<Longrightarrow> at_table r va r 3 s T A"
proof -
  have "reach s r (Suc 3) va r (Suc 3)" by (simp only: reach.simps) simp
  then show "pm_ok s T A \<Longrightarrow> T r = Some (4, 0) \<Longrightarrow> at_table r va r 3 s T A" by (simp add: at_table_def)
qed

lemma walk_step:
  assumes at: "at_table r va n (Suc k) s T A" and k: "k \<le> 2" and free: "1 \<le> card A"
    and small: "Suc k = 3 \<or> depth_of (leaf s (tab s r) va) \<noteq> 2 - k"
  shows "\<exists>m s' T' A'.
    force_walk_pagemap_single_lvl (tab s n) (of_nat (vidx (Suc k) va)) (PM_COMMON_PRESENT OR PM_COMMON_WRITE) s = Some (tab s m, s') \<and>
    at_table r va m k s' T' A' \<and> grows 1 s T A s' T' A' \<and> (\<forall>va'. leaf s' (tab s r) va' = leaf s (tab s r) va')"
proof -
  have ok: "pm_ok s T A" "T r = Some (4, 0)" "T n = Some (Suc (Suc k), vpre (Suc (Suc k)) va)" "reach s r 4 va n (Suc (Suc k))"
    using at by (simp_all add: at_table_def)
  let ?e = "ent s n (vidx (Suc k) va)"
  have "Suc k = 3 \<or> \<not> large ?e"
  proof (rule ccontr)
    assume "\<not> (Suc k = 3 \<or> \<not> large ?e)"
    then have "awalk s n (Suc (Suc k)) va = Some (2 - k, ?e)" "k < 2" using k by (auto simp: awalk.simps)
    then have "leaf s (tab s r) va = Some (2 - k, ?e)" using leaf_awalk [OF ok(1,2)] reach_awalk [OF ok(4)] by simp
    then show False using small \<open>k < 2\<close> by (simp add: depth_of_def)
  qed
  from force_walk_down [OF ok(1) free ok(3) _ _ this] k obtain m s' T' A' where
    run: "force_walk_pagemap_single_lvl (tab s n) (of_nat (vidx (Suc k) va)) (PM_COMMON_PRESENT OR PM_COMMON_WRITE) s = Some (tab s m, s')"
    and d: "descends n (vidx (Suc k) va) s T A m s' T' A'" and m: "T' m = Some (Suc k, vpre (Suc k) va)"
    and e': "Suc k = 3 \<or> \<not> large (ent s' n (vidx (Suc k) va))" by auto
  note D = d [unfolded descends_def]
  have g: "grows 1 s T A s' T' A'" and ok': "pm_ok s' T' A'" using D by blast+
  have r': "T' r = Some (4, 0)" using grows_label [OF g ok(2)] .
  have "ent s' n' j = ent s n' j" if "T n' = Some (l', p')" "Suc (Suc k) < l'" "j < 512" for n' j l' p'
    using D that ok(3) by (metis domI less_irrefl option.inject prod.inject)
  then have "reach s' r 4 va n (Suc (Suc k))" using reach_cong [OF ok(1,4,2)] by simp
  then have "reach s' r 4 va m (Suc k)" using reach_step [of s' r 4 va n "Suc k"] D e' by simp
  moreover have "leaf s' (tab s r) va' = leaf s (tab s r) va'" for va'
    using leaf_awalk [OF ok(1,2)] leaf_awalk [OF ok' r'] grows_tab [OF g] D ok(2) by simp
  ultimately show ?thesis using run g ok' r' m by (auto simp: at_table_def)
qed

text \<open>The operation maps the page of \<open>va\<close> of size class \<open>k\<close> to the entry \<open>e\<close>, and takes at most \<open>c\<close> frames.\<close>

definition maps_page :: "nat \<Rightarrow> nat \<Rightarrow> u64 \<Rightarrow> u64 \<Rightarrow> nat \<Rightarrow> mmu_state \<Rightarrow> labels \<Rightarrow> nat set \<Rightarrow> mmu_state option \<Rightarrow> bool" where
  "maps_page k c va e r s T A res \<longleftrightarrow>
     (\<exists>s' T' A'. res = Some s' \<and> pm_ok s' T' A' \<and> grows c s T A s' T' A' \<and>
        (\<forall>va'. leaf s' (tab s r) va' = (if same_page k va va' then Some (3 - k, e) else leaf s (tab s r) va')))"

lemma write_step:
  assumes at: "at_table r va n k s T A" and k: "k \<le> 2" and e: "present e" "k = 0 \<or> large e"
  shows "maps_page k 0 va e r s T A (Some (set_entry (tab s n) (of_nat (vidx k va)) e s))"
proof -
  let ?s = "set_entry (tab s n) (of_nat (vidx k va)) e s"
  have ok: "pm_ok s T A" "T r = Some (4, 0)" "T n = Some (Suc k, vpre (Suc k) va)" "reach s r 4 va n (Suc k)"
    using at by (simp_all add: at_table_def)
  have sk: "Suc k \<noteq> 4" "Suc k = 1 \<or> large e" using k e by auto
  note wl = write_leaf [OF ok(1,3) sk(1) vidx_less [of k va] sk(2)]
  have tab': "tab ?s = tab s" using grows_tab [OF wl(2)] .
  have "leaf ?s (tab s r) va' = (if same_page k va va' then Some (3 - k, e) else leaf s (tab s r) va')" for va'
  proof (cases "same_page k va va'")
    case True
    then have v: "vpre (Suc k) va' = vpre (Suc k) va" "vidx k va' = vidx k va"
      using vpre_eq_step [of k va va'] k by (simp_all add: same_page_def)
    have "ent ?s n' j = ent s n' j" if "T n' = Some (l', p')" "Suc k < l'" "j < 512" for n' j l' p'
      using wl(3) [of n' j, OF domI [of T, OF that(1)] that(3)] that(1,2) ok(3) by auto
    then have "reach ?s r 4 va n (Suc k)" using reach_cong [OF ok(1,4,2)] by simp
    then have "awalk ?s r 4 va' = awalk ?s n (Suc k) va'" using reach_awalk reach_prefix v(1) by simp
    moreover have "ent ?s n (vidx k va) = e" using wl(3) [of n "vidx k va"] ok(3) by auto
    ultimately have "awalk ?s r 4 va' = Some (3 - k, e)" using e k by (auto simp: awalk.simps v(2))
    then show ?thesis using True leaf_awalk [OF wl(1) ok(2)] by (simp add: tab')
  next
    case False
    then have "\<not> (vpre (Suc k) va' = vpre (Suc k) va \<and> vidx k va' = vidx k va)"
      using vpre_eq_step [of k va' va] k by (auto simp: same_page_def)
    then have "awalk ?s r 4 va' = awalk s r 4 va'" using wl(4) [of r 4 va'] ok(2) by simp
    then show ?thesis using False leaf_awalk [OF wl(1) ok(2)] leaf_awalk [OF ok(1,2)] by (simp add: tab')
  qed
  then show ?thesis using wl(1,2) unfolding maps_page_def by blast
qed

lemma maps_page_after:
  assumes "maps_page k c va e r s1 T1 A1 res" "grows d s T A s1 T1 A1" "\<forall>va'. leaf s1 (tab s r) va' = leaf s (tab s r) va'"
  shows "maps_page k (d + c) va e r s T A res"
  using assms grows_trans [OF assms(2)] grows_tab [OF assms(2)] unfolding maps_page_def by fastforce

lemma grows_card: "grows c s T A s' T' A' \<Longrightarrow> c + d \<le> card A \<Longrightarrow> d \<le> card A'"
  by (simp add: grows_def)

lemma ps_large [simp]: "large (x OR PDXX_COMMON_PS)"
  by (simp add: large_bit bit_or_iff PDXX_COMMON_PS_def bit_simps)

text \<open>The descent to the table of each level.\<close>

abbreviation walk_from :: "mmu_state \<Rightarrow> nat \<Rightarrow> u64 \<Rightarrow> nat \<Rightarrow> mmu_state \<Rightarrow> (u64 \<times> mmu_state) option" where
  "walk_from s0 n va k s \<equiv>
     force_walk_pagemap_single_lvl (tab s0 n) (of_nat (vidx k va)) (PM_COMMON_PRESENT OR PM_COMMON_WRITE) s"

lemma walk_pdpt:
  assumes ok: "pm_ok s T A" "T r = Some (4, 0)" and free: "1 \<le> card A"
  obtains n s1 T1 A1 where "walk_from s r va 3 s = Some (tab s n, s1)" "at_table r va n 2 s1 T1 A1" "grows 1 s T A s1 T1 A1"
    "\<forall>va'. leaf s1 (tab s r) va' = leaf s (tab s r) va'"
  using walk_step [of r va r 2 s T A] at_root [OF ok] free by auto

lemma walk_pd:
  assumes ok: "pm_ok s T A" "T r = Some (4, 0)" and free: "2 \<le> card A" and small: "depth_of (leaf s (tab s r) va) \<noteq> 1"
  obtains n3 s1 n s2 T2 A2 where "walk_from s r va 3 s = Some (tab s n3, s1)" "walk_from s n3 va 2 s1 = Some (tab s n, s2)"
    "at_table r va n 1 s2 T2 A2" "grows 2 s T A s2 T2 A2" "\<forall>va'. leaf s2 (tab s r) va' = leaf s (tab s r) va'"
proof -
  have "1 \<le> card A" using free by simp
  from walk_pdpt [OF ok this] obtain n3 s1 T1 A1 where w1: "walk_from s r va 3 s = Some (tab s n3, s1)"
    "at_table r va n3 2 s1 T1 A1" "grows 1 s T A s1 T1 A1" "\<forall>va'. leaf s1 (tab s r) va' = leaf s (tab s r) va'" by blast
  have t1: "tab s1 = tab s" using grows_tab [OF w1(3)] .
  have "1 \<le> card A1" using grows_card [OF w1(3), of 1] free by simp
  from walk_step [of r va n3 1, unfolded Suc_1, OF w1(2) _ this] small w1(4) obtain n s2 T2 A2 where
    w2: "walk_from s n3 va 2 s1 = Some (tab s n, s2)" "at_table r va n 1 s2 T2 A2" "grows 1 s1 T1 A1 s2 T2 A2"
    "\<forall>va'. leaf s2 (tab s r) va' = leaf s1 (tab s r) va'" unfolding t1 by auto
  have "grows 2 s T A s2 T2 A2" using grows_trans [OF w1(3) w2(3)] by (simp only: one_add_one)
  then show ?thesis using that w1(1,4) w2 by simp
qed

lemma walk_pt:
  assumes ok: "pm_ok s T A" "T r = Some (4, 0)" and free: "3 \<le> card A"
    and small: "depth_of (leaf s (tab s r) va) \<noteq> 1" "depth_of (leaf s (tab s r) va) \<noteq> 2"
  obtains n3 s1 n2 s2 n s3 T3 A3 where "walk_from s r va 3 s = Some (tab s n3, s1)" "walk_from s n3 va 2 s1 = Some (tab s n2, s2)"
    "walk_from s n2 va 1 s2 = Some (tab s n, s3)" "at_table r va n 0 s3 T3 A3" "grows 3 s T A s3 T3 A3"
    "\<forall>va'. leaf s3 (tab s r) va' = leaf s (tab s r) va'"
proof -
  have "2 \<le> card A" using free by simp
  from walk_pd [OF ok this small(1)] obtain n3 s1 n2 s2 T2 A2 where w2: "walk_from s r va 3 s = Some (tab s n3, s1)"
    "walk_from s n3 va 2 s1 = Some (tab s n2, s2)" "at_table r va n2 1 s2 T2 A2" "grows 2 s T A s2 T2 A2"
    "\<forall>va'. leaf s2 (tab s r) va' = leaf s (tab s r) va'" by blast
  have t2: "tab s2 = tab s" using grows_tab [OF w2(4)] .
  have "1 \<le> card A2" using grows_card [OF w2(4), of 1] free by simp
  from walk_step [of r va n2 0, folded One_nat_def, OF w2(3) _ this] small w2(5) obtain n s3 T3 A3 where
    w3: "walk_from s n2 va 1 s2 = Some (tab s n, s3)" "at_table r va n 0 s3 T3 A3" "grows 1 s2 T2 A2 s3 T3 A3"
    "\<forall>va'. leaf s3 (tab s r) va' = leaf s2 (tab s r) va'" unfolding t2 by auto
  have "grows 3 s T A s3 T3 A3" using grows_trans [OF w2(4) w3(3)] by simp
  then show ?thesis using that w2(1,2,5) w3 by simp
qed

lemma map_1g_ok:
  assumes ok: "pm_ok s T A" "T r = Some (4, 0)" and free: "1 \<le> card A"
    and al: "pa AND 0x3fffffff = 0" "va AND 0x3fffffff = 0" and e: "present (pa OR flags OR PDXX_COMMON_PS)"
  shows "maps_page 2 1 va (pa OR flags OR PDXX_COMMON_PS) r s T A (mmu_map_single_page_1g (tab s r) va pa flags s)"
proof -
  obtain n s1 T1 A1 where w: "walk_from s r va 3 s = Some (tab s n, s1)" "at_table r va n 2 s1 T1 A1" "grows 1 s T A s1 T1 A1"
    "\<forall>va'. leaf s1 (tab s r) va' = leaf s (tab s r) va'" by (rule walk_pdpt [OF ok free])
  have "large (pa OR flags OR PDXX_COMMON_PS)" by (metis or.assoc ps_large)
  from maps_page_after [OF write_step [OF w(2) _ e] w(3,4)] this show ?thesis
    using w(1) al grows_tab [OF w(3)] by (simp add: mmu_map_single_page_1g_def table_indices)
qed

lemma map_2m_ok:
  assumes ok: "pm_ok s T A" "T r = Some (4, 0)" and free: "2 \<le> card A" and small: "depth_of (leaf s (tab s r) va) \<noteq> 1"
    and al: "pa AND 0x1fffff = 0" "va AND 0x1fffff = 0" and e: "present (pa OR flags OR PDXX_COMMON_PS)"
  shows "maps_page 1 2 va (pa OR flags OR PDXX_COMMON_PS) r s T A (mmu_map_single_page_2m (tab s r) va pa flags s)"
proof -
  obtain n3 s1 n s2 T2 A2 where w: "walk_from s r va 3 s = Some (tab s n3, s1)" "walk_from s n3 va 2 s1 = Some (tab s n, s2)"
    "at_table r va n 1 s2 T2 A2" "grows 2 s T A s2 T2 A2" "\<forall>va'. leaf s2 (tab s r) va' = leaf s (tab s r) va'"
    by (rule walk_pd [OF ok free small])
  have "large (pa OR flags OR PDXX_COMMON_PS)" by (metis or.assoc ps_large)
  from maps_page_after [OF write_step [OF w(3) _ e] w(4,5)] this show ?thesis
    using w(1,2) al grows_tab [OF w(4)] by (simp add: mmu_map_single_page_2m_def table_indices del: One_nat_def)
qed

lemma map_4k_ok:
  assumes ok: "pm_ok s T A" "T r = Some (4, 0)" and free: "3 \<le> card A"
    and small: "depth_of (leaf s (tab s r) va) \<noteq> 1" "depth_of (leaf s (tab s r) va) \<noteq> 2"
    and al: "pa AND 0xfff = 0" "va AND 0xfff = 0" and e: "present (pa OR flags)"
  shows "maps_page 0 3 va (pa OR flags) r s T A (mmu_map_single_page_4k (tab s r) va pa flags s)"
proof -
  obtain n3 s1 n2 s2 n s3 T3 A3 where w: "walk_from s r va 3 s = Some (tab s n3, s1)" "walk_from s n3 va 2 s1 = Some (tab s n2, s2)"
    "walk_from s n2 va 1 s2 = Some (tab s n, s3)" "at_table r va n 0 s3 T3 A3" "grows 3 s T A s3 T3 A3"
    "\<forall>va'. leaf s3 (tab s r) va' = leaf s (tab s r) va'"
    by (rule walk_pt [OF ok free small])
  from maps_page_after [OF write_step [OF w(4) _ e] w(5,6)] show ?thesis
    using w(1-3) al grows_tab [OF w(5)] by (simp add: mmu_map_single_page_4k_def table_indices del: One_nat_def)
qed

end
