(* ===== verification/Mmu_Range.thy ===== *)
theory Mmu_Range
  imports Mmu_Map
begin

text \<open>
  Translation of addresses, and the mapping of ranges. \<open>transl\<close> reads the physical address off the
  entry that a table walk finds, and \<open>virt2phys\<close> returns it. A range is mapped by five loops over
  pages of three sizes; \<open>range_inv\<close> is their common invariant: the addresses of the range below the
  loop counter are translated, and the walk for every other address finds what it found before.
\<close>

section \<open>Translation\<close>

definition page_bytes :: "nat \<Rightarrow> nat" where
  "page_bytes k = 2 ^ (12 + 9 * k)"

definition offset_mask :: "nat \<Rightarrow> u64" where
  "offset_mask k = mask (12 + 9 * k)"

text \<open>The physical address of \<open>va\<close> for an entry that maps a page of size class \<open>k\<close>, with physical
  addresses of \<open>w\<close> bits.\<close>

definition phys_of :: "nat \<Rightarrow> nat \<Rightarrow> u64 \<Rightarrow> u64 \<Rightarrow> u64" where
  "phys_of w k e va = (e AND (mask w AND NOT (offset_mask k))) OR (va AND offset_mask k)"

definition transl :: "mmu_state \<Rightarrow> u64 \<Rightarrow> u64 \<Rightarrow> u64 option" where
  "transl s root va = map_option (\<lambda>(d, e). phys_of (unat (phys_addr_width s)) (3 - d) e va) (leaf s root va)"

lemma offset_masks: "offset_mask 2 = 0x3fffffff" "offset_mask 1 = 0x1fffff" "offset_mask 0 = 0xfff"
  by (simp_all add: offset_mask_def mask_eq_exp_minus_1)

lemma width_mask: "push_bit n 1 - 1 = (mask n :: u64)"
  by (simp add: mask_eq_exp_minus_1 push_bit_eq_mult)

lemma leaf_depth: "leaf s root va = Some (d, e) \<Longrightarrow> d = 1 \<or> d = 2 \<or> d = 3"
  by (auto simp: leaf_def mmu_walk_table_def Let_def split: if_splits)

lemma virt2phys_transl: "virt2phys va s = Some (case transl s (kernel_pml4 s) va of None \<Rightarrow> 0 | Some pa \<Rightarrow> pa)"
proof -
  obtain t d i where w: "mmu_walk_table (kernel_pml4 s) va s = (t, d, i)" by (metis prod_cases3)
  show ?thesis
  proof (cases "t = 0")
    case True
    then show ?thesis by (simp add: virt2phys_def transl_def leaf_def w)
  next
    case False
    then have l: "leaf s (kernel_pml4 s) va = Some (d, entry_at s t i)" by (simp add: leaf_def w)
    then have "d = 1 \<or> d = 2 \<or> d = 3" by (rule leaf_depth)
    then show ?thesis using False l
      by (elim disjE) (simp_all add: virt2phys_def transl_def phys_of_def w offset_masks offset_masks(2) [simplified] width_mask Let_def del: push_bit_of_1)
  qed
qed

section \<open>Pages as intervals\<close>

text \<open>The part of an address that the tables translate.\<close>

definition va48 :: "u64 \<Rightarrow> nat" where
  "va48 va = unat va mod 2 ^ 48"

lemma vpre_va48: "vpre k va = va48 va div page_bytes k"
  by (simp add: vpre_def va48_def page_bytes_def)

lemma page_bytes_pos [simp]: "0 < page_bytes k"
  by (simp add: page_bytes_def)

lemma same_page_interval:
  assumes "page_bytes k dvd va48 va"
  shows "same_page k va va' \<longleftrightarrow> va48 va \<le> va48 va' \<and> va48 va' < va48 va + page_bytes k"
proof -
  let ?P = "page_bytes k"
  obtain q where q: "va48 va = ?P * q" using assms by (rule dvdE)
  have "same_page k va va' \<longleftrightarrow> va48 va' div ?P = q"
    using q by (auto simp: same_page_def vpre_va48)
  also have "\<dots> \<longleftrightarrow> ?P * q \<le> va48 va' \<and> va48 va' < ?P * q + ?P"
  proof
    assume "va48 va' div ?P = q"
    then have "va48 va' = ?P * q + va48 va' mod ?P" by (metis mult_div_mod_eq)
    moreover have "va48 va' mod ?P < ?P" by simp
    ultimately show "?P * q \<le> va48 va' \<and> va48 va' < ?P * q + ?P" by linarith
  next
    assume "?P * q \<le> va48 va' \<and> va48 va' < ?P * q + ?P"
    then show "va48 va' div ?P = q" by (intro div_nat_eqI) (auto simp: mult.commute)
  qed
  finally show ?thesis using q by simp
qed

text \<open>The bits of an entry that are neither offset nor address.\<close>

lemma phys_of_entry:
  assumes pa: "unat pa < 2 ^ w" "pa AND offset_mask k = 0" and fl: "fl AND (mask w AND NOT (offset_mask k)) = 0"
  shows "phys_of w k (pa OR fl) va = pa + (va AND offset_mask k)"
proof -
  have hi: "pa AND mask w = pa"
  proof -
    have "unat (take_bit w pa) = unat pa" using pa(1) by (simp add: unsigned_take_bit_eq take_bit_nat_eq_self)
    then have "take_bit w pa = pa" by (rule unsigned_word_eqI)
    then show ?thesis by (simp add: take_bit_eq_mask)
  qed
  have "(pa OR fl) AND (mask w AND NOT (offset_mask k)) = pa"
  proof (rule bit_eqI)
    fix n assume "possible_bit TYPE(64 word) n"
    have "bit (pa AND mask w) n = bit pa n" "bit (pa AND offset_mask k) n = bit (0 :: u64) n"
      "bit (fl AND (mask w AND NOT (offset_mask k))) n = bit (0 :: u64) n" using hi pa(2) fl by simp_all
    then show "bit ((pa OR fl) AND (mask w AND NOT (offset_mask k))) n = bit pa n" by (auto simp: bit_simps)
  qed
  moreover have "pa AND (va AND offset_mask k) = 0"
  proof -
    have "pa AND (va AND offset_mask k) = va AND (pa AND offset_mask k)" by (simp only: and.left_commute)
    then show ?thesis using pa(2) by simp
  qed
  then have "pa OR (va AND offset_mask k) = pa + (va AND offset_mask k)" by (simp add: disjunctive_add_eq_or)
  ultimately show ?thesis by (simp add: phys_of_def)
qed

section \<open>The three page sizes\<close>

definition map_fn :: "nat \<Rightarrow> u64 \<Rightarrow> u64 \<Rightarrow> u64 \<Rightarrow> u64 \<Rightarrow> mmu_state \<Rightarrow> mmu_state option" where
  "map_fn k = (if k = 0 then mmu_map_single_page_4k else if k = 1 then mmu_map_single_page_2m else mmu_map_single_page_1g)"

definition entry_of :: "nat \<Rightarrow> u64 \<Rightarrow> u64 \<Rightarrow> u64" where
  "entry_of k pa flags = (if k = 0 then pa OR flags else pa OR flags OR PDXX_COMMON_PS)"

lemma maps_page_mono: "maps_page k c va e r s T A res \<Longrightarrow> c \<le> d \<Longrightarrow> maps_page k d va e r s T A res"
  unfolding maps_page_def using grows_mono by blast

lemma map_fn_ok:
  assumes "pm_ok s T A" "T r = Some (4, 0)" "3 \<le> card A" "k \<le> 2"
    and "depth_of (leaf s (tab s r) va) \<noteq> 1" "depth_of (leaf s (tab s r) va) \<noteq> 2"
    and "pa AND offset_mask k = 0" "va AND offset_mask k = 0" "present (entry_of k pa flags)"
  shows "maps_page k 3 va (entry_of k pa flags) r s T A (map_fn k (tab s r) va pa flags s)"
proof -
  consider "k = 0" | "k = 1" | "k = 2" using assms(4) by linarith
  then show ?thesis
  proof cases
    case 1
    then show ?thesis using map_4k_ok [OF assms(1,2), of va pa flags] assms by (simp add: map_fn_def entry_of_def offset_masks)
  next
    case 2
    then have "maps_page 1 2 va (pa OR flags OR PDXX_COMMON_PS) r s T A (mmu_map_single_page_2m (tab s r) va pa flags s)"
      using assms by (intro map_2m_ok) (auto simp: entry_of_def offset_masks simp del: One_nat_def)
    then show ?thesis using 2 maps_page_mono [where d = 3] by (simp add: map_fn_def entry_of_def)
  next
    case 3
    then have "maps_page 2 1 va (pa OR flags OR PDXX_COMMON_PS) r s T A (mmu_map_single_page_1g (tab s r) va pa flags s)"
      using assms by (intro map_1g_ok) (auto simp: entry_of_def offset_masks)
    then show ?thesis using 3 maps_page_mono [where d = 3] by (simp add: map_fn_def entry_of_def)
  qed
qed

text \<open>Flags that leave the address bits of an entry alone.\<close>

definition flags_ok :: "nat \<Rightarrow> nat \<Rightarrow> u64 \<Rightarrow> bool" where
  "flags_ok w k fl \<longleftrightarrow> present fl \<and> fl AND (mask w AND NOT (offset_mask k)) = 0"

lemma entry_of_ok:
  assumes "flags_ok w k fl" "unat pa < 2 ^ w" "pa AND offset_mask k = 0" "k \<le> 2"
  shows "present (entry_of k pa fl)" "phys_of w k (entry_of k pa fl) va = pa + (va AND offset_mask k)"
proof -
  show "present (entry_of k pa fl)" using assms(1) by (auto simp: entry_of_def flags_ok_def present_bit bit_or_iff)
  have "PDXX_COMMON_PS AND (mask w AND NOT (offset_mask k)) = 0"
  proof (rule bit_eqI)
    fix n assume "possible_bit TYPE(64 word) n"
    show "bit (PDXX_COMMON_PS AND (mask w AND NOT (offset_mask k))) n = bit (0 :: u64) n"
      using large_bit [of PDXX_COMMON_PS] by (auto simp: PDXX_COMMON_PS_def offset_mask_def bit_push_bit_iff bit_1_iff bit_and_iff bit_not_iff bit_mask_iff simp del: push_bit_of_1)
  qed
  then have "(fl OR PDXX_COMMON_PS) AND (mask w AND NOT (offset_mask k)) = 0"
    using assms(1) by (simp add: flags_ok_def bit.conj_disj_distrib2)
  then show "phys_of w k (entry_of k pa fl) va = pa + (va AND offset_mask k)"
    using phys_of_entry [OF assms(2,3)] assms(1) by (auto simp: entry_of_def flags_ok_def or.assoc)
qed

lemma take_bit_64: "take_bit 64 (unat va) = unat va" for va :: u64
  by (rule take_bit_nat_eq_self) (use unsigned_less [of va] in simp)

lemma and_offset_mask:
  assumes "k \<le> 2"
  shows "unat (va AND offset_mask k) = unat va mod page_bytes k" "unat (va AND offset_mask k) = va48 va mod page_bytes k"
    "va AND offset_mask k = 0 \<longleftrightarrow> page_bytes k dvd unat va"
proof -
  have "va AND offset_mask k = take_bit (12 + 9 * k) va" by (simp add: offset_mask_def take_bit_eq_mask)
  then show u: "unat (va AND offset_mask k) = unat va mod page_bytes k"
    by (simp only: unsigned_take_bit_eq) (simp add: take_bit_eq_mod page_bytes_def)
  have "page_bytes k dvd 2 ^ 48" unfolding page_bytes_def using assms by (intro le_imp_power_dvd) simp
  then show "unat (va AND offset_mask k) = va48 va mod page_bytes k" unfolding u va48_def by (simp only: mod_mod_cancel)
  have "va AND offset_mask k = 0 \<longleftrightarrow> unat (va AND offset_mask k) = 0" by (simp add: unat_eq_0)
  then show "va AND offset_mask k = 0 \<longleftrightarrow> page_bytes k dvd unat va" unfolding u by (simp add: dvd_eq_mod_eq_0)
qed

section \<open>The loops over a range\<close>

text \<open>The range of \<open>sz\<close> bytes at physical address \<open>p\<close> that is to be seen at the virtual addresses from \<open>V\<close> on.
  The two agree modulo the size of every page that fits into the range.\<close>

definition linear_range :: "nat \<Rightarrow> nat \<Rightarrow> nat \<Rightarrow> nat \<Rightarrow> u64 \<Rightarrow> mmu_state \<Rightarrow> bool" where
  "linear_range r V p sz off s0 \<longleftrightarrow> unat (phys_addr_width s0) \<le> 52 \<and> p + sz \<le> 2 ^ unat (phys_addr_width s0) \<and>
     (\<forall>k \<le> 2. \<forall>q. page_bytes k dvd q \<longrightarrow> p \<le> q \<longrightarrow> q + page_bytes k \<le> p + sz \<longrightarrow> V mod page_bytes k = p mod page_bytes k) \<and>
     (\<forall>x. p \<le> x \<longrightarrow> x < p + sz \<longrightarrow> va48 (of_nat x + off) = V + (x - p)) \<and>
     (\<forall>va. V \<le> va48 va \<longrightarrow> va48 va < V + sz \<longrightarrow> depth_of (leaf s0 (tab s0 r) va) \<noteq> 1 \<and> depth_of (leaf s0 (tab s0 r) va) \<noteq> 2)"

text \<open>The first bytes of the range, up to the physical address \<open>lo\<close>, are mapped; there are frames left for
  the rest of it, and for \<open>c div 3\<close> bytes more.\<close>

definition range_inv :: "nat \<Rightarrow> nat \<Rightarrow> nat \<Rightarrow> nat \<Rightarrow> nat \<Rightarrow> mmu_state \<Rightarrow> nat \<Rightarrow> mmu_state \<Rightarrow> bool" where
  "range_inv c r V p sz s0 lo s \<longleftrightarrow>
     (\<exists>T A. pm_ok s T A \<and> T r = Some (4, 0) \<and> 3 * (p + sz - lo) + c \<le> 4096 * card A) \<and> tab s = tab s0 \<and>
     phys_addr_width s = phys_addr_width s0 \<and> kernel_pml4 s = kernel_pml4 s0 \<and>
     (\<forall>va. if V \<le> va48 va \<and> va48 va < V + (lo - p) then transl s (tab s0 r) va = Some (of_nat (p + (va48 va - V)))
           else leaf s (tab s0 r) va = leaf s0 (tab s0 r) va)"

lemma page_bytes_ge: "4096 \<le> page_bytes k"
  using power_increasing [of 12 "12 + 9 * k" "2 :: nat"] by (simp add: page_bytes_def)

lemma page_bytes_dvd: "j \<le> k \<Longrightarrow> page_bytes j dvd page_bytes k"
  unfolding page_bytes_def by (intro le_imp_power_dvd) simp

lemma unat_phys: "x < 2 ^ w \<Longrightarrow> w \<le> 52 \<Longrightarrow> unat (of_nat x :: u64) = x"
proof -
  assume "x < 2 ^ w" "w \<le> 52"
  moreover have "(2 :: nat) ^ w \<le> 2 ^ 52" if "w \<le> 52" by (rule power_increasing [OF that]) simp
  ultimately have "x < 2 ^ 64" by simp
  then show ?thesis by (simp add: unat_of_nat)
qed

lemma linear_aligned:
  assumes lin: "linear_range r V p sz off s0" and k: "k \<le> 2" and lo: "p \<le> lo" "lo + page_bytes k \<le> p + sz" "page_bytes k dvd lo"
  shows "(of_nat lo :: u64) AND offset_mask k = 0" "(of_nat lo + off) AND offset_mask k = 0"
    "va48 (of_nat lo + off) = V + (lo - p)" "page_bytes k dvd V + (lo - p)" "unat (of_nat lo :: u64) = lo"
proof -
  have lt: "lo < p + sz" using lo(2) page_bytes_ge [of k] by linarith
  show u: "unat (of_nat lo :: u64) = lo" using lin lt unat_phys [of lo "unat (phys_addr_width s0)"] by (auto simp: linear_range_def)
  then show "(of_nat lo :: u64) AND offset_mask k = 0" using and_offset_mask(3) [OF k, of "of_nat lo"] lo(3) by simp
  show v: "va48 (of_nat lo + off) = V + (lo - p)" using lin lo(1) lt by (simp add: linear_range_def)
  have "V mod page_bytes k = p mod page_bytes k"
    using lin k lo unfolding linear_range_def by blast
  then have "(V + (lo - p)) mod page_bytes k = (p + (lo - p)) mod page_bytes k" by (rule mod_add_cong) simp
  then show d: "page_bytes k dvd V + (lo - p)" using lo by (simp add: dvd_eq_mod_eq_0)
  have "unat ((of_nat lo + off) AND offset_mask k) = 0" using and_offset_mask(2) [OF k, of "of_nat lo + off"] d unfolding v by simp
  then show "(of_nat lo + off) AND offset_mask k = 0" by (simp add: unat_eq_0)
qed

lemma transl_cong: "leaf s a va = leaf s' a va \<Longrightarrow> phys_addr_width s = phys_addr_width s' \<Longrightarrow> transl s a va = transl s' a va"
  by (simp add: transl_def)

lemma page_translated:
  assumes k: "k \<le> 2" and fl: "flags_ok w k fl" "w = unat (phys_addr_width s')"
    and pa: "unat (of_nat lo :: u64) = lo" "lo < 2 ^ w" "(of_nat lo :: u64) AND offset_mask k = 0"
    and b: "page_bytes k dvd b" "b \<le> va48 va" "va48 va < b + page_bytes k"
    and leaf: "leaf s' a va = Some (3 - k, entry_of k (of_nat lo) fl)"
  shows "transl s' a va = Some (of_nat (lo + (va48 va - b)))"
proof -
  have "va48 va mod page_bytes k = va48 va - b"
  proof -
    have "va48 va = b + (va48 va - b)" using b(2) by simp
    then have "va48 va mod page_bytes k = (va48 va - b) mod page_bytes k" using b(1) by (metis dvd_imp_mod_0 mod_add_self1 mod_add_left_eq add_0)
    then show ?thesis using b by simp
  qed
  then have "va AND offset_mask k = of_nat (va48 va - b)"
    using and_offset_mask(2) [OF k, of va] by (metis of_nat_unat ucast_id)
  then show ?thesis using k leaf entry_of_ok(2) [OF fl(1) _ pa(3) k] pa by (simp add: transl_def fl(2))
qed

lemma range_page:
  assumes lin: "linear_range r V p sz off s0" and k: "k \<le> 2" and lo: "p \<le> lo" "lo + page_bytes k \<le> p + sz" "page_bytes k dvd lo"
    and fl: "flags_ok (unat (phys_addr_width s0)) k fl" and inv: "range_inv c r V p sz s0 lo s"
  shows "\<exists>s'. map_fn k (tab s0 r) (of_nat lo + off) (of_nat lo) fl s = Some s' \<and> range_inv c r V p sz s0 (lo + page_bytes k) s'"
proof -
  let ?w = "unat (phys_addr_width s0)" and ?va = "of_nat lo + off :: u64" and ?e = "entry_of k (of_nat lo) fl"
  obtain T A where ok: "pm_ok s T A" "T r = Some (4, 0)" "3 * (p + sz - lo) + c \<le> 4096 * card A"
    and t: "tab s = tab s0" and w: "phys_addr_width s = phys_addr_width s0" "kernel_pml4 s = kernel_pml4 s0"
    and tr: "\<And>va. if V \<le> va48 va \<and> va48 va < V + (lo - p) then transl s (tab s0 r) va = Some (of_nat (p + (va48 va - V)))
           else leaf s (tab s0 r) va = leaf s0 (tab s0 r) va"
    using inv unfolding range_inv_def by blast
  have lt: "lo < p + sz" using lo(2) page_bytes_ge [of k] by linarith
  note al = linear_aligned [OF lin k lo]
  have pw: "lo < 2 ^ ?w" using lin lt by (simp add: linear_range_def)
  note e = entry_of_ok [OF fl _ al(1) k]
  have "3 \<le> card A" using ok(3) lo(2) page_bytes_ge [of k] by linarith
  moreover have "leaf s (tab s0 r) ?va = leaf s0 (tab s0 r) ?va" using tr [of ?va] al(3) by (simp split: if_splits)
  then have "depth_of (leaf s (tab s r) ?va) \<noteq> 1" "depth_of (leaf s (tab s r) ?va) \<noteq> 2"
    using lin lt lo(1) al(3) by (auto simp: linear_range_def t)
  ultimately have "maps_page k 3 ?va ?e r s T A (map_fn k (tab s r) ?va (of_nat lo) fl s)"
    using map_fn_ok [OF ok(1,2) _ k _ _ al(1,2)] e(1) pw al(5) by simp
  then obtain s' T' A' where run: "map_fn k (tab s0 r) ?va (of_nat lo) fl s = Some s'" and ok': "pm_ok s' T' A'"
    and g: "grows 3 s T A s' T' A'"
    and lf: "\<And>va. leaf s' (tab s0 r) va = (if same_page k ?va va then Some (3 - k, ?e) else leaf s (tab s0 r) va)"
    unfolding maps_page_def t by blast
  have g': "tab s' = tab s0" "phys_addr_width s' = phys_addr_width s0" "kernel_pml4 s' = kernel_pml4 s0" "card A \<le> card A' + 3"
    using g w t grows_tab [OF g] by (simp_all add: grows_def)
  have "if V \<le> va48 va \<and> va48 va < V + (lo + page_bytes k - p) then transl s' (tab s0 r) va = Some (of_nat (p + (va48 va - V)))
           else leaf s' (tab s0 r) va = leaf s0 (tab s0 r) va" for va
  proof (cases "same_page k ?va va")
    case True
    then have i: "V + (lo - p) \<le> va48 va" "va48 va < V + (lo - p) + page_bytes k"
      using same_page_interval [of k ?va va] al(3,4) by auto
    have "transl s' (tab s0 r) va = Some (of_nat (lo + (va48 va - (V + (lo - p)))))"
      using page_translated [OF k fl _ al(5) pw al(1,4) i] lf [of va] True g' by simp
    then show ?thesis using i lo(1) by auto
  next
    case False
    then have "\<not> (V + (lo - p) \<le> va48 va \<and> va48 va < V + (lo - p) + page_bytes k)"
      using same_page_interval [of k ?va va] al(3,4) by auto
    moreover have "leaf s' (tab s0 r) va = leaf s (tab s0 r) va" using lf [of va] False by simp
    ultimately show ?thesis using tr [of va] lo(1) transl_cong [of s' "tab s0 r" va s] g' w by (auto split: if_splits)
  qed
  moreover have "3 * (p + sz - (lo + page_bytes k)) + c \<le> 4096 * card A'" using ok(3) g'(4) page_bytes_ge [of k] lo(2) by linarith
  ultimately have "range_inv c r V p sz s0 (lo + page_bytes k) s'"
    unfolding range_inv_def using ok' grows_label [OF g ok(2)] g' by blast
  then show ?thesis using run by blast
qed

lemma range_loop:
  assumes lin: "linear_range r V p sz off s0" and k: "k \<le> 2" and t: "page_bytes k dvd t" "t \<le> p + sz"
    and lo: "p \<le> lo" "lo \<le> p + sz" "lo < t \<Longrightarrow> page_bytes k dvd lo"
    and fl: "flags_ok (unat (phys_addr_width s0)) k fl" and inv: "range_inv c r V p sz s0 lo s"
  shows "\<exists>s'. map_loop (\<lambda>x. map_fn k (tab s0 r) (x + off) x fl) (of_nat (page_bytes k)) (of_nat t) (of_nat lo) s =
      Some (of_nat (max lo t), s') \<and> range_inv c r V p sz s0 (max lo t) s'"
  using lo inv
proof (induction "t - lo" arbitrary: lo s rule: less_induct)
  case less
  have w: "unat (phys_addr_width s0) \<le> 52" "p + sz \<le> 2 ^ unat (phys_addr_width s0)" using lin by (simp_all add: linear_range_def)
  have "x < 2 ^ 64" if "x \<le> p + sz" for x
    using that w power_increasing [of "unat (phys_addr_width s0)" 52 "2 :: nat"] by simp
  then have u: "(of_nat lo :: u64) < of_nat t \<longleftrightarrow> lo < t" using t(2) less.prems(2) by (simp add: word_less_nat_alt unat_of_nat)
  show ?case
  proof (cases "lo < t")
    case False
    then show ?thesis using less.prems(4) u by (subst map_loop.simps) (simp add: max_def)
  next
    case True
    let ?lo = "lo + page_bytes k"
    have d: "page_bytes k dvd lo" using less.prems(3) True by simp
    then have "page_bytes k dvd t - lo" using t(1) by (rule dvd_diff_nat [rotated])
    then have le: "?lo \<le> t" using True dvd_imp_le [of "page_bytes k" "t - lo"] by simp
    then have "?lo \<le> p + sz" using t(2) by simp
    from range_page [OF lin k less.prems(1) this d fl less.prems(4)]
    obtain s1 where s1: "map_fn k (tab s0 r) (of_nat lo + off) (of_nat lo) fl s = Some s1" "range_inv c r V p sz s0 ?lo s1" by blast
    have "t - ?lo < t - lo" using True by (simp add: diff_less_mono2)
    from less.hyps [OF this _ \<open>?lo \<le> p + sz\<close> _ s1(2)] less.prems(1) d obtain s' where
      "map_loop (\<lambda>x. map_fn k (tab s0 r) (x + off) x fl) (of_nat (page_bytes k)) (of_nat t) (of_nat ?lo) s1 =
         Some (of_nat (max ?lo t), s')" "range_inv c r V p sz s0 (max ?lo t) s'" by auto
    moreover have "max ?lo t = max lo t" using True le by simp
    ultimately show ?thesis using s1(1) u True by (subst map_loop.simps) simp
  qed
qed

section \<open>Alignment\<close>

definition align_down :: "nat \<Rightarrow> nat \<Rightarrow> nat" where
  "align_down P x = P * (x div P)"

definition align_up :: "nat \<Rightarrow> nat \<Rightarrow> nat" where
  "align_up P x = P * ((x + (P - 1)) div P)"

lemma align_down_le: "align_down P x \<le> x"
  by (simp add: align_down_def)

lemma align_dvd [simp]: "P dvd align_down P x" "P dvd align_up P x"
  by (simp_all add: align_down_def align_up_def)

lemma align_down_greatest: "P dvd y \<Longrightarrow> y \<le> x \<Longrightarrow> y \<le> align_down P x"
proof -
  assume P: "P dvd y" "y \<le> x"
  have "y div P \<le> x div P" by (rule div_le_mono [OF P(2)])
  then have "P * (y div P) \<le> P * (x div P)" by (rule mult_le_mono2)
  then show "y \<le> align_down P x" using P(1) by (simp add: align_down_def)
qed

lemma align_up_ge: "0 < P \<Longrightarrow> x \<le> align_up P x"
  using dividend_less_div_times [of P "x + (P - 1)"] by (simp add: align_up_def mult.commute)

lemma align_up_least: "0 < P \<Longrightarrow> P dvd y \<Longrightarrow> x \<le> y \<Longrightarrow> align_up P x \<le> y"
proof -
  assume P: "0 < P" "P dvd y" "x \<le> y"
  then obtain q where q: "y = P * q" by (elim dvdE)
  have "(x + (P - 1)) div P < Suc q" using P q by (intro less_mult_imp_div_less) (simp add: algebra_simps)
  then show "align_up P x \<le> y" unfolding align_up_def q by (intro mult_le_mono2) simp
qed

lemma align_down_word: "ALIGN_DOWN64 x (of_nat (page_bytes k)) = of_nat (align_down (page_bytes k) (unat x))"
proof -
  let ?n = "12 + 9 * k"
  have "of_nat (page_bytes k) - 1 = (mask ?n :: u64)" by (simp add: page_bytes_def mask_eq_exp_minus_1)
  then have "ALIGN_DOWN64 x (of_nat (page_bytes k)) = push_bit ?n (drop_bit ?n x)"
    unfolding ALIGN_DOWN64_def by (simp add: bit_eq_iff bit_simps) auto
  also have "\<dots> = of_nat (push_bit ?n (drop_bit ?n (unat x)))"
  proof -
    have "unat (push_bit ?n (drop_bit ?n x)) = unat (of_nat (push_bit ?n (drop_bit ?n (unat x))) :: u64)"
      by (simp only: unsigned_push_bit_eq unsigned_drop_bit_eq unsigned_of_nat take_bit_of_nat of_nat_id id_apply) (simp add: take_bit_64)
    then show ?thesis by (rule unsigned_word_eqI)
  qed
  also have "push_bit ?n (drop_bit ?n (unat x)) = align_down (page_bytes k) (unat x)"
    by (simp add: align_down_def page_bytes_def push_bit_eq_mult drop_bit_eq_div mult.commute)
  finally show ?thesis .
qed

lemma align_up_word:
  assumes "unat x + page_bytes k \<le> 2 ^ 64"
  shows "ALIGN_UP64 x (of_nat (page_bytes k)) = of_nat (align_up (page_bytes k) (unat x))"
proof -
  have "unat (x + of_nat (page_bytes k - 1)) = unat x + (page_bytes k - 1)"
  proof -
    have "page_bytes k - 1 < 2 ^ 64" "unat x + (page_bytes k - 1) < 2 ^ 64" using assms page_bytes_pos [of k] by linarith+
    then show ?thesis by (simp add: unat_word_ariths unat_of_nat del: One_nat_def)
  qed
  moreover have "x + of_nat (page_bytes k - 1) = x + of_nat (page_bytes k) - (1 :: u64)"
    using of_nat_diff [of 1 "page_bytes k", where 'a = u64] page_bytes_ge [of k] by simp
  ultimately show ?thesis
    using align_down_word [of "x + of_nat (page_bytes k - 1)" k]
    by (simp add: ALIGN_UP64_def ALIGN_DOWN64_def align_up_def align_down_def add_diff_eq)
qed

section \<open>The whole range\<close>

text \<open>The access flags of the kernel: writable, user, not executable.\<close>

definition access_ok :: "u64 \<Rightarrow> bool" where
  "access_ok fl \<longleftrightarrow> (\<forall>n. bit fl n \<longrightarrow> n = 1 \<or> n = 2 \<or> n = 63)"

lemma flag_bits:
  "bit PM_COMMON_PRESENT n \<longleftrightarrow> n = 0" "bit PM_COMMON_PWT n \<longleftrightarrow> n = 3" "bit PM_COMMON_PCD n \<longleftrightarrow> n = 4"
  "bit PT_PAT n \<longleftrightarrow> n = 7" "bit PDXX_COMMON_PAT n \<longleftrightarrow> n = 12"
  by (auto simp: PM_COMMON_PRESENT_def PM_COMMON_PWT_def PM_COMMON_PCD_def PT_PAT_def PDXX_COMMON_PAT_def
        bit_push_bit_iff bit_1_iff simp del: push_bit_of_1)

lemma cache_flags_ok:
  assumes "access_ok acc" "w \<le> 52" "cache_flags ct (acc OR PM_COMMON_PRESENT) = (fp, fx)"
  shows "flags_ok w 0 fp" "flags_ok w 1 fx" "flags_ok w 2 fx"
proof -
  have a: "bit acc n \<Longrightarrow> n < 12 \<or> n = 63" for n using assms(1) by (auto simp: access_ok_def)
  have b: "bit fp n \<Longrightarrow> n < 12 \<or> n = 63" "bit fx n \<Longrightarrow> n < 21 \<or> n = 63" for n
    using a [of n] assms(3) by (cases ct; auto simp: bit_or_iff flag_bits)+
  have p: "present fp" "present fx" using assms(3) by (cases ct; auto simp: present_bit bit_or_iff flag_bits)+
  have z: "f AND (mask w AND NOT (offset_mask k)) = 0" if "\<And>n. bit f n \<Longrightarrow> n < 12 + 9 * k \<or> n = 63" for f :: u64 and k
  proof (rule bit_eqI)
    fix n assume "possible_bit TYPE(64 word) n"
    show "bit (f AND (mask w AND NOT (offset_mask k))) n = bit (0 :: u64) n"
      using that [of n] assms(2) by (auto simp: bit_and_iff bit_not_iff bit_mask_iff offset_mask_def)
  qed
  show "flags_ok w 0 fp" "flags_ok w 1 fx" "flags_ok w 2 fx"
    using p z [of fp 0] z [of fx 1] z [of fx 2] b(1,2) by (fastforce simp: flags_ok_def)+
qed

text \<open>The five loops meet at pages of the right alignment.\<close>

lemma linear_steps:
  fixes p e :: nat
  defines "P1 \<equiv> page_bytes 1" and "P2 \<equiv> page_bytes 2"
  assumes al: "page_bytes 0 dvd p" "page_bytes 0 dvd e" "p \<le> e"
  defines "t1 \<equiv> min (align_up P1 p) e"
  defines "x1 \<equiv> max p t1"
  defines "t2 \<equiv> min (align_up P2 x1) (align_down P1 e)"
  defines "x2 \<equiv> max x1 t2"
  defines "x3 \<equiv> max x2 (align_down P2 e)"
  defines "x4 \<equiv> max x3 (align_down P1 e)"
  shows "page_bytes 0 dvd t1" "t1 \<le> e" "x1 \<le> e" "P1 dvd t2" "t2 \<le> e" "x1 < t2 \<Longrightarrow> P1 dvd x1" "x2 \<le> e"
    "x2 < align_down P2 e \<Longrightarrow> P2 dvd x2" "x3 \<le> e" "x3 < align_down P1 e \<Longrightarrow> P1 dvd x3" "x4 \<le> e" "page_bytes 0 dvd x4" "max x4 e = e"
proof -
  have d: "page_bytes 0 dvd P1" "P1 dvd P2" "0 < P1" "0 < P2" unfolding P1_def P2_def using page_bytes_dvd by simp_all
  have up: "p \<le> align_up P1 p" "x1 \<le> align_up P2 x1" using align_up_ge d by simp_all
  have dn: "align_down P1 e \<le> e" "align_down P2 e \<le> e" by (simp_all add: align_down_le)
  have dv: "page_bytes 0 dvd align_up P1 p" "P1 dvd align_up P2 x1" "P1 dvd align_down P2 e"
    using d dvd_trans [OF d(1) align_dvd(2) [of P1 p]] dvd_trans [OF d(2) align_dvd(2) [of P2 x1]] dvd_trans [OF d(2) align_dvd(1) [of P2 e]] by simp_all
  show t1: "page_bytes 0 dvd t1" "t1 \<le> e" using dv al by (auto simp: t1_def min_def)
  show x1: "x1 \<le> e" using t1 al by (simp add: x1_def)
  show t2: "P1 dvd t2" "t2 \<le> e" using dv dn by (auto simp: t2_def min_def)
  show x1d: "P1 dvd x1" if "x1 < t2" using that t2 up(1) al(3) by (auto simp: x1_def t1_def max_def min_def split: if_splits)
  show x2: "x2 \<le> e" using x1 t2 by (simp add: x2_def)
  show "P2 dvd x2" if "x2 < align_down P2 e"
  proof -
    have "x1 < align_down P2 e" using that by (simp add: x2_def)
    then have "align_up P2 x1 \<le> align_down P2 e" using align_up_least [of P2 "align_down P2 e" x1] d by simp
    moreover have "align_down P2 e \<le> align_down P1 e" using align_down_greatest [of P1 "align_down P2 e" e] dv dn by simp
    ultimately have "t2 = align_up P2 x1" by (simp add: t2_def)
    then show ?thesis using up(2) by (simp add: x2_def max_def)
  qed
  show x3: "x3 \<le> e" using x2 dn by (simp add: x3_def)
  show "P1 dvd x3" if "x3 < align_down P1 e"
  proof -
    have "x1 < e" using that dn by (simp add: x3_def x2_def)
    then have "P1 dvd x1" using up(1) al(3) by (auto simp: x1_def t1_def max_def min_def split: if_splits)
    then show ?thesis using t2 dv by (auto simp: x3_def x2_def max_def)
  qed
  show x4: "x4 \<le> e" using x3 dn by (simp add: x4_def)
  have "page_bytes 0 dvd x1" using al t1 by (simp add: x1_def max_def)
  moreover have "page_bytes 0 dvd t2" "page_bytes 0 dvd align_down P2 e" "page_bytes 0 dvd align_down P1 e"
    using dvd_trans [OF d(1)] t2(1) dv(3) align_dvd(1) [of P1 e] by simp_all
  ultimately show "page_bytes 0 dvd x4" by (simp add: x4_def x3_def x2_def max_def)
  show "max x4 e = e" using x4 by simp
qed

lemma page_words:
  "(0x1000 :: u64) = of_nat (page_bytes 0)" "(0x200000 :: u64) = of_nat (page_bytes 1)" "(0x40000000 :: u64) = of_nat (page_bytes 2)"
  by (simp_all add: page_bytes_def)

lemma min_of_nat: "x < 2 ^ 64 \<Longrightarrow> y < 2 ^ 64 \<Longrightarrow> min (of_nat x) (of_nat y) = (of_nat (min x y) :: u64)"
  by (simp add: min_def word_le_nat_alt unat_of_nat)

lemma map_fns:
  "mmu_map_single_page_4k = map_fn 0" "mmu_map_single_page_2m = map_fn 1" "mmu_map_single_page_1g = map_fn 2"
  by (simp_all add: map_fn_def)

text \<open>The bounds of the loops, as numbers.\<close>

lemma linear_targets:
  assumes "p + 2 ^ 30 < 2 ^ 64" "e < 2 ^ 64" "page_bytes 0 dvd e"
  shows "ALIGN_DOWN64 (of_nat e) (of_nat (page_bytes k)) = of_nat (align_down (page_bytes k) e)"
    "k \<le> 2 \<Longrightarrow> ALIGN_UP64 (of_nat p) (of_nat (page_bytes k)) = of_nat (align_up (page_bytes k) p)"
    "align_down (page_bytes 0) e = e" "k \<le> 2 \<Longrightarrow> align_up (page_bytes k) p < 2 ^ 64" "align_down (page_bytes k) e < 2 ^ 64"
proof -
  have u: "unat (of_nat e :: u64) = e" "unat (of_nat p :: u64) = p" using assms by (simp_all add: unat_of_nat)
  show "ALIGN_DOWN64 (of_nat e) (of_nat (page_bytes k)) = of_nat (align_down (page_bytes k) e)"
    using align_down_word [of "of_nat e" k] u by simp
  have k: "page_bytes k \<le> 2 ^ 30" if "k \<le> 2"
    using power_increasing [of "12 + 9 * k" 30 "2 :: nat"] that by (simp add: page_bytes_def)
  then show "k \<le> 2 \<Longrightarrow> ALIGN_UP64 (of_nat p) (of_nat (page_bytes k)) = of_nat (align_up (page_bytes k) p)"
    using align_up_word [of "of_nat p" k] u assms by simp
  show "align_down (page_bytes 0) e = e" using assms(3) by (simp add: align_down_def)
  show "align_down (page_bytes k) e < 2 ^ 64" using align_down_le [of "page_bytes k" e] assms(2) by linarith
  have "align_up (page_bytes k) p \<le> p + (page_bytes k - 1)" by (simp add: align_up_def)
  then show "k \<le> 2 \<Longrightarrow> align_up (page_bytes k) p < 2 ^ 64" using k assms(1) by linarith
qed

lemma map_range_ok:
  assumes lin: "linear_range r V p (unat sz) (DIFF vbase pbase) s0" and p: "p = unat pbase"
    and al: "pbase AND 0xfff = 0" "vbase AND 0xfff = 0" "sz AND 0xfff = 0"
    and acc: "access_ok acc" and inv: "range_inv c r V p (unat sz) s0 p s0"
  shows "\<exists>s'. mmu_map_range_linear (tab s0 r) vbase pbase sz acc ct s0 = Some s' \<and>
    range_inv c r V p (unat sz) s0 (p + unat sz) s'"
proof -
  let ?w = "unat (phys_addr_width s0)" and ?off = "DIFF vbase pbase"
  define e where "e = p + unat sz"
  have w: "?w \<le> 52" "e \<le> 2 ^ ?w" using lin by (simp_all add: linear_range_def e_def)
  have "e \<le> 2 ^ 52" using w power_increasing [of ?w 52 "2 :: nat"] by simp
  then have bound: "x + 2 ^ 30 < 2 ^ 64" "x < 2 ^ 64" if "x \<le> e" for x using that by simp_all
  have d: "page_bytes 0 dvd p" "page_bytes 0 dvd unat sz"
    using al and_offset_mask(3) [of 0] by (simp_all add: offset_masks p)
  then have de: "page_bytes 0 dvd e" "p \<le> e" by (simp_all add: e_def)
  have words: "pbase = of_nat p" "pbase + sz = of_nat e" by (simp_all add: p e_def)
  obtain fp fx where cf: "cache_flags ct (acc OR PM_COMMON_PRESENT) = (fp, fx)" by fastforce
  note fl = cache_flags_ok [OF acc w(1) cf]
  note st = linear_steps [OF d(1) de]
  note dn = linear_targets(1,3,5) [OF bound(1) [OF de(2)] bound(2) [OF order_refl] de(1)]
  have up: "ALIGN_UP64 (of_nat x) (of_nat (page_bytes k)) = of_nat (align_up (page_bytes k) x)" "align_up (page_bytes k) x < 2 ^ 64"
    if "x \<le> e" "k \<le> 2" for x k using linear_targets(2,4) [OF bound(1) [OF that(1)] bound(2) [OF order_refl] de(1) that(2)] by simp_all
  have targets: "min (ALIGN_UP64 pbase (of_nat (page_bytes 1))) (ALIGN_DOWN64 (of_nat e) (of_nat (page_bytes 0))) = of_nat (min (align_up (page_bytes 1) p) e)"
    "x \<le> e \<Longrightarrow> min (ALIGN_UP64 (of_nat x) (of_nat (page_bytes 2))) (ALIGN_DOWN64 (of_nat e) (of_nat (page_bytes 1)))
       = of_nat (min (align_up (page_bytes 2) x) (align_down (page_bytes 1) e))" for x
    using up [of p 1] up [of x 2] dn min_of_nat de(2) bound(2) words(1) by simp_all
  note loop = range_loop [OF lin _ _ _ _ _ _ _, folded e_def]
  define x1 where "x1 = max p (min (align_up (page_bytes 1) p) e)"
  define x2 where "x2 = max x1 (min (align_up (page_bytes 2) x1) (align_down (page_bytes 1) e))"
  define x3 where "x3 = max x2 (align_down (page_bytes 2) e)"
  define x4 where "x4 = max x3 (align_down (page_bytes 1) e)"
  note st = st [folded x1_def, folded x2_def, folded x3_def, folded x4_def]
  have px: "p \<le> x1" "p \<le> x2" "p \<le> x3" "p \<le> x4" by (simp_all add: x1_def x2_def x3_def x4_def le_max_iff_disj)
  define loop_k where "loop_k k fl t lo s = map_loop (\<lambda>x. map_fn k (tab s0 r) (x + ?off) x fl) (of_nat (page_bytes k)) (of_nat t) (of_nat lo) s"
    for k fl and t lo :: nat and s
  note loop = loop [folded loop_k_def]
  obtain s1 where s1: "loop_k 0 fp (min (align_up (page_bytes 1) p) e) p s0 = Some (of_nat x1, s1)" "range_inv c r V p (unat sz) s0 x1 s1"
    using loop [of 0 "min (align_up (page_bytes 1) p) e" p fp c s0] st(1,2) de d fl(1) inv unfolding x1_def by auto
  obtain s2 where s2: "loop_k 1 fx (min (align_up (page_bytes 2) x1) (align_down (page_bytes 1) e)) x1 s1 = Some (of_nat x2, s2)"
      "range_inv c r V p (unat sz) s0 x2 s2"
    using loop [of 1 "min (align_up (page_bytes 2) x1) (align_down (page_bytes 1) e)" x1 fx c s1] st(3-6) px fl(2) s1(2) unfolding x2_def by auto
  obtain s3 where s3: "loop_k 2 fx (align_down (page_bytes 2) e) x2 s2 = Some (of_nat x3, s3)" "range_inv c r V p (unat sz) s0 x3 s3"
    using loop [of 2 "align_down (page_bytes 2) e" x2 fx c s2] st(7,8) px fl(3) s2(2) align_down_le unfolding x3_def by auto
  obtain s4 where s4: "loop_k 1 fx (align_down (page_bytes 1) e) x3 s3 = Some (of_nat x4, s4)" "range_inv c r V p (unat sz) s0 x4 s4"
    using loop [of 1 "align_down (page_bytes 1) e" x3 fx c s3] st(9,10) px fl(2) s3(2) align_down_le unfolding x4_def by auto
  obtain s5 where s5: "loop_k 0 fp e x4 s4 = Some (of_nat e, s5)" "range_inv c r V p (unat sz) s0 e s5"
    using loop [of 0 e x4 fp c s4] st(11-13) px fl(1) s4(2) de by auto
  have "mmu_map_range_linear (tab s0 r) vbase pbase sz acc ct s0 = Some s5"
    unfolding mmu_map_range_linear_def page_words map_fns words(2) cf Let_def prod.case targets(1)
    using al s1(1) s2(1) s3(1) s4(1) s5(1) targets(2) [OF st(3)]
    by (simp add: loop_k_def dn flip: words(1) del: One_nat_def)
  then show ?thesis using s5(2) by (simp add: e_def)
qed

end
