(* ===== verification/Mmu_Props.thy ===== *)
theory Mmu_Props
  imports Mmu_Range Frame_Props
begin

text \<open>
  The properties of \<open>mmu.c\<close>, stated with \<open>virt2phys\<close>. The tables are described by \<open>pm_ok s T A\<close>: every
  table below the root is a frame of the machine that is labelled with its level and the addresses it
  serves, no frame serves twice, and none of them is one of the free frames \<open>A\<close> of the allocator.
\<close>

section \<open>A page map with three free frames\<close>

definition tiny_frames1 :: frame_state where
  "tiny_frames1 = snd (the (buddy_alloc 0 tiny_frames))"

definition tiny_mmu :: mmu_state where
  "tiny_mmu = \<lparr>phys_frames = tiny_frames1, pmem = (\<lambda>_. 0), hhdm_off = 0xffff800000000000, kernel_pml4 = 0xffff800000000000,
     phys_addr_width = 39, lin_addr_width = 48, lapic_addr = 0xfee00000, active_pml4 = 0\<rparr>"

lemma tiny_frames1_ok: "frames_ok tiny_frames1 {1, 2, 3}" "length (pages tiny_frames1) = 4"
proof -
  have "map_option fst (buddy_alloc 0 tiny_frames) = Some (Ref 0)" by code_simp
  then obtain s where s: "buddy_alloc 0 tiny_frames = Some (Ref 0, s)" by auto
  have "frames_ok tiny_frames {0..<4}" using tiny_rel tiny_free_set by (auto simp: frames_ok_def)
  from frames.alloc_RefD [OF this s] have "frames_ok s ({0..<4} - blk 0 0)" "length (pages s) = length (pages tiny_frames)" by blast+
  moreover have "{0..<4} - blk 0 0 = {1, 2, 3 :: nat}" by (auto simp: blk_def)
  ultimately show "frames_ok tiny_frames1 {1, 2, 3}" "length (pages tiny_frames1) = 4"
    using s by (simp_all add: tiny_frames1_def tiny_frames_def)
qed

lemma tiny_mmu_ok: "pm_ok tiny_mmu [0 \<mapsto> (4, 0)] {1, 2, 3}" "kernel_pml4 tiny_mmu = tab tiny_mmu 0" "leaf tiny_mmu (tab tiny_mmu 0) va = None"
proof -
  have z: "ent tiny_mmu n i = 0" for n i by (simp add: ent_def entry_at_def tiny_mmu_def)
  show ok: "pm_ok tiny_mmu [0 \<mapsto> (4, 0)] {1, 2, 3}"
    using tiny_frames1_ok by (auto simp: pm_ok_def layout_ok_def npages_def z) (auto simp: tiny_mmu_def)
  show "kernel_pml4 tiny_mmu = tab tiny_mmu 0" by (simp add: tiny_mmu_def tab_def faddr_def)
  show "leaf tiny_mmu (tab tiny_mmu 0) va = None"
  proof -
    have "awalk tiny_mmu 0 (Suc 3) va = None" by (simp only: awalk.simps) (simp add: z)
    then show ?thesis using leaf_awalk [OF ok, of 0 va] by simp
  qed
qed

lemma access_flags: "access_ok MAF_WRITE" "access_ok MAF_NX" "access_ok 0" "access_ok (MAF_WRITE OR MAF_NX)" "access_ok (MAF_NX OR MAF_WRITE)"
  unfolding access_ok_def MAF_WRITE_def MAF_NX_def PM_COMMON_WRITE_def PM_COMMON_NX_def bit_or_iff bit_push_bit_iff bit_1_iff by auto

section \<open>Ranges seen through \<open>virt2phys\<close>\<close>

lemma va48_add:
  assumes "va48 vbase + n \<le> 2 ^ 48" "d < n"
  shows "va48 (vbase + of_nat d) = va48 vbase + d"
proof -
  have "d < 2 ^ 64" using assms by simp
  then have "va48 (vbase + of_nat d) = (unat vbase + d) mod 2 ^ 48"
    by (simp add: va48_def unat_word_ariths unat_of_nat mod_mod_cancel)
  also have "\<dots> = (va48 vbase + d) mod 2 ^ 48" unfolding va48_def by (simp only: mod_add_left_eq)
  finally show ?thesis using assms by simp
qed

text \<open>The range has an aligned page of size class \<open>k\<close>.\<close>

definition fits :: "nat \<Rightarrow> nat \<Rightarrow> nat \<Rightarrow> bool" where
  "fits k p n \<longleftrightarrow> align_up (page_bytes k) p + page_bytes k \<le> p + n"

definition congruent :: "u64 \<Rightarrow> u64 \<Rightarrow> nat \<Rightarrow> bool" where
  "congruent vbase pbase n \<longleftrightarrow> (\<forall>k \<in> {1, 2}. fits k (unat pbase) n \<longrightarrow> unat vbase mod page_bytes k = unat pbase mod page_bytes k)"

lemma fitsI: "page_bytes k dvd q \<Longrightarrow> p \<le> q \<Longrightarrow> q + page_bytes k \<le> p + n \<Longrightarrow> fits k p n"
  using align_up_least [of "page_bytes k" q p] by (simp add: fits_def)

lemma va48_mod: "k \<le> 2 \<Longrightarrow> va48 va mod page_bytes k = unat va mod page_bytes k"
  unfolding va48_def by (rule mod_mod_cancel, unfold page_bytes_def, rule le_imp_power_dvd) simp

lemma linear_rangeI:
  assumes "unat (phys_addr_width s) \<le> 52" "unat pbase + n \<le> 2 ^ unat (phys_addr_width s)" "va48 vbase + n \<le> 2 ^ 48"
    and "pbase AND 0xfff = 0" "vbase AND 0xfff = 0" "congruent vbase pbase n" "off = vbase - pbase"
    and small: "\<And>va. va48 vbase \<le> va48 va \<Longrightarrow> va48 va < va48 vbase + n \<Longrightarrow>
      depth_of (leaf s (tab s r) va) \<noteq> 1 \<and> depth_of (leaf s (tab s r) va) \<noteq> 2"
  shows "linear_range r (va48 vbase) (unat pbase) n off s"
proof -
  have "unat vbase mod page_bytes 0 = unat pbase mod page_bytes 0"
    using assms(4,5) and_offset_mask(3) [of 0] by (simp add: offset_masks dvd_eq_mod_eq_0)
  then have "va48 vbase mod page_bytes k = unat pbase mod page_bytes k"
    if "k \<le> 2" "page_bytes k dvd q" "unat pbase \<le> q" "q + page_bytes k \<le> unat pbase + n" for k q
  proof -
    have "k \<in> {1, 2} \<or> k = 0" using that(1) by auto
    then show ?thesis using va48_mod [OF that(1)] fitsI [OF that(2-4)] assms(6) \<open>unat vbase mod page_bytes 0 = _\<close>
      by (auto simp: congruent_def)
  qed
  moreover have "va48 (of_nat x + (vbase - pbase)) = va48 vbase + (x - unat pbase)" if "unat pbase \<le> x" "x < unat pbase + n" for x
  proof -
    have "of_nat x = pbase + of_nat (x - unat pbase)" using that(1) by (simp add: of_nat_diff)
    then have e: "of_nat x + (vbase - pbase) = vbase + of_nat (x - unat pbase)" by simp
    show ?thesis unfolding e using that by (intro va48_add [OF assms(3)]) simp
  qed
  ultimately show ?thesis using assms(1,2) small unfolding linear_range_def assms(7) by blast
qed

lemma DIFF_le: "pbase \<le> vbase \<Longrightarrow> DIFF vbase pbase = vbase - pbase"
  by (simp add: DIFF_def max_def min_def)

lemma range_start:
  assumes "pm_ok s T A" "T r = Some (4, 0)" "3 * n + c \<le> 4096 * card A"
  shows "range_inv c r V p n s p s"
  using assms by (auto simp: range_inv_def)

lemma range_virt2phys:
  assumes "range_inv c r V p n s (p + n) s'" "kernel_pml4 s = tab s r"
  shows "virt2phys va s' = (if V \<le> va48 va \<and> va48 va < V + n then Some (of_nat p + of_nat (va48 va - V)) else virt2phys va s)"
proof -
  have k: "kernel_pml4 s' = tab s r" "phys_addr_width s' = phys_addr_width s" using assms by (simp_all add: range_inv_def)
  have "if V \<le> va48 va \<and> va48 va < V + n then transl s' (tab s r) va = Some (of_nat (p + (va48 va - V)))
        else leaf s' (tab s r) va = leaf s (tab s r) va" using assms(1) unfolding range_inv_def by simp
  then show ?thesis using transl_cong [OF _ k(2), of "tab s r" va] k(1) assms(2) by (auto simp: virt2phys_transl split: if_splits)
qed

text \<open>The congruence is needed: a range of 2 MiB at a 2 MiB boundary cannot be mapped to an address that is only
  page aligned, the loops do not fall back to smaller pages.\<close>

lemma range_offset_panics: "mmu_map_range_linear pml4 0xffff800000201000 0x200000 0x200000 acc ct s = None"
proof -
  obtain fp fx where cf: "cache_flags ct (acc OR PM_COMMON_PRESENT) = (fp, fx)" by fastforce
  have t: "ALIGN_UP64 0x200000 0x200000 = 0x200000" "ALIGN_DOWN64 0x400000 0x1000 = 0x400000" "ALIGN_UP64 0x200000 0x40000000 = 0x40000000"
    "ALIGN_DOWN64 0x400000 0x200000 = 0x400000" by (simp_all add: ALIGN_UP64_def ALIGN_DOWN64_def)
  have l1: "map_loop f 0x1000 0x200000 0x200000 s = Some (0x200000, s)" for f by (simp add: map_loop.simps)
  have l2: "map_loop (\<lambda>lo. mmu_map_single_page_2m pml4 (lo + 0xffff800000001000) lo fx) 0x200000 0x400000 0x200000 s = None"
    by (subst map_loop.simps) (simp add: mmu_map_single_page_2m_def)
  show ?thesis unfolding mmu_map_range_linear_def cf Let_def prod.case by (simp add: DIFF_def t l1 l2)
qed

section \<open>Properties\<close>

text \<open>C40. Mapping one page of 4 KiB succeeds when three frames are free, takes at most these for new
  tables, and changes the translation of exactly the addresses of the page: afterwards \<open>virt2phys\<close>
  sends each of them to the same offset of the physical page, and every other address to where it went before.
  Two addresses are in the same page when the 36 bits that index the four levels agree.\<close>

theorem map_4k_translates:
  assumes "pm_ok s T A" "T r = Some (4, 0)" "kernel_pml4 s = tab s r" "3 \<le> card A"
    and "pa AND 0xfff = 0" "va AND 0xfff = 0" "unat pa < 2 ^ unat (phys_addr_width s)" "unat (phys_addr_width s) \<le> 52" "access_ok acc"
    and "depth_of (leaf s (kernel_pml4 s) va) \<noteq> 1" "depth_of (leaf s (kernel_pml4 s) va) \<noteq> 2"
  shows "\<exists>s'. mmu_map_single_page_4k (kernel_pml4 s) va pa (acc OR PM_COMMON_PRESENT) s = Some s' \<and>
    (\<exists>T' A'. pm_ok s' T' A' \<and> T' r = Some (4, 0) \<and> A' \<subseteq> A \<and> card A \<le> card A' + 3) \<and>
    (\<forall>va'. virt2phys va' s' = (if same_page 0 va va' then Some (pa + (va' AND 0xfff)) else virt2phys va' s))"
proof -
  let ?fl = "acc OR PM_COMMON_PRESENT" and ?w = "unat (phys_addr_width s)"
  have fl: "flags_ok ?w 0 ?fl" using cache_flags_ok(1) [OF assms(9,8), of MCT_WRITE_BACK] by simp
  have e: "entry_of 0 pa ?fl = pa OR ?fl" by (simp add: entry_of_def)
  note eo = entry_of_ok [OF fl assms(7) _ le0, unfolded e]
  have "maps_page 0 3 va (pa OR ?fl) r s T A (mmu_map_single_page_4k (tab s r) va pa ?fl s)"
    using assms eo(1) by (intro map_4k_ok) (simp_all add: offset_masks)
  then obtain s' T' A' where s': "mmu_map_single_page_4k (tab s r) va pa ?fl s = Some s'" "pm_ok s' T' A'" "grows 3 s T A s' T' A'"
    "\<And>va'. leaf s' (tab s r) va' = (if same_page 0 va va' then Some (3, pa OR ?fl) else leaf s (tab s r) va')"
    unfolding maps_page_def by auto
  have "transl s' (tab s r) va' = (if same_page 0 va va' then Some (pa + (va' AND 0xfff)) else transl s (tab s r) va')" for va'
    using s'(3) eo(2) [where va = va'] assms(5) by (simp add: transl_def s'(4) grows_def offset_masks)
  then have "virt2phys va' s' = (if same_page 0 va va' then Some (pa + (va' AND 0xfff)) else virt2phys va' s)" for va'
    using s'(3) assms(3) by (simp add: virt2phys_transl grows_def)
  moreover have "T' r = Some (4, 0)" "A' \<subseteq> A" "card A \<le> card A' + 3" using s'(3) grows_label [OF s'(3) assms(2)] by (simp_all add: grows_def)
  ultimately show ?thesis using s'(1,2) assms(3) by auto
qed

theorem map_4k_translates_witness:
  "\<exists>s'. mmu_map_single_page_4k (kernel_pml4 tiny_mmu) 0xffff800000001000 0x1000 (MAF_WRITE OR PM_COMMON_PRESENT) tiny_mmu = Some s' \<and>
    virt2phys 0xffff800000001234 s' = Some 0x1234"
proof -
  have "unat (phys_addr_width tiny_mmu) = 39" by (simp add: tiny_mmu_def)
  then obtain s' where s': "mmu_map_single_page_4k (kernel_pml4 tiny_mmu) 0xffff800000001000 0x1000 (MAF_WRITE OR PM_COMMON_PRESENT) tiny_mmu = Some s'"
    "virt2phys 0xffff800000001234 s' = (if same_page 0 0xffff800000001000 0xffff800000001234 then Some (0x1000 + (0xffff800000001234 AND 0xfff)) else virt2phys 0xffff800000001234 tiny_mmu)"
    using map_4k_translates [OF tiny_mmu_ok(1) _ tiny_mmu_ok(2), where pa = "0x1000" and va = "0xffff800000001000" and acc = MAF_WRITE] tiny_mmu_ok(2,3) access_flags
    by (auto simp: depth_of_def)
  moreover have "same_page 0 0xffff800000001000 0xffff800000001234" by (simp add: same_page_def vpre_va48 va48_def page_bytes_def)
  ultimately show ?thesis by simp
qed

text \<open>C3. Mapping a range with the largest pages that fit. For a page-aligned range of physical
  memory within the physical address width and a page-aligned virtual range above it that does not wrap around,
  has no large page yet and agrees with the physical one modulo 2 MiB or 1 GiB whenever a page of that size fits, the five loops end, and afterwards \<open>virt2phys\<close> sends the
  address at offset \<open>d\<close> of the virtual range to offset \<open>d\<close> of the physical one for every \<open>d\<close>, and
  every other address to where it went before. Three free frames per 4 KiB are enough.\<close>

theorem map_range_linear_translates:
  assumes "pm_ok s T A" "T r = Some (4, 0)" "kernel_pml4 s = tab s r" "3 * unat sz \<le> 4096 * card A"
    and "pbase AND 0xfff = 0" "vbase AND 0xfff = 0" "sz AND 0xfff = 0" "access_ok acc"
    and "unat (phys_addr_width s) \<le> 52" "unat pbase + unat sz \<le> 2 ^ unat (phys_addr_width s)" "va48 vbase + unat sz \<le> 2 ^ 48"
    and "pbase \<le> vbase" "congruent vbase pbase (unat sz)"
    and "\<And>va. va48 vbase \<le> va48 va \<Longrightarrow> va48 va < va48 vbase + unat sz \<Longrightarrow>
      depth_of (leaf s (kernel_pml4 s) va) \<noteq> 1 \<and> depth_of (leaf s (kernel_pml4 s) va) \<noteq> 2"
  shows "\<exists>s'. mmu_map_range_linear (kernel_pml4 s) vbase pbase sz acc ct s = Some s' \<and>
    (\<exists>T' A'. pm_ok s' T' A' \<and> T' r = Some (4, 0)) \<and>
    (\<forall>va. virt2phys va s' = (if va48 vbase \<le> va48 va \<and> va48 va < va48 vbase + unat sz
       then Some (pbase + of_nat (va48 va - va48 vbase)) else virt2phys va s))"
proof -
  have lin: "linear_range r (va48 vbase) (unat pbase) (unat sz) (DIFF vbase pbase) s"
    using assms DIFF_le by (intro linear_rangeI) simp_all
  obtain s' where s': "mmu_map_range_linear (tab s r) vbase pbase sz acc ct s = Some s'"
    "range_inv 0 r (va48 vbase) (unat pbase) (unat sz) s (unat pbase + unat sz) s'"
    using map_range_ok [OF lin refl assms(5-8) range_start [OF assms(1,2), where c = 0]] assms(4) by auto
  then show ?thesis using range_virt2phys [OF s'(2) assms(3)] assms(3) by (auto simp: range_inv_def)
qed

theorem map_range_linear_translates_witness:
  "\<exists>s'. mmu_map_range_linear (kernel_pml4 tiny_mmu) 0xffff800000001000 0x1000 0x1000 MAF_WRITE MCT_WRITE_COMBINING tiny_mmu = Some s' \<and>
    virt2phys 0xffff800000001234 s' = Some 0x1234"
proof -
  have "unat (phys_addr_width tiny_mmu) = 39" by (simp add: tiny_mmu_def)
  then obtain s' where s': "mmu_map_range_linear (kernel_pml4 tiny_mmu) 0xffff800000001000 0x1000 0x1000 MAF_WRITE MCT_WRITE_COMBINING tiny_mmu = Some s'"
    "\<forall>va. virt2phys va s' = (if va48 0xffff800000001000 \<le> va48 va \<and> va48 va < va48 0xffff800000001000 + unat (0x1000 :: u64)
       then Some (0x1000 + of_nat (va48 va - va48 0xffff800000001000)) else virt2phys va tiny_mmu)"
    using map_range_linear_translates [OF tiny_mmu_ok(1) _ tiny_mmu_ok(2), where pbase = "0x1000" and vbase = "0xffff800000001000" and sz = "0x1000" and acc = MAF_WRITE and ct = MCT_WRITE_COMBINING] tiny_mmu_ok(2,3) access_flags
    by (auto simp: depth_of_def va48_def congruent_def fits_def align_up_def page_bytes_def)
  then show ?thesis by (auto simp: va48_def)
qed

end
