(* ===== verification/Mmu_Boot.thy ===== *)
theory Mmu_Boot
  imports Mmu_Props
begin

text \<open>
  The construction of the kernel page map by \<open>init_kpm\<close>. The state between two mapping operations is
  described by \<open>boot_inv\<close>: a partial function from the translated part of a virtual address to a
  physical address, which every operation extends, the addresses that may lie in large pages, and the
  frames that are left. The direct map and the kernel segments are the two parts of this function.
\<close>

section \<open>What the tables map\<close>



definition boot_inv :: "nat \<Rightarrow> u64 \<Rightarrow> u64 \<Rightarrow> nat \<Rightarrow> nat set \<Rightarrow> (nat \<rightharpoonup> nat) \<Rightarrow> mmu_state \<Rightarrow> bool" where
  "boot_inv r H W c L G s \<longleftrightarrow> (\<exists>T A. pm_ok s T A \<and> T r = Some (4, 0) \<and> 3 * c \<le> 4096 * card A) \<and>
     kernel_pml4 s = tab s r \<and> hhdm_off s = H \<and> phys_addr_width s = W \<and>
     (\<forall>va. va48 va \<notin> L \<longrightarrow> depth_of (leaf s (tab s r) va) \<noteq> 1 \<and> depth_of (leaf s (tab s r) va) \<noteq> 2) \<and>
     (\<forall>va x. G (va48 va) = Some x \<longrightarrow> transl s (tab s r) va = Some (of_nat x))"





section \<open>One range\<close>











section \<open>The direct map\<close>




section \<open>Lists of ranges\<close>


















section \<open>The root table, the local APIC and the kernel segments\<close>



lemma entry_update [simp]:
  "entry_at (s\<lparr>lapic_addr := x\<rparr>) = entry_at s" "entry_at (s\<lparr>active_pml4 := x\<rparr>) = entry_at s"
  "attempt_walk_pagemap_single_lvl a i (s\<lparr>lapic_addr := x\<rparr>) = attempt_walk_pagemap_single_lvl a i s"
  "attempt_walk_pagemap_single_lvl a i (s\<lparr>active_pml4 := x\<rparr>) = attempt_walk_pagemap_single_lvl a i s"
  by (simp_all add: entry_at_def attempt_walk_pagemap_single_lvl_def fun_eq_iff)

lemma leaf_update [simp]: "leaf (s\<lparr>lapic_addr := x\<rparr>) a va = leaf s a va" "leaf (s\<lparr>active_pml4 := y\<rparr>) a va = leaf s a va"
  unfolding leaf_def mmu_walk_table_def entry_update by (rule refl)+

lemma tab_update [simp]:
  "tab (s\<lparr>lapic_addr := x\<rparr>) = tab s" "tab (s\<lparr>active_pml4 := x\<rparr>) = tab s"
  "npages (s\<lparr>lapic_addr := x\<rparr>) = npages s" "npages (s\<lparr>active_pml4 := x\<rparr>) = npages s"
  by (simp_all add: tab_def npages_def fun_eq_iff)

lemma param_update:
  "hhdm_off (s\<lparr>lapic_addr := x\<rparr>) = hhdm_off s" "hhdm_off (s\<lparr>active_pml4 := x\<rparr>) = hhdm_off s"
  "phys_frames (s\<lparr>lapic_addr := x\<rparr>) = phys_frames s" "phys_frames (s\<lparr>active_pml4 := x\<rparr>) = phys_frames s"
  "kernel_pml4 (s\<lparr>lapic_addr := x\<rparr>) = kernel_pml4 s" "kernel_pml4 (s\<lparr>active_pml4 := x\<rparr>) = kernel_pml4 s"
  "phys_addr_width (s\<lparr>lapic_addr := x\<rparr>) = phys_addr_width s" "phys_addr_width (s\<lparr>active_pml4 := x\<rparr>) = phys_addr_width s"
  by simp_all

lemma pm_ok_update [simp]: "pm_ok (s\<lparr>lapic_addr := x\<rparr>) = pm_ok s" "pm_ok (s\<lparr>active_pml4 := x\<rparr>) = pm_ok s"
  unfolding pm_ok_def [abs_def] layout_ok_def ent_def entry_update tab_update param_update by (rule refl)+

lemma boot_update [simp]:
  "boot_inv r H W c L G (s\<lparr>lapic_addr := x\<rparr>) = boot_inv r H W c L G s"
  "boot_inv r H W c L G (s\<lparr>active_pml4 := x\<rparr>) = boot_inv r H W c L G s"
  unfolding boot_inv_def transl_def leaf_update tab_update pm_ok_update param_update by (rule refl)+









section \<open>The whole page map\<close>











section \<open>A small machine\<close>











section \<open>Properties\<close>



end
