(* ===== verification/Rb_Tree.thy ===== *)
theory Rb_Tree
  imports Linked_Lists
begin

text \<open>
  Red-black trees, \<open>kernel/src/std/rbtree.c\<close> with \<open>kernel/include/rbtree.h\<close>: nodes with parent
  pointers in a heap of cells. The cell at address 0 is the sentinel \<open>RB_NIL\<close>, which all trees share
  and whose parent the removal sets; a freed node has no cell, so using it is a fault. \<open>brk\<close> is the
  address of the next node that \<open>kmalloc\<close> returns. A data pointer is a number, and \<open>key\<close> gives the
  key it points to. A root pointer is passed and returned by value. The smaller keys are on the
  side \<open>RB_RIGHT\<close>, since the code indexes the children with the comparison.
\<close>

section \<open>Nodes\<close>

datatype rb_tree_color = RB_RED | RB_BLACK

datatype rb_tree_direction = RB_LEFT | RB_RIGHT

type_synonym rb_ptr = "nat ptr"

record rb_node =
  rb_parent :: rb_ptr
  child_left :: rb_ptr
  child_right :: rb_ptr
  rb_color :: rb_tree_color
  rb_data :: nat

record rb_heap =
  cells :: "nat \<Rightarrow> rb_node option"
  brk :: nat

definition RB_NIL :: rb_ptr where
  "RB_NIL = Ref 0"

definition sentinel :: rb_node where
  "sentinel = \<lparr>rb_parent = Null, child_left = RB_NIL, child_right = RB_NIL, rb_color = RB_BLACK, rb_data = 0\<rparr>"

definition init_root_node :: rb_ptr where
  "init_root_node = RB_NIL"

fun other :: "rb_tree_direction \<Rightarrow> rb_tree_direction" where
  "other RB_LEFT = RB_RIGHT"
| "other RB_RIGHT = RB_LEFT"

text \<open>A truth value as an index into the children.\<close>

definition side :: "bool \<Rightarrow> rb_tree_direction" where
  "side b = (if b then RB_RIGHT else RB_LEFT)"

fun child :: "rb_tree_direction \<Rightarrow> rb_node \<Rightarrow> rb_ptr" where
  "child RB_LEFT n = child_left n"
| "child RB_RIGHT n = child_right n"

fun with_child :: "rb_tree_direction \<Rightarrow> rb_ptr \<Rightarrow> rb_node \<Rightarrow> rb_node" where
  "with_child RB_LEFT p n = n\<lparr>child_left := p\<rparr>"
| "with_child RB_RIGHT p n = n\<lparr>child_right := p\<rparr>"

definition node :: "rb_heap \<Rightarrow> rb_ptr \<Rightarrow> rb_node option" where
  "node h p = (case p of Ref i \<Rightarrow> cells h i | _ \<Rightarrow> None)"

definition upd_node :: "(rb_node \<Rightarrow> rb_node) \<Rightarrow> rb_ptr \<Rightarrow> rb_heap \<Rightarrow> rb_heap option" where
  "upd_node f p h =
     (case p of Ref i \<Rightarrow> map_option (\<lambda>n. h\<lparr>cells := (cells h)(i \<mapsto> f n)\<rparr>) (cells h i) | _ \<Rightarrow> None)"

definition set_parent :: "rb_ptr \<Rightarrow> rb_ptr \<Rightarrow> rb_heap \<Rightarrow> rb_heap option" where
  "set_parent p q h = upd_node (\<lambda>n. n\<lparr>rb_parent := q\<rparr>) p h"

definition set_color :: "rb_ptr \<Rightarrow> rb_tree_color \<Rightarrow> rb_heap \<Rightarrow> rb_heap option" where
  "set_color p c h = upd_node (\<lambda>n. n\<lparr>rb_color := c\<rparr>) p h"

definition set_child :: "rb_ptr \<Rightarrow> rb_tree_direction \<Rightarrow> rb_ptr \<Rightarrow> rb_heap \<Rightarrow> rb_heap option" where
  "set_child p d q h = upd_node (with_child d q) p h"

definition parent_of :: "rb_heap \<Rightarrow> rb_ptr \<Rightarrow> rb_ptr option" where
  "parent_of h p = map_option rb_parent (node h p)"

definition color_of :: "rb_heap \<Rightarrow> rb_ptr \<Rightarrow> rb_tree_color option" where
  "color_of h p = map_option rb_color (node h p)"

definition child_of :: "rb_heap \<Rightarrow> rb_ptr \<Rightarrow> rb_tree_direction \<Rightarrow> rb_ptr option" where
  "child_of h p d = map_option (child d) (node h p)"

definition new_node :: "nat \<Rightarrow> rb_ptr \<Rightarrow> rb_heap \<Rightarrow> rb_ptr \<times> rb_heap" where
  "new_node d parent h =
     (Ref (brk h), h\<lparr>cells := (cells h)(brk h \<mapsto>
        \<lparr>rb_parent = parent, child_left = RB_NIL, child_right = RB_NIL, rb_color = RB_RED, rb_data = d\<rparr>), brk := Suc (brk h)\<rparr>)"

definition free_node :: "rb_ptr \<Rightarrow> rb_heap \<Rightarrow> rb_heap option" where
  "free_node p h = (case p of Ref i \<Rightarrow> if cells h i \<noteq> None then Some (h\<lparr>cells := (cells h)(i := None)\<rparr>) else None | _ \<Rightarrow> None)"

section \<open>Rotation\<close>

definition rotate_at :: "rb_ptr \<Rightarrow> rb_tree_direction \<Rightarrow> rb_ptr \<times> rb_heap \<Rightarrow> (rb_ptr \<times> rb_heap) option" where
  "rotate_at subtree dir rh = do {
     let (root, h) = rh;
     n \<leftarrow> child_of h subtree (other dir);
     c \<leftarrow> child_of h n dir;
     h1 \<leftarrow> set_child subtree (other dir) c h;
     c1 \<leftarrow> child_of h1 n dir;
     h2 \<leftarrow> (if c1 \<noteq> RB_NIL then set_parent c1 subtree h1 else Some h1);
     p \<leftarrow> parent_of h2 subtree;
     h3 \<leftarrow> (if n \<noteq> RB_NIL then set_parent n p h2 else Some h2);
     (root', h4) \<leftarrow>
       (if p \<noteq> Null then do {
          pc \<leftarrow> child_of h3 p dir;
          h' \<leftarrow> set_child p (if subtree = pc then dir else other dir) n h3;
          Some (root, h')
        } else Some (n, h3));
     h5 \<leftarrow> set_child n dir subtree h4;
     h6 \<leftarrow> (if subtree \<noteq> RB_NIL then set_parent subtree n h5 else Some h5);
     Some (root', h6)
   }"

section \<open>Insertion\<close>

text \<open>One round of the loop of \<open>_insert_fixup\<close>, for a node whose parent is red: the node to go on with.\<close>

definition insert_round :: "rb_ptr \<Rightarrow> rb_ptr \<times> rb_heap \<Rightarrow> (rb_ptr \<times> rb_ptr \<times> rb_heap) option" where
  "insert_round nd rh = do {
     let (root, h) = rh;
     p \<leftarrow> parent_of h nd;
     g \<leftarrow> parent_of h p;
     l \<leftarrow> child_of h g RB_LEFT;
     let dir = side (p = l);
     n \<leftarrow> child_of h g dir;
     cn \<leftarrow> color_of h n;
     if cn = RB_RED then do {
       h1 \<leftarrow> set_color p RB_BLACK h;
       h2 \<leftarrow> set_color n RB_BLACK h1;
       h3 \<leftarrow> set_color g RB_RED h2;
       Some (g, root, h3)
     } else do {
       pc \<leftarrow> child_of h p dir;
       (nd1, root1, h1) \<leftarrow>
         (if nd = pc then map_option (\<lambda>rh. (p, rh)) (rotate_at p (other dir) (root, h)) else Some (nd, root, h));
       p1 \<leftarrow> parent_of h1 nd1;
       h2 \<leftarrow> set_color p1 RB_BLACK h1;
       g1 \<leftarrow> parent_of h2 p1;
       h3 \<leftarrow> set_color g1 RB_RED h2;
       (root2, h4) \<leftarrow> rotate_at g1 dir (root1, h3);
       Some (nd1, root2, h4)
     }
   }"

text \<open>Whether the loop goes on: the node is not the root and its parent is red.\<close>

definition red_parent :: "rb_ptr \<Rightarrow> rb_ptr \<Rightarrow> rb_heap \<Rightarrow> bool option" where
  "red_parent nd root h =
     (if nd = root then Some False
      else do { p \<leftarrow> parent_of h nd; c \<leftarrow> color_of h p; Some (c = RB_RED) })"

partial_function (option) insert_loop :: "rb_ptr \<Rightarrow> rb_ptr \<Rightarrow> rb_heap \<Rightarrow> (rb_ptr \<times> rb_heap) option" where
  "insert_loop nd root h =
     Option.bind (red_parent nd root h)
       (\<lambda>go. if go then Option.bind (insert_round nd (root, h)) (\<lambda>(nd', root', h'). insert_loop nd' root' h')
             else Some (root, h))"

definition insert_fixup :: "rb_ptr \<Rightarrow> rb_ptr \<Rightarrow> rb_heap \<Rightarrow> (rb_ptr \<times> rb_heap) option" where
  "insert_fixup root nd h = do {
     (root', h1) \<leftarrow> insert_loop nd root h;
     h2 \<leftarrow> set_color root' RB_BLACK h1;
     Some (root', h2)
   }"

text \<open>The search for the place of a key: the data of the node with that key (\<open>Inl\<close>), or the parent for a
  new node (\<open>Inr\<close>).\<close>

partial_function (option) insert_pos :: "(nat \<Rightarrow> u64) \<Rightarrow> u64 \<Rightarrow> rb_ptr \<Rightarrow> rb_ptr \<Rightarrow> rb_heap \<Rightarrow> (nat + rb_ptr) option" where
  "insert_pos key k nd parent h =
     (if nd \<noteq> RB_NIL
      then Option.bind (node h nd)
             (\<lambda>n. if key (rb_data n) = k then Some (Inl (rb_data n))
                  else insert_pos key k (child (side (k < key (rb_data n))) n) nd h)
      else Some (Inr parent))"

text \<open>\<open>tree_insert\<close>: the data already stored under the key, if any, the root and the heap.\<close>

definition tree_insert :: "(nat \<Rightarrow> u64) \<Rightarrow> nat \<Rightarrow> rb_ptr \<Rightarrow> rb_heap \<Rightarrow> (nat option \<times> rb_ptr \<times> rb_heap) option" where
  "tree_insert key d root h = do {
     pos \<leftarrow> insert_pos key (key d) root Null h;
     (case pos of
        Inl dup \<Rightarrow> Some (Some dup, root, h)
      | Inr parent \<Rightarrow> do {
          let (head, h1) = new_node d parent h;
          (root1, h2) \<leftarrow>
            (if parent \<noteq> Null then do {
               pn \<leftarrow> node h1 parent;
               h' \<leftarrow> set_child parent (side (key d < key (rb_data pn))) head h1;
               Some (root, h')
             } else Some (head, h1));
          (root2, h3) \<leftarrow> insert_fixup root1 head h2;
          Some (None, root2, h3)
        })
   }"

section \<open>Removal\<close>

definition remove_round :: "rb_ptr \<Rightarrow> rb_ptr \<times> rb_heap \<Rightarrow> (rb_ptr \<times> rb_ptr \<times> rb_heap) option" where
  "remove_round nd rh = do {
     let (root, h) = rh;
     p \<leftarrow> parent_of h nd;
     l \<leftarrow> child_of h p RB_LEFT;
     let dir = side (nd = l);
     sib0 \<leftarrow> child_of h p dir;
     c0 \<leftarrow> color_of h sib0;
     (sib, root1, h1) \<leftarrow>
       (if c0 = RB_RED then do {
          ha \<leftarrow> set_color sib0 RB_BLACK h;
          pa \<leftarrow> parent_of ha nd;
          hb \<leftarrow> set_color pa RB_RED ha;
          (r, hc) \<leftarrow> rotate_at pa (other dir) (root, hb);
          pb \<leftarrow> parent_of hc nd;
          sb \<leftarrow> child_of hc pb dir;
          Some (sb, r, hc)
        } else Some (sib0, root, h));
     near \<leftarrow> child_of h1 sib (other dir);
     far \<leftarrow> child_of h1 sib dir;
     cnear \<leftarrow> color_of h1 near;
     cfar \<leftarrow> color_of h1 far;
     if cnear = RB_BLACK \<and> cfar = RB_BLACK then do {
       h2 \<leftarrow> set_color sib RB_RED h1;
       p2 \<leftarrow> parent_of h2 nd;
       Some (p2, root1, h2)
     } else do {
       (sib2, root2, h2) \<leftarrow>
         (if cfar = RB_BLACK then do {
            ha \<leftarrow> set_color near RB_BLACK h1;
            hb \<leftarrow> set_color sib RB_RED ha;
            (r, hc) \<leftarrow> rotate_at sib dir (root1, hb);
            pc \<leftarrow> parent_of hc nd;
            sc \<leftarrow> child_of hc pc dir;
            Some (sc, r, hc)
          } else Some (sib, root1, h1));
       p2 \<leftarrow> parent_of h2 nd;
       cp \<leftarrow> color_of h2 p2;
       h3 \<leftarrow> set_color sib2 cp h2;
       h4 \<leftarrow> set_color p2 RB_BLACK h3;
       far2 \<leftarrow> child_of h4 sib2 dir;
       h5 \<leftarrow> set_color far2 RB_BLACK h4;
       (root3, h6) \<leftarrow> rotate_at p2 (other dir) (root2, h5);
       Some (root3, root3, h6)
     }
   }"

definition black_below :: "rb_ptr \<Rightarrow> rb_ptr \<Rightarrow> rb_heap \<Rightarrow> bool option" where
  "black_below nd root h =
     (if nd = root then Some False else map_option (\<lambda>c. c = RB_BLACK) (color_of h nd))"

partial_function (option) remove_loop :: "rb_ptr \<Rightarrow> rb_ptr \<Rightarrow> rb_heap \<Rightarrow> (rb_ptr \<times> rb_ptr \<times> rb_heap) option" where
  "remove_loop nd root h =
     Option.bind (black_below nd root h)
       (\<lambda>go. if go then Option.bind (remove_round nd (root, h)) (\<lambda>(nd', root', h'). remove_loop nd' root' h')
             else Some (nd, root, h))"

definition remove_fixup :: "rb_ptr \<Rightarrow> rb_ptr \<Rightarrow> rb_heap \<Rightarrow> (rb_ptr \<times> rb_heap) option" where
  "remove_fixup root nd h = do {
     (nd', root', h1) \<leftarrow> remove_loop nd root h;
     h2 \<leftarrow> set_color nd' RB_BLACK h1;
     Some (root', h2)
   }"

section \<open>Search\<close>

partial_function (option) find_node :: "(nat \<Rightarrow> u64) \<Rightarrow> rb_ptr \<Rightarrow> u64 \<Rightarrow> rb_heap \<Rightarrow> rb_ptr option" where
  "find_node key root k h =
     (if root \<noteq> RB_NIL
      then Option.bind (node h root)
             (\<lambda>n. if key (rb_data n) = k then Some root
                  else find_node key (child (side (k < key (rb_data n))) n) k h)
      else Some Null)"

partial_function (option) leftmost :: "rb_ptr \<Rightarrow> rb_heap \<Rightarrow> rb_ptr option" where
  "leftmost x h =
     Option.bind (child_of h x RB_LEFT) (\<lambda>c. if c \<noteq> RB_NIL then leftmost c h else Some x)"

text \<open>\<open>tree_remove\<close>: the removed data, if the key was present, the root and the heap.\<close>

definition tree_remove :: "(nat \<Rightarrow> u64) \<Rightarrow> u64 \<Rightarrow> rb_ptr \<Rightarrow> rb_heap \<Rightarrow> (nat option \<times> rb_ptr \<times> rb_heap) option" where
  "tree_remove key k root h = do {
     n \<leftarrow> find_node key root k h;
     if n = Null \<or> n = RB_NIL then Some (None, root, h)
     else do {
       nn \<leftarrow> node h n;
       let out = rb_data nn;
       x \<leftarrow> (if child_left nn = RB_NIL \<or> child_right nn = RB_NIL then Some n else leftmost (child_right nn) h);
       xn \<leftarrow> node h x;
       let nd = child (side (child_left xn = RB_NIL)) xn;
       h1 \<leftarrow> set_parent nd (rb_parent xn) h;
       xp \<leftarrow> parent_of h1 x;
       (root1, h2) \<leftarrow>
         (if xp \<noteq> Null then do {
            l \<leftarrow> child_of h1 xp RB_LEFT;
            h' \<leftarrow> set_child xp (side (x \<noteq> l)) nd h1;
            Some (root, h')
          } else Some (nd, h1));
       xd \<leftarrow> map_option rb_data (node h2 x);
       h3 \<leftarrow> (if x \<noteq> n then upd_node (\<lambda>m. m\<lparr>rb_data := xd\<rparr>) n h2 else Some h2);
       xc \<leftarrow> color_of h3 x;
       (root2, h4) \<leftarrow> (if xc = RB_BLACK then remove_fixup root1 nd h3 else Some (root1, h3));
       h5 \<leftarrow> free_node x h4;
       Some (Some out, root2, h5)
     }
   }"

definition tree_find :: "(nat \<Rightarrow> u64) \<Rightarrow> rb_ptr \<Rightarrow> u64 \<Rightarrow> rb_heap \<Rightarrow> nat option option" where
  "tree_find key root k h = do {
     r \<leftarrow> find_node key root k h;
     if r \<noteq> Null then map_option (\<lambda>n. Some (rb_data n)) (node h r) else Some None
   }"

definition tree_set_data_at :: "(nat \<Rightarrow> u64) \<Rightarrow> rb_ptr \<Rightarrow> u64 \<Rightarrow> nat \<Rightarrow> rb_heap \<Rightarrow> rb_heap option" where
  "tree_set_data_at key root k d h = do {
     found \<leftarrow> find_node key root k h;
     kassert (k = key d);
     upd_node (\<lambda>n. n\<lparr>rb_data := d\<rparr>) found h
   }"

end
