(* ===== verification/Path_Cache.thy ===== *)
theory Path_Cache
  imports Rb_Tree C_Strings
begin

text \<open>
  The path name cache, \<open>kernel/src/fs/pathncache.c\<close>: every cached directory entry has a red-black tree
  of its children, keyed by the hash of their names; entries with equal hashes form a doubly
  linked bucket behind the entry in the tree. An entry is a cell at an address, which is the data
  pointer stored in the tree; a freed entry has no cell. A path section is the list of its \<open>len\<close>
  bytes, so its length is \<open>len\<close>; \<open>strn_copy\<close> and \<open>strn_eq\<close> are \<open>strncpy\<close> and the comparison
  \<open>!strncmp\<close> on such lists. Log output is left out.
\<close>

section \<open>Data\<close>

record pnc_entry =
  pnc_key :: u64
  entries_root :: rb_ptr
  pnc_parent :: "nat ptr"
  pnc_next :: "nat ptr"
  pnc_prev :: "nat ptr"
  pnc_vnode :: "nat ptr"
  name_len :: nat
  path_section :: "u8 list"

record pnc_store =
  rb :: rb_heap
  pnc_cells :: "nat \<Rightarrow> pnc_entry option"
  pnc_brk :: nat

definition strn_copy :: "u8 list \<Rightarrow> u8 list" where
  "strn_copy s = takeWhile (\<lambda>c. c \<noteq> 0) s @ replicate (length (dropWhile (\<lambda>c. c \<noteq> 0) s)) 0"

fun strn_eq :: "u8 list \<Rightarrow> u8 list \<Rightarrow> bool" where
  "strn_eq (a # as) (b # bs) \<longleftrightarrow> a = b \<and> (a = 0 \<or> strn_eq as bs)"
| "strn_eq as bs \<longleftrightarrow> True"

text \<open>\<open>pathn_hash\<close>: a character is signed, so bytes from 128 on count as negative.\<close>

definition pathn_hash :: "u8 list \<Rightarrow> u64" where
  "pathn_hash str = fold (\<lambda>c hash. hash * 33 + scast c) str 5381"

definition pnc :: "nat ptr \<Rightarrow> pnc_store \<Rightarrow> pnc_entry option" where
  "pnc p st = (case p of Ref i \<Rightarrow> pnc_cells st i | _ \<Rightarrow> None)"

definition upd_pnc :: "(pnc_entry \<Rightarrow> pnc_entry) \<Rightarrow> nat ptr \<Rightarrow> pnc_store \<Rightarrow> pnc_store option" where
  "upd_pnc f p st =
     (case p of Ref i \<Rightarrow> map_option (\<lambda>e. st\<lparr>pnc_cells := (pnc_cells st)(i \<mapsto> f e)\<rparr>) (pnc_cells st i) | _ \<Rightarrow> None)"

text \<open>The key behind a data pointer of the tree.\<close>

definition tree_key :: "pnc_store \<Rightarrow> nat \<Rightarrow> u64" where
  "tree_key st d = (case pnc_cells st d of None \<Rightarrow> 0 | Some e \<Rightarrow> pnc_key e)"

section \<open>Operations\<close>

definition new_pnc_entry :: "nat ptr \<Rightarrow> nat ptr \<Rightarrow> u8 list \<Rightarrow> u64 \<Rightarrow> pnc_store \<Rightarrow> nat \<times> pnc_store" where
  "new_pnc_entry vnode parent pathn hash st =
     (pnc_brk st, st\<lparr>pnc_cells := (pnc_cells st)(pnc_brk st \<mapsto>
        \<lparr>pnc_key = hash, entries_root = init_root_node, pnc_parent = parent, pnc_next = Null, pnc_prev = Null,
         pnc_vnode = vnode, name_len = length pathn, path_section = strn_copy pathn\<rparr>), pnc_brk := Suc (pnc_brk st)\<rparr>)"

definition same_section :: "u8 list \<Rightarrow> pnc_entry \<Rightarrow> bool" where
  "same_section section e \<longleftrightarrow> length section = name_len e \<and> strn_eq section (path_section e)"

partial_function (option) find_bucket :: "u8 list \<Rightarrow> nat ptr \<Rightarrow> pnc_store \<Rightarrow> nat ptr option" where
  "find_bucket section found st =
     Option.bind (pnc found st)
       (\<lambda>e. if same_section section e then Some found
            else if pnc_next e \<noteq> Null then find_bucket section (pnc_next e) st else Some Null)"

definition pnc_lookup_section :: "nat ptr \<Rightarrow> u8 list \<Rightarrow> pnc_store \<Rightarrow> nat ptr option" where
  "pnc_lookup_section dir section st = do {
     d \<leftarrow> pnc dir st;
     found \<leftarrow> tree_find (tree_key st) (entries_root d) (pathn_hash section) (rb st);
     (case found of None \<Rightarrow> Some Null | Some a \<Rightarrow> find_bucket section (Ref a) st)
   }"

definition pnc_add_section :: "nat ptr \<Rightarrow> nat ptr \<Rightarrow> u8 list \<Rightarrow> pnc_store \<Rightarrow> (nat ptr \<times> pnc_store) option" where
  "pnc_add_section vnode dir section st = do {
     exists \<leftarrow> pnc_lookup_section dir section st;
     if exists \<noteq> Null then Some (exists, st)
     else do {
       let (new, st1) = new_pnc_entry vnode dir section (pathn_hash section) st;
       d \<leftarrow> pnc dir st1;
       (dup, root, h) \<leftarrow> tree_insert (tree_key st1) new (entries_root d) (rb st1);
       st2 \<leftarrow> upd_pnc (\<lambda>e. e\<lparr>entries_root := root\<rparr>) dir (st1\<lparr>rb := h\<rparr>);
       (case dup of
          None \<Rightarrow> Some (Ref new, st2)
        | Some a \<Rightarrow> do {
            de \<leftarrow> pnc (Ref a) st2;
            let old_next = pnc_next de;
            st3 \<leftarrow> upd_pnc (\<lambda>e. e\<lparr>pnc_prev := Ref a, pnc_next := old_next\<rparr>) (Ref new) st2;
            st4 \<leftarrow> upd_pnc (\<lambda>e. e\<lparr>pnc_next := Ref new\<rparr>) (Ref a) st3;
            st5 \<leftarrow> (if old_next \<noteq> Null then upd_pnc (\<lambda>e. e\<lparr>pnc_prev := Ref new\<rparr>) old_next st4 else Some st4);
            Some (Ref new, st5)
          })
     }
   }"

text \<open>Eviction of an entry that shares its hash with others: the entry of the bucket that has its
  name is unlinked and returned.\<close>

definition evict_from_bucket :: "pnc_entry \<Rightarrow> pnc_store \<Rightarrow> (nat ptr \<times> pnc_store) option" where
  "evict_from_bucket ent st = do {
     dir \<leftarrow> pnc (pnc_parent ent) st;
     first \<leftarrow> tree_find (tree_key st) (entries_root dir) (pnc_key ent) (rb st);
     fa \<leftarrow> first;
     fe \<leftarrow> pnc (Ref fa) st;
     (victim, st1) \<leftarrow>
       (if same_section (path_section ent) fe then do {
          nx \<leftarrow> (case pnc_next fe of Ref i \<Rightarrow> Some i | _ \<Rightarrow> None);
          h \<leftarrow> tree_set_data_at (tree_key st) (entries_root dir) (pnc_key ent) nx (rb st);
          st' \<leftarrow> upd_pnc (\<lambda>e. e\<lparr>pnc_prev := Null\<rparr>) (Ref nx) (st\<lparr>rb := h\<rparr>);
          Some (Ref fa, st')
        } else do {
          v \<leftarrow> find_bucket (path_section ent) (Ref fa) st;
          ve \<leftarrow> pnc v st;
          sta \<leftarrow> (if pnc_prev ve \<noteq> Null then upd_pnc (\<lambda>e. e\<lparr>pnc_next := pnc_next ve\<rparr>) (pnc_prev ve) st else Some st);
          stb \<leftarrow> (if pnc_next ve \<noteq> Null then upd_pnc (\<lambda>e. e\<lparr>pnc_prev := pnc_prev ve\<rparr>) (pnc_next ve) sta else Some sta);
          Some (v, stb)
        });
     st2 \<leftarrow> upd_pnc (\<lambda>e. e\<lparr>pnc_next := Poison, pnc_prev := Poison\<rparr>) victim st1;
     Some (victim, st2)
   }"

definition pnc_evict_section :: "nat ptr \<Rightarrow> pnc_store \<Rightarrow> pnc_store option" where
  "pnc_evict_section entry st = do {
     ent \<leftarrow> pnc entry st;
     (evicted, st1) \<leftarrow>
       (if pnc_next ent \<noteq> Null \<or> pnc_prev ent \<noteq> Null then evict_from_bucket ent st
        else do {
          dir \<leftarrow> pnc (pnc_parent ent) st;
          (out, root, h) \<leftarrow> tree_remove (tree_key st) (pnc_key ent) (entries_root dir) (rb st);
          st' \<leftarrow> upd_pnc (\<lambda>e. e\<lparr>entries_root := root\<rparr>) (pnc_parent ent) (st\<lparr>rb := h\<rparr>);
          a \<leftarrow> out;
          Some (Ref a, st')
        });
     (case evicted of
        Ref a \<Rightarrow> if pnc_cells st1 a \<noteq> None then Some (st1\<lparr>pnc_cells := (pnc_cells st1)(a := None)\<rparr>) else None
      | _ \<Rightarrow> None)
   }"

end
