(* ===== verification/Ramfs.thy ===== *)
theory Ramfs
  imports Path_Cache Pathn
begin

text \<open>
  The data of the virtual file system (\<open>kernel/include/vfs.h\<close>) and the file system in memory,
  \<open>kernel/src/fs/ramfs.c\<close> with \<open>kernel/include/ramfs.h\<close>. Vnodes, file systems, ramdisks and the files
  of a ramdisk are entries of tables, since the code never frees them except by
  \<open>ramfs_destroy_fs\<close>. The contents of a file are the bytes of the block that the last write
  allocated; copying more bytes than a block or buffer has is a fault. \<open>unixtime\<close> is what
  \<open>get_unixtime\<close> returns.
\<close>

section \<open>Status codes and types\<close>

definition VFS_FS_OP_STATUS_OK :: int where
  "VFS_FS_OP_STATUS_OK = 0"

definition VFS_FS_OP_STATUS_INVALID_ARGS :: int where
  "VFS_FS_OP_STATUS_INVALID_ARGS = 1"

definition VFS_FS_OP_STATUS_MOUNTPOINT_INVALID :: int where
  "VFS_FS_OP_STATUS_MOUNTPOINT_INVALID = 2"

definition VFS_FS_OP_STATUS_ENOENT :: int where
  "VFS_FS_OP_STATUS_ENOENT = 3"

definition VFS_VN_FLAG_ROOT :: u64 where
  "VFS_VN_FLAG_ROOT = push_bit 0 1"

datatype vfs_vnode_type =
    VFS_VN_NON | VFS_VN_REG | VFS_VN_DIR | VFS_VN_BLK | VFS_VN_CHR | VFS_VN_LNK | VFS_VN_SCK | VFS_VN_BAD

datatype vfs_uio_rw_type = UIO_READ | UIO_WRITE

record vfs_uio =
  uio_buf :: "u8 list"
  uio_resid :: nat
  uio_offset :: nat
  uio :: vfs_uio_rw_type

record vfs_vattr =
  va_type :: vfs_vnode_type

record file_handle =
  cache_entry :: "nat ptr"
  fs :: "nat ptr"

definition null_handle :: file_handle where
  "null_handle = \<lparr>cache_entry = Null, fs = Null\<rparr>"

record vfs_fs =
  vfs_next :: "nat ptr"
  vfs_flag :: u64
  vfs_bsize :: nat
  vfs_root_pnc :: "nat ptr"
  vfs_covered :: file_handle
  fs_name :: string
  vfs_data :: "nat ptr"

record vfs_vnode =
  v_type :: vfs_vnode_type
  v_vfsp :: "nat ptr"
  v_vfs_mounted_here :: "nat ptr"
  v_flag :: u64
  v_refc :: nat
  v_data :: "nat ptr"

definition RAMDISK_DEVICE_SIGNATURE :: u64 where
  "RAMDISK_DEVICE_SIGNATURE = 0xa2b35253ef"

definition RAMDISK_MAX_FILENAME_LENGTH :: nat where
  "RAMDISK_MAX_FILENAME_LENGTH = 256"

datatype ramdisk_file_type = RAMD_DIR | RAMD_FILE

record ramdisk_file =
  rf_next :: "nat ptr"
  rf_prev :: "nat ptr"
  rf_type :: ramdisk_file_type
  atime :: u64
  mtime :: u64
  ctime :: u64
  btime :: u64
  rf_name :: "u8 list"
  rf_name_len :: nat
  first_subdir :: "nat ptr"
  file_contents :: "u8 list option"

record ramdisk =
  device_signature :: u64
  root_dir :: nat

record vfs_state =
  cache :: pnc_store
  vnodes :: "vfs_vnode list"
  filesystems :: "vfs_fs list"
  files :: "ramdisk_file list"
  ramdisks :: "ramdisk list"
  root_fs :: "nat ptr"
  unixtime :: u64

section \<open>Access through pointers\<close>

definition at :: "'a list \<Rightarrow> nat ptr \<Rightarrow> 'a option" where
  "at xs p = (case p of Ref i \<Rightarrow> if i < length xs then Some (xs ! i) else None | _ \<Rightarrow> None)"

definition upd_at :: "('a \<Rightarrow> 'a) \<Rightarrow> 'a list \<Rightarrow> nat ptr \<Rightarrow> 'a list option" where
  "upd_at f xs p = (case p of Ref i \<Rightarrow> if i < length xs then Some (xs[i := f (xs ! i)]) else None | _ \<Rightarrow> None)"

definition upd_fs :: "(vfs_fs \<Rightarrow> vfs_fs) \<Rightarrow> nat ptr \<Rightarrow> vfs_state \<Rightarrow> vfs_state option" where
  "upd_fs f p s = map_option (\<lambda>xs. s\<lparr>filesystems := xs\<rparr>) (upd_at f (filesystems s) p)"

definition upd_vnode :: "(vfs_vnode \<Rightarrow> vfs_vnode) \<Rightarrow> nat ptr \<Rightarrow> vfs_state \<Rightarrow> vfs_state option" where
  "upd_vnode f p s = map_option (\<lambda>xs. s\<lparr>vnodes := xs\<rparr>) (upd_at f (vnodes s) p)"

definition upd_file :: "(ramdisk_file \<Rightarrow> ramdisk_file) \<Rightarrow> nat ptr \<Rightarrow> vfs_state \<Rightarrow> vfs_state option" where
  "upd_file f p s = map_option (\<lambda>xs. s\<lparr>files := xs\<rparr>) (upd_at f (files s) p)"

text \<open>\<open>vfs_vnode_alloc\<close> of \<open>vfs.c\<close>; all vnodes use the operations of this file system.\<close>

definition vfs_vnode_alloc :: "nat ptr \<Rightarrow> u64 \<Rightarrow> vfs_vnode_type \<Rightarrow> nat ptr \<Rightarrow> vfs_state \<Rightarrow> nat ptr \<times> vfs_state" where
  "vfs_vnode_alloc owner flags type data s =
     (Ref (length (vnodes s)), s\<lparr>vnodes := vnodes s @
        [\<lparr>v_type = type, v_vfsp = owner, v_vfs_mounted_here = Null, v_flag = flags, v_refc = 0, v_data = data\<rparr>]\<rparr>)"

section \<open>Ramdisks\<close>

definition new_file :: "ramdisk_file_type \<Rightarrow> u8 list \<Rightarrow> nat \<Rightarrow> u64 \<Rightarrow> ramdisk_file" where
  "new_file type name l t =
     \<lparr>rf_next = Null, rf_prev = Null, rf_type = type, atime = t, mtime = t, ctime = t, btime = t, rf_name = name,
      rf_name_len = l, first_subdir = Null, file_contents = None\<rparr>"

definition rd_new_ramdisk :: "vfs_state \<Rightarrow> nat ptr \<times> vfs_state" where
  "rd_new_ramdisk s =
     (Ref (length (ramdisks s)),
      s\<lparr>ramdisks := ramdisks s @ [\<lparr>device_signature = RAMDISK_DEVICE_SIGNATURE, root_dir = length (files s)\<rparr>],
        files := files s @ [new_file RAMD_DIR (replicate RAMDISK_MAX_FILENAME_LENGTH 0) 0 (unixtime s)]\<rparr>)"

text \<open>\<open>pathn_buffer_n\<close> into the name buffer of a new file: the first 255 bytes are copied, and the
  terminator is written behind \<open>len\<close> bytes, which must be inside the buffer.\<close>

definition name_buffer :: "u8 list \<Rightarrow> u8 list option" where
  "name_buffer name =
     (if length name < RAMDISK_MAX_FILENAME_LENGTH
      then Some (strn_copy name @ replicate (RAMDISK_MAX_FILENAME_LENGTH - length name) 0) else None)"

definition rd_create_file :: "nat ptr \<Rightarrow> ramdisk_file_type \<Rightarrow> u8 list \<Rightarrow> vfs_state \<Rightarrow> (nat ptr \<times> vfs_state) option" where
  "rd_create_file dir type name s = do {
     d \<leftarrow> at (files s) dir;
     if rf_type d \<noteq> RAMD_DIR then Some (Null, s)
     else do {
       nm \<leftarrow> name_buffer name;
       Some (Ref (length (files s)), s\<lparr>files := files s @ [new_file type nm (length name) (unixtime s)]\<rparr>)
     }
   }"

definition ramfs_new_fs :: "vfs_state \<Rightarrow> nat ptr \<times> vfs_state" where
  "ramfs_new_fs s =
     (Ref (length (filesystems s)),
      s\<lparr>filesystems := filesystems s @ [\<lparr>vfs_next = Null, vfs_flag = 0, vfs_bsize = 0, vfs_root_pnc = Null,
         vfs_covered = null_handle, fs_name = ''ramfs'', vfs_data = Null\<rparr>]\<rparr>)"

section \<open>File system operations\<close>

definition signature_ok :: "nat ptr \<Rightarrow> vfs_state \<Rightarrow> bool option" where
  "signature_ok dsk s = map_option (\<lambda>r. device_signature r = RAMDISK_DEVICE_SIGNATURE) (at (ramdisks s) dsk)"

definition ramfs_mount :: "nat ptr \<Rightarrow> nat ptr \<Rightarrow> vfs_state \<Rightarrow> (int \<times> vfs_state) option" where
  "ramfs_mount this fs_specific s = do {
     ok \<leftarrow> signature_ok fs_specific s;
     if ok then do {
       s' \<leftarrow> upd_fs (\<lambda>f. f\<lparr>vfs_data := fs_specific\<rparr>) this s;
       Some (VFS_FS_OP_STATUS_OK, s')
     } else Some (VFS_FS_OP_STATUS_INVALID_ARGS, s)
   }"

definition ramfs_unmount :: "nat ptr \<Rightarrow> vfs_state \<Rightarrow> (int \<times> vfs_state) option" where
  "ramfs_unmount this s = do {
     f \<leftarrow> at (filesystems s) this;
     ok \<leftarrow> signature_ok (vfs_data f) s;
     if ok then do {
       s' \<leftarrow> upd_fs (\<lambda>f. f\<lparr>vfs_data := Null\<rparr>) this s;
       Some (VFS_FS_OP_STATUS_OK, s')
     } else Some (VFS_FS_OP_STATUS_INVALID_ARGS, s)
   }"

definition ramfs_root :: "nat ptr \<Rightarrow> vfs_state \<Rightarrow> (int \<times> nat ptr \<times> vfs_state) option" where
  "ramfs_root this s = do {
     f \<leftarrow> at (filesystems s) this;
     dsk \<leftarrow> at (ramdisks s) (vfs_data f);
     let (vnode, s') = vfs_vnode_alloc this VFS_VN_FLAG_ROOT VFS_VN_DIR (Ref (root_dir dsk)) s;
     Some (VFS_FS_OP_STATUS_OK, vnode, s')
   }"

definition ramfs_statfs :: "nat ptr \<Rightarrow> int" where
  "ramfs_statfs this = VFS_FS_OP_STATUS_OK"

definition ramfs_sync :: "nat ptr \<Rightarrow> int" where
  "ramfs_sync this = VFS_FS_OP_STATUS_OK"

definition ramfs_fid :: "nat ptr \<Rightarrow> nat ptr \<Rightarrow> int" where
  "ramfs_fid this file = VFS_FS_OP_STATUS_OK"

definition ramfs_vget :: "nat ptr \<Rightarrow> nat ptr \<times> int" where
  "ramfs_vget this = (Null, VFS_FS_OP_STATUS_OK)"

section \<open>Vnode operations\<close>

definition ramfs_vn_open :: "nat ptr \<Rightarrow> u64 \<Rightarrow> int" where
  "ramfs_vn_open this flags = VFS_FS_OP_STATUS_OK"

definition ramfs_vn_close :: "nat ptr \<Rightarrow> u64 \<Rightarrow> int" where
  "ramfs_vn_close this flags = VFS_FS_OP_STATUS_OK"

definition ramfs_vn_rdwr :: "nat ptr \<Rightarrow> vfs_uio \<Rightarrow> vfs_state \<Rightarrow> (int \<times> vfs_uio \<times> vfs_state) option" where
  "ramfs_vn_rdwr this uiop s = do {
     v \<leftarrow> at (vnodes s) this;
     file \<leftarrow> at (files s) (v_data v);
     (case uio uiop of
        UIO_READ \<Rightarrow> do {
          bs \<leftarrow> (if uio_resid uiop = 0 then Some [] else file_contents file);
          kassert (uio_resid uiop \<le> length bs \<and> uio_resid uiop \<le> length (uio_buf uiop));
          Some (VFS_FS_OP_STATUS_OK,
            uiop\<lparr>uio_buf := take (uio_resid uiop) bs @ drop (uio_resid uiop) (uio_buf uiop), uio_resid := 0\<rparr>, s)
        }
      | UIO_WRITE \<Rightarrow> do {
          kassert (uio_resid uiop \<le> length (uio_buf uiop));
          s' \<leftarrow> upd_file (\<lambda>f. f\<lparr>file_contents := Some (take (uio_resid uiop) (uio_buf uiop))\<rparr>) (v_data v) s;
          Some (VFS_FS_OP_STATUS_OK, uiop\<lparr>uio_resid := 0\<rparr>, s')
        })
   }"

text \<open>The conversion \<open>(enum vfs_vnode_type)file->type\<close> goes by the values of the enumerators.\<close>

fun vnode_type_of :: "ramdisk_file_type \<Rightarrow> vfs_vnode_type" where
  "vnode_type_of RAMD_DIR = VFS_VN_NON"
| "vnode_type_of RAMD_FILE = VFS_VN_REG"

partial_function (option) find_file :: "u8 list \<Rightarrow> nat ptr \<Rightarrow> vfs_state \<Rightarrow> nat ptr option" where
  "find_file pathn file s =
     (if file \<noteq> Null
      then Option.bind (at (files s) file)
             (\<lambda>f. if rf_name_len f = length pathn \<and> strn_eq pathn (rf_name f) then Some file
                  else find_file pathn (rf_next f) s)
      else Some Null)"

definition ramfs_vn_lookup :: "nat ptr \<Rightarrow> u8 list \<Rightarrow> vfs_state \<Rightarrow> (int \<times> nat ptr \<times> vfs_state) option" where
  "ramfs_vn_lookup dir pathn s = do {
     v \<leftarrow> at (vnodes s) dir;
     d \<leftarrow> at (files s) (v_data v);
     if rf_type d \<noteq> RAMD_DIR then Some (VFS_FS_OP_STATUS_INVALID_ARGS, Null, s)
     else do {
       file \<leftarrow> find_file pathn (first_subdir d) s;
       if file \<noteq> Null then do {
         f \<leftarrow> at (files s) file;
         let (vnode, s') = vfs_vnode_alloc (v_vfsp v) 0 (vnode_type_of (rf_type f)) file s;
         Some (VFS_FS_OP_STATUS_OK, vnode, s')
       } else Some (VFS_FS_OP_STATUS_ENOENT, Null, s)
     }
   }"

definition link_file :: "nat ptr \<Rightarrow> nat ptr \<Rightarrow> vfs_state \<Rightarrow> vfs_state option" where
  "link_file new rd_dir s = do {
     d \<leftarrow> at (files s) rd_dir;
     s1 \<leftarrow> upd_file (\<lambda>f. f\<lparr>rf_prev := Null, rf_next := first_subdir d\<rparr>) new s;
     s2 \<leftarrow> (if first_subdir d \<noteq> Null then upd_file (\<lambda>f. f\<lparr>rf_prev := new\<rparr>) (first_subdir d) s1 else Some s1);
     upd_file (\<lambda>f. f\<lparr>first_subdir := new\<rparr>) rd_dir s2
   }"

definition ramfs_vn_create :: "nat ptr \<Rightarrow> u8 list \<Rightarrow> vfs_vattr \<Rightarrow> vfs_state \<Rightarrow> (int \<times> nat ptr \<times> vfs_state) option" where
  "ramfs_vn_create dir filen attribs s = do {
     v \<leftarrow> at (vnodes s) dir;
     let t = (case va_type attribs of VFS_VN_DIR \<Rightarrow> Some RAMD_DIR | VFS_VN_REG \<Rightarrow> Some RAMD_FILE | _ \<Rightarrow> None);
     (case t of
        None \<Rightarrow> Some (VFS_FS_OP_STATUS_INVALID_ARGS, Null, s)
      | Some ty \<Rightarrow> do {
          (new, s1) \<leftarrow> rd_create_file (v_data v) ty filen s;
          s2 \<leftarrow> link_file new (v_data v) s1;
          owner \<leftarrow> at (filesystems s2) (v_vfsp v);
          let (result, s3) = vfs_vnode_alloc (v_vfsp v) 0 (va_type attribs) new s2;
          Some (VFS_FS_OP_STATUS_OK, result, s3)
        })
   }"

end
