(* ===== verification/Vfs.thy ===== *)
theory Vfs
  imports Ramfs
begin

text \<open>
  The virtual file system, \<open>kernel/src/fs/vfs.c\<close>: path lookup through the path name cache and over mount
  points, mounting, file creation, reading and writing, and the start-up routine \<open>vfs_init\<close>. The only
  file system of the kernel is the one of \<open>ramfs.c\<close>, so the calls through the operation tables go to
  its functions. A path is an address in a byte memory, as for the functions of \<open>pathn.c\<close>. A handle
  that is returned through a pointer is an \<open>option\<close>, with \<open>None\<close> where the function does not write
  it. Log output is left out.
\<close>

section \<open>Allocation and release of file systems\<close>

definition vfs_fs_alloc :: "u64 \<Rightarrow> nat \<Rightarrow> nat ptr \<Rightarrow> vfs_state \<Rightarrow> nat ptr \<times> vfs_state" where
  "vfs_fs_alloc flags bsize data s =
     (Ref (length (filesystems s)),
      s\<lparr>filesystems := filesystems s @ [\<lparr>vfs_next = Null, vfs_flag = flags, vfs_bsize = bsize, vfs_root_pnc = Null,
         vfs_covered = null_handle, fs_name = '''', vfs_data = data\<rparr>]\<rparr>)"

partial_function (option) vfs_free_filesystem_list :: "nat ptr \<Rightarrow> vfs_state \<Rightarrow> vfs_state option" where
  "vfs_free_filesystem_list root s =
     Option.bind (at (filesystems s) root)
       (\<lambda>f. if vfs_next f \<noteq> Null \<and> root \<noteq> Null
            then Option.bind (ramfs_unmount root s) (\<lambda>(st, s'). vfs_free_filesystem_list (vfs_next f) s')
            else Some s)"

section \<open>Lookup\<close>

definition handle_vnode :: "file_handle \<Rightarrow> vfs_state \<Rightarrow> (nat ptr \<times> vfs_vnode) option" where
  "handle_vnode hnd s = do {
     e \<leftarrow> pnc (cache_entry hnd) (cache s);
     v \<leftarrow> at (vnodes s) (pnc_vnode e);
     Some (pnc_vnode e, v)
   }"

text \<open>Following the file systems mounted on a handle.\<close>

partial_function (option) cross_mounts :: "file_handle \<Rightarrow> vfs_state \<Rightarrow> file_handle option" where
  "cross_mounts current s =
     Option.bind (handle_vnode current s)
       (\<lambda>(vp, v). if v_vfs_mounted_here v \<noteq> Null
                  then Option.bind (at (filesystems s) (v_vfs_mounted_here v))
                         (\<lambda>f. cross_mounts \<lparr>cache_entry = vfs_root_pnc f, fs = v_vfs_mounted_here v\<rparr> s)
                  else Some current)"

text \<open>One section of a path below the handle \<open>dirh\<close>: a status, the handle for status 0, and the state.\<close>

definition lookup_section :: "file_handle \<Rightarrow> u8 list \<Rightarrow> vfs_state \<Rightarrow> (int \<times> file_handle \<times> vfs_state) option" where
  "lookup_section dirh section s = do {
     cached \<leftarrow> pnc_lookup_section (cache_entry dirh) section (cache s);
     if cached \<noteq> Null then do {
       (vp, v) \<leftarrow> handle_vnode (dirh\<lparr>cache_entry := cached\<rparr>) s;
       Some (0, \<lparr>cache_entry = cached, fs = v_vfsp v\<rparr>, s)
     } else do {
       (dp, dv) \<leftarrow> handle_vnode dirh s;
       (state, vn, s1) \<leftarrow> ramfs_vn_lookup dp section s;
       if state \<noteq> 0 then Some (state, null_handle, s1)
       else do {
         (entry, st) \<leftarrow> pnc_add_section vn (cache_entry dirh) section (cache s1);
         v \<leftarrow> at (vnodes s1) vn;
         Some (0, \<lparr>cache_entry = entry, fs = v_vfsp v\<rparr>, s1\<lparr>cache := st\<rparr>)
       }
     }
   }"

partial_function (option) lookup_sections ::
  "memory \<Rightarrow> nat \<Rightarrow> nat \<Rightarrow> file_handle \<Rightarrow> vfs_state \<Rightarrow> (int \<times> file_handle \<times> vfs_state) option" where
  "lookup_sections m section l current s =
     Option.bind (split_path m (Some (section + l)) l)
       (\<lambda>(next, l').
          case next of
            None \<Rightarrow> Some (0, current, s)
          | Some section' \<Rightarrow>
              Option.bind (cross_mounts current s)
                (\<lambda>dirh. Option.bind (lookup_section dirh (bytes_at m section' l') s)
                   (\<lambda>(state, current', s').
                      if state \<noteq> 0 then Some (state, current', s')
                      else lookup_sections m section' l' current' s')))"

definition vfs_lookup :: "file_handle \<Rightarrow> memory \<Rightarrow> nat \<Rightarrow> vfs_state \<Rightarrow> (int \<times> file_handle option \<times> vfs_state) option" where
  "vfs_lookup start m path s = do {
     absolute \<leftarrow> path_is_root m path;
     current0 \<leftarrow> (if absolute then do {
                    f \<leftarrow> at (filesystems s) (root_fs s);
                    Some \<lparr>cache_entry = vfs_root_pnc f, fs = root_fs s\<rparr>
                  } else do {
                    kassert (cache_entry start \<noteq> Null \<and> fs start \<noteq> Null);
                    Some start
                  });
     current1 \<leftarrow> cross_mounts current0 s;
     (state, current, s1) \<leftarrow> lookup_sections m path 0 current1 s;
     if state \<noteq> 0 then Some (state, Some null_handle, s1)
     else do {
       l \<leftarrow> strlen m path;
       kassert (path + l \<noteq> 0);
       c \<leftarrow> rd m (path + l - 1);
       (vp, v) \<leftarrow> handle_vnode current s1;
       if c = SEPERATOR \<and> v_type v \<noteq> VFS_VN_DIR then Some (VFS_FS_OP_STATUS_ENOENT, None, s1)
       else Some (VFS_FS_OP_STATUS_OK, Some current, s1)
     }
   }"

section \<open>Mounting\<close>

definition slash :: "u8 list" where
  "slash = [47]"

definition mount_root_entry :: "nat ptr \<Rightarrow> u8 list \<Rightarrow> vfs_state \<Rightarrow> vfs_state option" where
  "mount_root_entry f name s = do {
     (st, vn, s1) \<leftarrow> ramfs_root f s;
     let (e, c) = new_pnc_entry vn Null name (pathn_hash slash) (cache s1);
     upd_fs (\<lambda>x. x\<lparr>vfs_root_pnc := Ref e\<rparr>) f (s1\<lparr>cache := c\<rparr>)
   }"

definition vfs_mount_root :: "nat ptr \<Rightarrow> nat ptr \<Rightarrow> vfs_state \<Rightarrow> (int \<times> vfs_state) option" where
  "vfs_mount_root f fs_specific s = do {
     kassert (root_fs s = Null);
     (state, s1) \<leftarrow> ramfs_mount f fs_specific s;
     if state \<noteq> 0 then Some (state, s1)
     else do {
       s2 \<leftarrow> mount_root_entry f slash (s1\<lparr>root_fs := f\<rparr>);
       Some (VFS_FS_OP_STATUS_OK, s2)
     }
   }"

definition vfs_mount :: "nat ptr \<Rightarrow> file_handle \<Rightarrow> nat ptr \<Rightarrow> vfs_state \<Rightarrow> (int \<times> vfs_state) option" where
  "vfs_mount f mountpoint fs_specific s =
     (if root_fs s = Null then Some (VFS_FS_OP_STATUS_MOUNTPOINT_INVALID, s)
      else do {
        rf \<leftarrow> at (filesystems s) (root_fs s);
        if vfs_root_pnc rf = Null then Some (VFS_FS_OP_STATUS_MOUNTPOINT_INVALID, s)
        else do {
          (state, s1) \<leftarrow> ramfs_mount f fs_specific s;
          if state \<noteq> 0 then Some (state, s1)
          else do {
            e \<leftarrow> pnc (cache_entry mountpoint) (cache s1);
            s2 \<leftarrow> upd_vnode (\<lambda>v. v\<lparr>v_vfs_mounted_here := f\<rparr>) (pnc_vnode e) s1;
            s3 \<leftarrow> upd_fs (\<lambda>x. x\<lparr>vfs_covered := \<lparr>cache_entry = cache_entry mountpoint, fs = f\<rparr>\<rparr>) f s2;
            s4 \<leftarrow> mount_root_entry f (path_section e) s3;
            Some (VFS_FS_OP_STATUS_OK, s4)
          }
        }
      })"

section \<open>Files\<close>

definition vfs_create :: "file_handle \<Rightarrow> u8 list \<Rightarrow> vfs_vattr \<Rightarrow> vfs_state \<Rightarrow> (int \<times> file_handle option \<times> vfs_state) option" where
  "vfs_create dir name attribs s = do {
     (vp, v) \<leftarrow> handle_vnode dir s;
     if v_type v \<noteq> VFS_VN_DIR then Some (VFS_FS_OP_STATUS_INVALID_ARGS, None, s)
     else do {
       (state, out_vn, s1) \<leftarrow> ramfs_vn_create vp name attribs s;
       if state \<noteq> 0 then Some (state, None, s1)
       else do {
         (entry, st) \<leftarrow> pnc_add_section out_vn (cache_entry dir) name (cache s1);
         let s2 = s1\<lparr>cache := st\<rparr>;
         (ep, ev) \<leftarrow> handle_vnode \<lparr>cache_entry = entry, fs = Null\<rparr> s2;
         Some (VFS_FS_OP_STATUS_OK, Some \<lparr>cache_entry = entry, fs = v_vfsp ev\<rparr>, s2)
       }
     }
   }"

definition vfs_rdwr :: "file_handle \<Rightarrow> vfs_uio \<Rightarrow> vfs_state \<Rightarrow> (int \<times> vfs_uio \<times> vfs_state) option" where
  "vfs_rdwr file u s = do {
     (vp, v) \<leftarrow> handle_vnode file s;
     if v_type v = VFS_VN_DIR then Some (VFS_FS_OP_STATUS_INVALID_ARGS, u, s)
     else ramfs_vn_rdwr vp u s
   }"

section \<open>Start-up\<close>

definition bytes :: "string \<Rightarrow> u8 list" where
  "bytes str = map of_char str"

text \<open>A lookup of a literal path from the null handle, and a creation whose status must be 0.\<close>

definition lookup_literal :: "string \<Rightarrow> vfs_state \<Rightarrow> (int \<times> file_handle option \<times> vfs_state) option" where
  "lookup_literal str s = vfs_lookup null_handle (bytes str @ [0]) 0 s"

definition lookup_ok :: "string \<Rightarrow> vfs_state \<Rightarrow> (file_handle \<times> vfs_state) option" where
  "lookup_ok str s = do {
     (state, h, s') \<leftarrow> lookup_literal str s;
     kassert (state = 0);
     h' \<leftarrow> h;
     Some (h', s')
   }"

definition create_ok :: "file_handle \<Rightarrow> string \<Rightarrow> vfs_vnode_type \<Rightarrow> vfs_state \<Rightarrow> (file_handle \<times> vfs_state) option" where
  "create_ok dir str ty s = do {
     (state, h, s') \<leftarrow> vfs_create dir (bytes str) \<lparr>va_type = ty\<rparr> s;
     kassert (state = 0);
     h' \<leftarrow> h;
     Some (h', s')
   }"

text \<open>The write of a string with its terminator and the read of as many bytes into a cleared buffer,
  both with status 0.\<close>

definition write_and_read :: "file_handle \<Rightarrow> string \<Rightarrow> vfs_state \<Rightarrow> (u8 list \<times> vfs_state) option" where
  "write_and_read file str s = do {
     let n = length str + 1;
     (st1, u1, s1) \<leftarrow> vfs_rdwr file \<lparr>uio_buf = bytes str @ [0], uio_resid = n, uio_offset = 0, uio = UIO_WRITE\<rparr> s;
     kassert (st1 = 0);
     (st2, u2, s2) \<leftarrow> vfs_rdwr file (u1\<lparr>uio := UIO_READ, uio_resid := n, uio_buf := replicate n 0\<rparr>) s1;
     kassert (st2 = 0);
     Some (uio_buf u2, s2)
   }"

text \<open>A new file system mounted on \<open>/\<close>, with a file created in it and two lookups whose results are
  not tested.\<close>

definition mount_over_root :: "string \<Rightarrow> string \<Rightarrow> string \<Rightarrow> vfs_state \<Rightarrow> vfs_state option" where
  "mount_over_root file path1 path2 s = do {
     let (dsk, s1) = rd_new_ramdisk s;
     let (f, s2) = ramfs_new_fs s1;
     (mountpoint, s3) \<leftarrow> lookup_ok ''/'' s2;
     (st, s4) \<leftarrow> vfs_mount f mountpoint dsk s3;
     (st1, h1, s5) \<leftarrow> lookup_literal ''/'' s4;
     let mountpoint1 = (case h1 of None \<Rightarrow> mountpoint | Some h \<Rightarrow> h);
     (st2, out, s6) \<leftarrow> vfs_create mountpoint1 (bytes file) \<lparr>va_type = VFS_VN_REG\<rparr> s5;
     (st3, h3, s7) \<leftarrow> lookup_literal path1 s6;
     (st4, h4, s8) \<leftarrow> lookup_literal path2 s7;
     Some s8
   }"

definition vfs_init :: "vfs_state \<Rightarrow> vfs_state option" where
  "vfs_init s0 = do {
     let (rd_root, s1) = rd_new_ramdisk s0;
     let (ramfs_root_fs, s2) = ramfs_new_fs s1;
     (st, s3) \<leftarrow> vfs_mount_root ramfs_root_fs rd_root s2;
     (dest, s4) \<leftarrow> lookup_ok ''/'' s3;
     (out, s5) \<leftarrow> create_ok dest ''testfile'' VFS_VN_REG s4;
     (buf, s6) \<leftarrow> write_and_read out ''Hello World'' s5;
     (out1, s7) \<leftarrow> create_ok dest ''testdir'' VFS_VN_DIR s6;
     (dest1, s8) \<leftarrow> lookup_ok ''/testdir'' s7;
     (out2, s9) \<leftarrow> create_ok dest1 ''fileinsidedir'' VFS_VN_REG s8;
     (dest2, s10) \<leftarrow> lookup_ok ''/testdir/fileinsidedir'' s9;
     (buf2, s11) \<leftarrow> write_and_read dest2 ''Hello World2'' s10;
     (sta, ha, s12) \<leftarrow> lookup_literal ''/testdir'' s11;
     hnd \<leftarrow> ha;
     (stb, hb, s13) \<leftarrow> vfs_create hnd (bytes ''hohoho'') \<lparr>va_type = VFS_VN_DIR\<rparr> s12;
     hnd1 \<leftarrow> hb;
     (stc, hc, s14) \<leftarrow> vfs_create hnd1 (bytes ''file.c'') \<lparr>va_type = VFS_VN_REG\<rparr> s13;
     (std, hd', s15) \<leftarrow> lookup_literal ''/testdir/hohoho/file.c/'' s14;
     s16 \<leftarrow> mount_over_root ''testdir2'' ''/testdir2'' ''/testfile'' s15;
     mount_over_root ''testdir12'' ''/testdir12'' ''/testdir1'' s16
   }"

end
