(* ===== verification/Rb_Shape.thy ===== *)
theory Rb_Shape
  imports Rb_Tree
begin

text \<open>
  The shape of the trees of \<open>rbtree.c\<close> in the heap. \<open>ltree\<close> is a tree whose nodes carry their address,
  \<open>rep\<close> says that the heap holds it with the right parent pointers, and a path from a node to the
  root is a list of frames, from the inside out, into which a subtree is plugged. The lemmas give the effect of
  each write of the code on the tree, and of a rotation.
\<close>

section \<open>Trees with addresses\<close>

datatype ltree = Leaf | Node ltree nat rb_tree_color nat ltree

fun ptr_of :: "ltree \<Rightarrow> rb_ptr" where
  "ptr_of Leaf = RB_NIL"
| "ptr_of (Node l a c d r) = Ref a"

fun addrs :: "ltree \<Rightarrow> nat list" where
  "addrs Leaf = []"
| "addrs (Node l a c d r) = addrs l @ a # addrs r"

fun inorder :: "ltree \<Rightarrow> nat list" where
  "inorder Leaf = []"
| "inorder (Node l a c d r) = inorder l @ d # inorder r"

fun colour :: "ltree \<Rightarrow> rb_tree_color" where
  "colour Leaf = RB_BLACK"
| "colour (Node l a c d r) = c"

fun rep :: "(nat \<Rightarrow> rb_node option) \<Rightarrow> rb_ptr \<Rightarrow> ltree \<Rightarrow> bool" where
  "rep H q Leaf \<longleftrightarrow> True"
| "rep H q (Node l a c d r) \<longleftrightarrow>
     H a = Some \<lparr>rb_parent = q, child_left = ptr_of l, child_right = ptr_of r, rb_color = c, rb_data = d\<rparr> \<and>
     rep H (Ref a) l \<and> rep H (Ref a) r"

text \<open>A node whose child in direction \<open>dir\<close> is \<open>x\<close>, and whose other child is \<open>y\<close>.\<close>

fun mk :: "rb_tree_direction \<Rightarrow> ltree \<Rightarrow> nat \<Rightarrow> rb_tree_color \<Rightarrow> nat \<Rightarrow> ltree \<Rightarrow> ltree" where
  "mk RB_LEFT x a c d y = Node x a c d y"
| "mk RB_RIGHT x a c d y = Node y a c d x"

fun mkn :: "rb_tree_direction \<Rightarrow> rb_ptr \<Rightarrow> rb_ptr \<Rightarrow> rb_ptr \<Rightarrow> rb_tree_color \<Rightarrow> nat \<Rightarrow> rb_node" where
  "mkn RB_LEFT q x y c d = \<lparr>rb_parent = q, child_left = x, child_right = y, rb_color = c, rb_data = d\<rparr>"
| "mkn RB_RIGHT q x y c d = \<lparr>rb_parent = q, child_left = y, child_right = x, rb_color = c, rb_data = d\<rparr>"

type_synonym frame = "rb_tree_direction \<times> nat \<times> rb_tree_color \<times> nat \<times> ltree"

fun plug :: "frame list \<Rightarrow> ltree \<Rightarrow> ltree" where
  "plug [] t = t"
| "plug ((dir, a, c, d, sib) # fs) t = plug fs (mk dir t a c d sib)"

fun par :: "frame list \<Rightarrow> rb_ptr" where
  "par [] = Null"
| "par ((dir, a, c, d, sib) # fs) = Ref a"

fun faddrs :: "frame list \<Rightarrow> nat list" where
  "faddrs [] = []"
| "faddrs ((dir, a, c, d, sib) # fs) = a # addrs sib @ faddrs fs"

fun repf :: "(nat \<Rightarrow> rb_node option) \<Rightarrow> frame list \<Rightarrow> rb_ptr \<Rightarrow> bool" where
  "repf H [] x \<longleftrightarrow> True"
| "repf H ((dir, a, c, d, sib) # fs) x \<longleftrightarrow>
     H a = Some (mkn dir (par fs) x (ptr_of sib) c d) \<and> rep H (Ref a) sib \<and> repf H fs (Ref a)"

lemma other_other [simp]: "other (other dir) = dir" "other dir \<noteq> dir" "dir \<noteq> other dir"
  by (cases dir; simp)+

lemma child_mkn [simp]: "child dir (mkn dir q x y c d) = x" "child (other dir) (mkn dir q x y c d) = y" "child dir (mkn (other dir) q x y c d) = y"
  by (cases dir; simp)+

lemma fields_mkn [simp]: "rb_parent (mkn dir q x y c d) = q" "rb_color (mkn dir q x y c d) = c" "rb_data (mkn dir q x y c d) = d"
  by (cases dir; simp)+

lemma with_child_mkn [simp]: "with_child dir z (mkn dir q x y c d) = mkn dir q z y c d"
  "with_child (other dir) z (mkn dir q x y c d) = mkn dir q x z c d" "with_child dir z (mkn (other dir) q x y c d) = mkn (other dir) q x z c d"
  by (cases dir; simp)+

lemma update_mkn [simp]: "(mkn dir q x y c d)\<lparr>rb_parent := q'\<rparr> = mkn dir q' x y c d" "(mkn dir q x y c d)\<lparr>rb_color := c'\<rparr> = mkn dir q x y c' d"
  "(mkn dir q x y c d)\<lparr>rb_data := d'\<rparr> = mkn dir q x y c d'"
  by (cases dir; simp)+

lemma mk_simps [simp]: "ptr_of (mk dir x a c d y) = Ref a" "colour (mk dir x a c d y) = c" "mk dir x a c d y \<noteq> Leaf"
  "set (addrs (mk dir x a c d y)) = insert a (set (addrs x) \<union> set (addrs y))"
  "distinct (addrs (mk dir x a c d y)) \<longleftrightarrow> distinct (a # addrs x @ addrs y)"
  by (cases dir; auto)+

lemma rep_mk [simp]: "rep H q (mk dir x a c d y) \<longleftrightarrow> H a = Some (mkn dir q (ptr_of x) (ptr_of y) c d) \<and> rep H (Ref a) x \<and> rep H (Ref a) y"
  by (cases dir) auto

lemma mk_other: "mk (other dir) x a c d y = mk dir y a c d x"
  by (cases dir) auto

lemma mkn_other: "mkn (other dir) q x y c d = mkn dir q y x c d"
  by (cases dir) auto

lemma plug_rep: "rep H Null (plug fs t) \<longleftrightarrow> repf H fs (ptr_of t) \<and> rep H (par fs) t"
proof (induction fs arbitrary: t)
  case (Cons f fs)
  obtain dir a c d sib where f: "f = (dir, a, c, d, sib)" by (cases f)
  show ?case unfolding f by (simp add: Cons.IH conj_ac)
qed simp

lemma plug_addrs: "set (addrs (plug fs t)) = set (faddrs fs) \<union> set (addrs t)"
  "distinct (addrs (plug fs t)) \<longleftrightarrow> distinct (faddrs fs @ addrs t)"
proof (induction fs arbitrary: t)
  case (Cons f fs)
  obtain dir a c d sib where f: "f = (dir, a, c, d, sib)" by (cases f)
  { case 1 show ?case unfolding f by (simp add: Cons.IH(1) Un_ac) }
  { case 2 show ?case unfolding f by (auto simp: Cons.IH(2)) }
qed simp_all

lemma rep_cong: "(\<And>a. a \<in> set (addrs t) \<Longrightarrow> H' a = H a) \<Longrightarrow> rep H' q t \<longleftrightarrow> rep H q t"
  by (induction H q t rule: rep.induct) auto

lemma repf_cong: "(\<And>a. a \<in> set (faddrs fs) \<Longrightarrow> H' a = H a) \<Longrightarrow> repf H' fs x \<longleftrightarrow> repf H fs x"
proof (induction fs arbitrary: x)
  case (Cons f fs)
  obtain dir a c d sib where f: "f = (dir, a, c, d, sib)" by (cases f)
  have "rep H' (Ref a) sib \<longleftrightarrow> rep H (Ref a) sib" by (rule rep_cong) (simp add: Cons.prems f)
  moreover have "repf H' fs (Ref a) \<longleftrightarrow> repf H fs (Ref a)" by (rule Cons.IH) (simp add: Cons.prems f)
  ultimately show ?case using Cons.prems [of a] by (simp add: f)
qed simp

lemma rep_upd [simp]: "a \<notin> set (addrs t) \<Longrightarrow> rep (H(a := v)) q t \<longleftrightarrow> rep H q t"
  by (rule rep_cong) auto

lemma repf_upd [simp]: "a \<notin> set (faddrs fs) \<Longrightarrow> repf (H(a := v)) fs x \<longleftrightarrow> repf H fs x"
  by (rule repf_cong) auto

lemma ptr_plug: "fs \<noteq> [] \<Longrightarrow> ptr_of (plug fs t) = ptr_of (plug fs t')"
proof (induction fs arbitrary: t t')
  case (Cons f fs)
  obtain dir a c d sib where f: "f = (dir, a, c, d, sib)" by (cases f)
  show ?case
  proof (cases "fs = []")
    case False
    from Cons.IH [OF this, of "mk dir t a c d sib" "mk dir t' a c d sib"] show ?thesis by (simp add: f)
  qed (simp add: f)
qed simp

section \<open>Trees in the heap\<close>

definition tree_at :: "rb_heap \<Rightarrow> rb_ptr \<Rightarrow> ltree \<Rightarrow> bool" where
  "tree_at h root t \<longleftrightarrow> root = ptr_of t \<and> rep (cells h) Null t \<and> distinct (addrs t) \<and> 0 \<notin> set (addrs t) \<and>
     (\<exists>q. cells h 0 = Some (sentinel\<lparr>rb_parent := q\<rparr>)) \<and> (\<forall>a \<in> set (addrs t). a < brk h) \<and> 0 < brk h"

text \<open>A step that only changes nodes of the tree, and not the sentinel.\<close>

definition inside :: "ltree \<Rightarrow> rb_heap \<Rightarrow> rb_heap \<Rightarrow> bool" where
  "inside t h h' \<longleftrightarrow> brk h' = brk h \<and> (\<forall>a. a \<notin> set (addrs t) \<longrightarrow> cells h' a = cells h a)"

lemma inside_refl [simp]: "inside t h h"
  by (simp add: inside_def)

lemma inside_trans: "inside t h h1 \<Longrightarrow> inside t' h1 h2 \<Longrightarrow> set (addrs t') = set (addrs t) \<Longrightarrow> inside t h h2"
  by (simp add: inside_def)

lemma tree_at_step:
  assumes "tree_at h root t" "inside t h h'" "set (addrs t') = set (addrs t)" "distinct (addrs t')" "rep (cells h') Null t'" "root' = ptr_of t'"
  shows "tree_at h' root' t'"
  using assms unfolding tree_at_def inside_def by auto

lemma upd_node_at [simp]: "cells h a = Some n \<Longrightarrow> upd_node f (Ref a) h = Some (h\<lparr>cells := (cells h)(a \<mapsto> f n)\<rparr>)"
  by (simp add: upd_node_def)

lemma node_Ref [simp]: "node h (Ref a) = cells h a"
  by (simp add: node_def)

lemma fields_of [simp]:
  "cells h a = Some n \<Longrightarrow> parent_of h (Ref a) = Some (rb_parent n)" "cells h a = Some n \<Longrightarrow> color_of h (Ref a) = Some (rb_color n)"
  "cells h a = Some n \<Longrightarrow> child_of h (Ref a) dir = Some (child dir n)"
  by (simp_all add: parent_of_def color_of_def child_of_def)

lemmas set_defs = set_parent_def set_color_def set_child_def

text \<open>The facts about a node below a path.\<close>

lemma tree_at_focus:
  assumes "tree_at h root (plug fs (mk dir x a c d y))"
  shows "cells h a = Some (mkn dir (par fs) (ptr_of x) (ptr_of y) c d)" "rep (cells h) (Ref a) x" "rep (cells h) (Ref a) y"
    "repf (cells h) fs (Ref a)" "distinct (faddrs fs @ a # addrs x @ addrs y)" "a \<noteq> 0" "0 \<notin> set (faddrs fs @ addrs x @ addrs y)"
  using assms unfolding tree_at_def plug_rep plug_addrs by auto

text \<open>Any update of a node that keeps its pointers.\<close>

lemma node_update:
  assumes t: "tree_at h root (plug fs (mk dir x a c d y))"
    and f: "f (mkn dir (par fs) (ptr_of x) (ptr_of y) c d) = mkn dir (par fs) (ptr_of x) (ptr_of y) c' d'"
  shows "\<exists>h'. upd_node f (Ref a) h = Some h' \<and> tree_at h' root (plug fs (mk dir x a c' d' y)) \<and>
    inside (plug fs (mk dir x a c d y)) h h'"
proof -
  note F = tree_at_focus [OF t]
  let ?h = "h\<lparr>cells := (cells h)(a \<mapsto> mkn dir (par fs) (ptr_of x) (ptr_of y) c' d')\<rparr>"
  have i: "inside (plug fs (mk dir x a c d y)) h ?h" by (auto simp: inside_def plug_addrs)
  have "rep (cells ?h) Null (plug fs (mk dir x a c' d' y))" unfolding plug_rep using F by simp
  moreover have "root = ptr_of (plug fs (mk dir x a c' d' y))"
    using t ptr_plug [of fs "mk dir x a c d y" "mk dir x a c' d' y"] by (cases "fs = []") (simp_all add: tree_at_def)
  ultimately have "tree_at ?h root (plug fs (mk dir x a c' d' y))"
    using F(5) by (intro tree_at_step [OF t i]) (simp_all add: plug_addrs)
  then show ?thesis using F(1) f i by auto
qed

section \<open>Rotation\<close>

text \<open>The heap with the parent of the root of a tree changed, and with the child of the innermost frame changed.\<close>

fun reparent :: "rb_ptr \<Rightarrow> ltree \<Rightarrow> (nat \<Rightarrow> rb_node option) \<Rightarrow> nat \<Rightarrow> rb_node option" where
  "reparent q Leaf H = H"
| "reparent q (Node l a c d r) H = H(a \<mapsto> \<lparr>rb_parent = q, child_left = ptr_of l, child_right = ptr_of r, rb_color = c, rb_data = d\<rparr>)"

fun rechild :: "rb_ptr \<Rightarrow> frame list \<Rightarrow> (nat \<Rightarrow> rb_node option) \<Rightarrow> nat \<Rightarrow> rb_node option" where
  "rechild x [] H = H"
| "rechild x ((dir, a, c, d, sib) # fs) H = H(a \<mapsto> mkn dir (par fs) x (ptr_of sib) c d)"

lemma reparent_rep: "rep H q0 t \<Longrightarrow> distinct (addrs t) \<Longrightarrow> rep (reparent q t H) q t"
  by (cases t) auto

lemma rechild_repf: "repf H fs x0 \<Longrightarrow> distinct (faddrs fs) \<Longrightarrow> repf (rechild x fs H) fs x"
  by (cases fs) auto

lemma reparent_other [simp]: "i \<notin> set (addrs t) \<Longrightarrow> reparent q t H i = H i"
  by (cases t) auto

lemma rechild_other [simp]: "i \<notin> set (faddrs fs) \<Longrightarrow> rechild x fs H i = H i"
  by (cases fs) auto

lemma rep_reparent [simp]: "set (addrs t) \<inter> set (addrs u) = {} \<Longrightarrow> rep (reparent q t H) q' u \<longleftrightarrow> rep H q' u"
  by (rule rep_cong) (metis disjoint_iff reparent_other)

lemma rep_rechild [simp]: "set (faddrs fs) \<inter> set (addrs u) = {} \<Longrightarrow> rep (rechild x fs H) q' u \<longleftrightarrow> rep H q' u"
  by (rule rep_cong) (metis disjoint_iff rechild_other)

lemma repf_reparent [simp]: "set (addrs t) \<inter> set (faddrs fs) = {} \<Longrightarrow> repf (reparent q t H) fs x \<longleftrightarrow> repf H fs x"
  by (rule repf_cong) (metis disjoint_iff reparent_other)

lemma set_parent_root:
  assumes "rep (cells h) q0 t" "0 \<notin> set (addrs t)"
  shows "(if ptr_of t \<noteq> RB_NIL then set_parent (ptr_of t) q h else Some h) = Some (h\<lparr>cells := reparent q t (cells h)\<rparr>)"
  using assms by (cases t) (auto simp: RB_NIL_def set_parent_def)

text \<open>The write to the parent in \<open>_rotate\<close>, which tests on which side the node is.\<close>

lemma replace_child:
  assumes "repf (cells h) fs (Ref a)" "a \<notin> set (faddrs fs)" "a \<noteq> 0"
  shows "(if par fs \<noteq> Null then do { pc \<leftarrow> child_of h (par fs) dir; h' \<leftarrow> set_child (par fs) (if Ref a = pc then dir else other dir) x h; Some (root, h') } else Some (x, h))
    = Some (if fs = [] then x else root, h\<lparr>cells := rechild x fs (cells h)\<rparr>)"
proof (cases fs)
  case (Cons f fs')
  obtain dp p c d sib where f: "f = (dp, p, c, d, sib)" by (cases f)
  have p: "cells h p = Some (mkn dp (par fs') (Ref a) (ptr_of sib) c d)" using assms(1) by (simp add: Cons f)
  have "Ref a \<noteq> ptr_of sib" using assms(2,3) by (cases sib) (auto simp: Cons f RB_NIL_def)
  moreover have "dp = dir \<or> dp = other dir" by (cases dp; cases dir) auto
  ultimately show ?thesis using p by (auto simp: Cons f set_child_def)
qed simp

lemma rotate_ok:
  assumes t: "tree_at h root (plug fs (mk dir x a ca da (mk dir y b cb db z)))"
  shows "\<exists>h' root'. rotate_at (Ref a) dir (root, h) = Some (root', h') \<and> tree_at h' root' (plug fs (mk dir (mk dir x a ca da y) b cb db z)) \<and>
    inside (plug fs (mk dir x a ca da (mk dir y b cb db z))) h h'"
proof -
  note F = tree_at_focus [OF t]
  let ?T = "plug fs (mk dir x a ca da (mk dir y b cb db z))" and ?T' = "plug fs (mk dir (mk dir x a ca da y) b cb db z)"
  have ab: "cells h a = Some (mkn dir (par fs) (ptr_of x) (Ref b) ca da)" "cells h b = Some (mkn dir (Ref a) (ptr_of y) (ptr_of z) cb db)"
    "rep (cells h) (Ref a) x" "rep (cells h) (Ref b) y" "rep (cells h) (Ref b) z" using F(1-3) by simp_all
  have ds: "distinct (faddrs fs @ a # b # addrs x @ addrs y @ addrs z)" "a \<noteq> 0" "b \<noteq> 0" "0 \<notin> set (addrs y)" using F(5-7) by auto
  have NIL: "Ref a \<noteq> RB_NIL" "Ref b \<noteq> RB_NIL" using ds by (simp_all add: RB_NIL_def)
  define h1 where "h1 = h\<lparr>cells := (cells h)(a \<mapsto> mkn dir (par fs) (ptr_of x) (ptr_of y) ca da)\<rparr>"
  define h2 where "h2 = h1\<lparr>cells := reparent (Ref a) y (cells h1)\<rparr>"
  define h3 where "h3 = h2\<lparr>cells := (cells h2)(b \<mapsto> mkn dir (par fs) (ptr_of y) (ptr_of z) cb db)\<rparr>"
  define h4 where "h4 = h3\<lparr>cells := rechild (Ref b) fs (cells h3)\<rparr>"
  define h5 where "h5 = h4\<lparr>cells := (cells h4)(b \<mapsto> mkn dir (par fs) (Ref a) (ptr_of z) cb db)\<rparr>"
  define h6 where "h6 = h5\<lparr>cells := (cells h5)(a \<mapsto> mkn dir (Ref b) (ptr_of x) (ptr_of y) ca da)\<rparr>"
  have s2: "(if ptr_of y \<noteq> RB_NIL then set_parent (ptr_of y) (Ref a) h1 else Some h1) = Some h2"
    unfolding h2_def using ab(4) ds by (intro set_parent_root [of _ "Ref b"]) (simp_all add: h1_def)
  have dj: "set (addrs y) \<inter> set (faddrs fs) = {}" "set (faddrs fs) \<inter> set (addrs x) = {}" "set (faddrs fs) \<inter> set (addrs y) = {}"
    "set (faddrs fs) \<inter> set (addrs z) = {}" "set (addrs y) \<inter> set (addrs x) = {}" "set (addrs y) \<inter> set (addrs z) = {}"
    and nin: "a \<notin> set (faddrs fs)" "b \<notin> set (faddrs fs)" "a \<notin> set (addrs x)" "b \<notin> set (addrs x)" "a \<notin> set (addrs y)" "b \<notin> set (addrs y)"
      "a \<notin> set (addrs z)" "b \<notin> set (addrs z)" "a \<noteq> b" "b \<noteq> a" using ds(1) by auto
  have "repf (cells h3) fs (Ref a)" using F(4) nin dj by (simp add: h3_def h2_def h1_def)
  note s4 = replace_child [OF this, of dir "Ref b" root, folded h4_def]
  have c: "cells h1 b = cells h b" "cells h2 a = cells h1 a" "cells h2 b = cells h b" "cells h4 b = cells h3 b" "cells h5 a = cells h2 a"
    using ds by (auto simp: h1_def h2_def h3_def h4_def h5_def)
  have run: "rotate_at (Ref a) dir (root, h) = Some (if fs = [] then Ref b else root, h6)"
  proof -
    have v: "cells h1 a = Some (mkn dir (par fs) (ptr_of x) (ptr_of y) ca da)" "cells h3 b = Some (mkn dir (par fs) (ptr_of y) (ptr_of z) cb db)"
      by (simp_all add: h1_def h3_def)
    have "set_child (Ref a) (other dir) (ptr_of y) h = Some h1" "set_parent (Ref b) (par fs) h2 = Some h3"
      "set_child (Ref b) dir (Ref a) h4 = Some h5" "set_parent (Ref a) (Ref b) h5 = Some h6"
      using ab c v by (simp_all add: set_defs h1_def [symmetric] h3_def [symmetric] h5_def [symmetric] h6_def [symmetric])
    then show ?thesis using ab c v s2 s4 nin ds NIL by (simp add: rotate_at_def Let_def)
  qed
  have i: "inside ?T h h6"
    using nin by (auto simp: inside_def plug_addrs h6_def h5_def h4_def h3_def h2_def h1_def)
  have "rep (cells h6) Null ?T'"
    using ab F(4) nin dj ds rechild_repf reparent_rep
    unfolding plug_rep by (simp add: h6_def h5_def h4_def h3_def h2_def h1_def)
  moreover have "(if fs = [] then Ref b else root) = ptr_of ?T'"
    using t ptr_plug [of fs "mk dir x a ca da (mk dir y b cb db z)" "mk dir (mk dir x a ca da y) b cb db z"] by (simp add: tree_at_def)
  ultimately have "tree_at h6 (if fs = [] then Ref b else root) ?T'"
    using ds by (intro tree_at_step [OF t i]) (auto simp: plug_addrs)
  then show ?thesis using run i by blast
qed

end
