(* ===== verification/Rb_Insert.thy ===== *)
theory Rb_Insert
  imports Rb_Shape
begin

text \<open>
  Insertion into the red-black trees: the colour and height invariant, what a path to a node may be joined with, and
  the loop that restores the invariant after a red node has been linked in. Rotations keep the sequence of the data.
\<close>

section \<open>The invariant\<close>

fun bh :: "ltree \<Rightarrow> nat" where
  "bh Leaf = 0"
| "bh (Node l a c d r) = bh l + (if c = RB_BLACK then 1 else 0)"

fun rbt :: "ltree \<Rightarrow> bool" where
  "rbt Leaf \<longleftrightarrow> True"
| "rbt (Node l a c d r) \<longleftrightarrow> (c = RB_RED \<longrightarrow> colour l = RB_BLACK \<and> colour r = RB_BLACK) \<and> bh l = bh r \<and> rbt l \<and> rbt r"

fun topc :: "frame list \<Rightarrow> rb_tree_color" where
  "topc [] = RB_BLACK"
| "topc ((dir, a, c, d, sib) # fs) = c"

text \<open>A path that a subtree of black height \<open>n\<close> may be plugged into, up to the colour of its root.\<close>

fun cinv :: "frame list \<Rightarrow> nat \<Rightarrow> bool" where
  "cinv [] n \<longleftrightarrow> True"
| "cinv ((dir, a, c, d, sib) # fs) n \<longleftrightarrow> rbt sib \<and> bh sib = n \<and> (c = RB_RED \<longrightarrow> colour sib = RB_BLACK \<and> fs \<noteq> [] \<and> topc fs = RB_BLACK) \<and>
     cinv fs (n + (if c = RB_BLACK then 1 else 0))"

fun before :: "frame list \<Rightarrow> nat list" where
  "before [] = []"
| "before ((dir, a, c, d, sib) # fs) = before fs @ (if dir = RB_LEFT then [] else inorder sib @ [d])"

fun after :: "frame list \<Rightarrow> nat list" where
  "after [] = []"
| "after ((dir, a, c, d, sib) # fs) = (if dir = RB_LEFT then d # inorder sib else []) @ after fs"

lemma not_red [simp]: "c \<noteq> RB_RED \<longleftrightarrow> c = RB_BLACK"
  by (cases c) auto

lemma rbt_mk [simp]: "rbt (mk dir x a c d y) \<longleftrightarrow>
    (c = RB_RED \<longrightarrow> colour x = RB_BLACK \<and> colour y = RB_BLACK) \<and> bh x = bh y \<and> rbt x \<and> rbt y"
  by (cases dir) auto

lemma bh_mk [simp]: "bh x = bh y \<Longrightarrow> bh (mk dir x a c d y) = bh x + (if c = RB_BLACK then 1 else 0)"
  by (cases dir) auto

lemma inorder_plug: "inorder (plug fs t) = before fs @ inorder t @ after fs"
proof (induction fs arbitrary: t)
  case (Cons f fs)
  obtain dir a c d sib where f: "f = (dir, a, c, d, sib)" by (cases f)
  show ?case unfolding f by (cases dir) (simp_all add: Cons.IH)
qed simp

lemma inorder_rotate: "inorder (mk dir (mk dir x a ca da y) b cb db z) = inorder (mk dir x a ca' da (mk dir y b cb' db z))"
  by (cases dir) simp_all

lemma rbt_plug: "rbt t \<Longrightarrow> cinv fs (bh t) \<Longrightarrow> (colour t = RB_RED \<Longrightarrow> topc fs = RB_BLACK) \<Longrightarrow> rbt (plug fs t)"
proof (induction fs arbitrary: t)
  case (Cons f fs)
  obtain dir a c d sib where f: "f = (dir, a, c, d, sib)" by (cases f)
  have "colour t = RB_RED \<or> colour t = RB_BLACK" by (cases "colour t") auto
  then show ?case unfolding f plug.simps using Cons.prems by (intro Cons.IH) (auto simp: f)
qed simp

lemma rbt_unplug:
  "rbt (plug fs t) \<Longrightarrow> colour (plug fs t) = RB_BLACK \<Longrightarrow> rbt t \<and> cinv fs (bh t) \<and> (colour t = RB_RED \<longrightarrow> fs \<noteq> [] \<and> topc fs = RB_BLACK)"
proof (induction fs arbitrary: t)
  case (Cons f fs)
  obtain dir a c d sib where f: "f = (dir, a, c, d, sib)" by (cases f)
  show ?case using Cons.IH [of "mk dir t a c d sib"] Cons.prems by (auto simp: f)
qed simp

section \<open>Reading the neighbours of a node\<close>

lemma side_of: "side b = (if b then other RB_LEFT else other RB_RIGHT)"
  by (simp add: side_def)

lemma ptr_of_eq: "set (addrs t) \<inter> set (addrs u) = {} \<Longrightarrow> t \<noteq> Leaf \<Longrightarrow> 0 \<notin> set (addrs t) \<Longrightarrow> ptr_of t \<noteq> ptr_of u"
  by (cases t; cases u) (auto simp: RB_NIL_def)

lemma color_of_tree: "tree_at h root T \<Longrightarrow> rep (cells h) q u \<Longrightarrow> color_of h (ptr_of u) = Some (colour u)"
  by (cases u) (auto simp: tree_at_def RB_NIL_def color_of_def sentinel_def)

lemma parent_of_tree: "rep (cells h) q t \<Longrightarrow> t \<noteq> Leaf \<Longrightarrow> parent_of h (ptr_of t) = Some q"
  by (cases t) (auto simp: parent_of_def)

lemma root_in_path: "fs \<noteq> [] \<Longrightarrow> \<exists>i \<in> set (faddrs fs). ptr_of (plug fs t) = Ref i"
proof (induction fs arbitrary: t)
  case (Cons f fs)
  obtain dir a c d sib where f: "f = (dir, a, c, d, sib)" by (cases f)
  show ?case using Cons.IH [of "mk dir t a c d sib"] by (cases "fs = []") (auto simp: f)
qed simp

section \<open>One round\<close>

lemma set_color_node:
  assumes "tree_at h root (plug fs (mk dir x a c d y))"
  shows "\<exists>h'. set_color (Ref a) c' h = Some h' \<and> tree_at h' root (plug fs (mk dir x a c' d y)) \<and> inside (plug fs (mk dir x a c d y)) h h'"
  unfolding set_color_def using assms by (intro node_update) simp_all

text \<open>The direction in \<open>_insert_fixup\<close>: away from the parent of the node.\<close>

lemma dir_away:
  assumes "tree_at h root (plug ((dg, g, cg, gd, u) # rest) t)" "t \<noteq> Leaf"
  shows "child_of h (Ref g) dir = Some (if dir = dg then ptr_of t else ptr_of u)"
    "\<exists>l. child_of h (Ref g) RB_LEFT = Some l \<and> side (ptr_of t = l) = other dg"
proof -
  have t: "tree_at h root (plug rest (mk dg t g cg gd u))" using assms(1) by simp
  note F = tree_at_focus [OF t]
  have "ptr_of t \<noteq> ptr_of u" using F(5,7) assms(2) by (intro ptr_of_eq) auto
  moreover show c: "child_of h (Ref g) dir = Some (if dir = dg then ptr_of t else ptr_of u)" for dir
    using F(1) by (cases dir; cases dg) (simp_all add: child_of_def)
  ultimately show "\<exists>l. child_of h (Ref g) RB_LEFT = Some l \<and> side (ptr_of t = l) = other dg"
    by (cases dg) (simp_all add: side_def)
qed

text \<open>The recolouring when the uncle is red: the node to go on with is the grandparent.\<close>

lemma round_red_uncle:
  assumes t: "tree_at h root (plug ((dp, p, RB_RED, pd, s1) # (dg, g, RB_BLACK, gd, mk du ul ui RB_RED ud ur) # rest) nd)" and nd: "nd \<noteq> Leaf"
  shows "\<exists>h'. insert_round (ptr_of nd) (root, h) = Some (Ref g, root, h') \<and>
    tree_at h' root (plug rest (mk dg (mk dp nd p RB_BLACK pd s1) g RB_RED gd (mk du ul ui RB_BLACK ud ur))) \<and>
    inside (plug ((dp, p, RB_RED, pd, s1) # (dg, g, RB_BLACK, gd, mk du ul ui RB_RED ud ur) # rest) nd) h h'"
proof -
  let ?P = "mk dp nd p RB_RED pd s1" and ?u = "mk du ul ui RB_RED ud ur"
  let ?P' = "mk dp nd p RB_BLACK pd s1" and ?u' = "mk du ul ui RB_BLACK ud ur"
  have tP: "tree_at h root (plug ((dg, g, RB_BLACK, gd, ?u) # rest) ?P)" and tg: "tree_at h root (plug rest (mk dg ?P g RB_BLACK gd ?u))"
    using t by simp_all
  note P = tree_at_focus [OF tP] and g = tree_at_focus [OF tg]
  have par: "parent_of h (ptr_of nd) = Some (Ref p)" "parent_of h (Ref p) = Some (Ref g)"
    using parent_of_tree [OF P(2) nd] P(1) by simp_all
  obtain l where l: "child_of h (Ref g) RB_LEFT = Some l" "side (Ref p = l) = other dg" using dir_away(2) [OF tP] by auto
  have n: "child_of h (Ref g) (other dg) = Some (Ref ui)" "color_of h (Ref ui) = Some RB_RED"
    using dir_away(1) [OF tP] color_of_tree [OF t g(3)] by simp_all
  obtain h1 where h1: "set_color (Ref p) RB_BLACK h = Some h1" "tree_at h1 root (plug ((dg, g, RB_BLACK, gd, ?u) # rest) ?P')"
    "inside (plug ((dg, g, RB_BLACK, gd, ?u) # rest) ?P) h h1" using set_color_node [OF tP] by blast
  have "tree_at h1 root (plug ((other dg, g, RB_BLACK, gd, ?P') # rest) ?u)" using h1(2) by (simp add: mk_other)
  from set_color_node [OF this, of RB_BLACK] obtain h2 where h2: "set_color (Ref ui) RB_BLACK h1 = Some h2"
    "tree_at h2 root (plug ((other dg, g, RB_BLACK, gd, ?P') # rest) ?u')" "inside (plug ((other dg, g, RB_BLACK, gd, ?P') # rest) ?u) h1 h2" by blast
  have "tree_at h2 root (plug rest (mk dg ?P' g RB_BLACK gd ?u'))" using h2(2) by (simp add: mk_other)
  from set_color_node [OF this, of RB_RED] obtain h3 where h3: "set_color (Ref g) RB_RED h2 = Some h3"
    "tree_at h3 root (plug rest (mk dg ?P' g RB_RED gd ?u'))" "inside (plug rest (mk dg ?P' g RB_BLACK gd ?u')) h2 h3" by blast
  have "insert_round (ptr_of nd) (root, h) = Some (Ref g, root, h3)"
    using par l n h1(1) h2(1) h3(1) by (simp add: insert_round_def)
  moreover have "inside (plug ((dp, p, RB_RED, pd, s1) # (dg, g, RB_BLACK, gd, ?u) # rest) nd) h h3"
    using inside_trans [OF inside_trans [OF h1(3) h2(3)] h3(3)] by (simp add: plug_addrs Un_ac insert_commute)
  ultimately show ?thesis using h3(2) by blast
qed

text \<open>The last step when the uncle is black: the node is on the outer side.\<close>

lemma outer_rotation:
  assumes t: "tree_at h root (plug ((dg, p, RB_RED, pd, s1) # (dg, g, cg, gd, u) # rest) nd)" and nd: "nd \<noteq> Leaf"
  shows "\<exists>h2 h3 h4 root'. parent_of h (ptr_of nd) = Some (Ref p) \<and> set_color (Ref p) RB_BLACK h = Some h2 \<and>
    parent_of h2 (Ref p) = Some (Ref g) \<and> set_color (Ref g) RB_RED h2 = Some h3 \<and> rotate_at (Ref g) (other dg) (root, h3) = Some (root', h4) \<and>
    tree_at h4 root' (plug ((dg, p, RB_BLACK, pd, mk dg s1 g RB_RED gd u) # rest) nd) \<and>
    inside (plug ((dg, p, RB_RED, pd, s1) # (dg, g, cg, gd, u) # rest) nd) h h4"
proof -
  let ?P = "mk dg nd p RB_RED pd s1" and ?P' = "mk dg nd p RB_BLACK pd s1"
  have tP: "tree_at h root (plug ((dg, g, cg, gd, u) # rest) ?P)" using t by simp
  note P = tree_at_focus [OF tP]
  obtain h2 where h2: "set_color (Ref p) RB_BLACK h = Some h2" "tree_at h2 root (plug ((dg, g, cg, gd, u) # rest) ?P')"
    "inside (plug ((dg, g, cg, gd, u) # rest) ?P) h h2" using set_color_node [OF tP] by blast
  have par: "parent_of h (ptr_of nd) = Some (Ref p)" "parent_of h2 (Ref p) = Some (Ref g)"
    using parent_of_tree [OF P(2) nd] tree_at_focus(1) [OF h2(2)] by simp_all
  have "tree_at h2 root (plug rest (mk dg ?P' g cg gd u))" using h2(2) by simp
  from set_color_node [OF this, of RB_RED] obtain h3 where h3: "set_color (Ref g) RB_RED h2 = Some h3"
    "tree_at h3 root (plug rest (mk dg ?P' g RB_RED gd u))" "inside (plug rest (mk dg ?P' g cg gd u)) h2 h3" by blast
  have "tree_at h3 root (plug rest (mk (other dg) u g RB_RED gd (mk (other dg) s1 p RB_BLACK pd nd)))" using h3(2) by (simp add: mk_other)
  from rotate_ok [OF this] obtain h4 root' where h4: "rotate_at (Ref g) (other dg) (root, h3) = Some (root', h4)"
    "tree_at h4 root' (plug rest (mk (other dg) (mk (other dg) u g RB_RED gd s1) p RB_BLACK pd nd))"
    "inside (plug rest (mk (other dg) u g RB_RED gd (mk (other dg) s1 p RB_BLACK pd nd))) h3 h4" by blast
  have "inside (plug ((dg, p, RB_RED, pd, s1) # (dg, g, cg, gd, u) # rest) nd) h h4"
    using inside_trans [OF inside_trans [OF h2(3) h3(3)] h4(3)] by (simp add: plug_addrs Un_ac)
  then show ?thesis using par h2(1) h3(1) h4(1,2) by (auto simp: mk_other)
qed

lemma round_outer:
  assumes t: "tree_at h root (plug ((dg, p, RB_RED, pd, s1) # (dg, g, cg, gd, u) # rest) nd)" and nd: "nd \<noteq> Leaf" and u: "colour u = RB_BLACK"
  shows "\<exists>h' root'. insert_round (ptr_of nd) (root, h) = Some (ptr_of nd, root', h') \<and>
    tree_at h' root' (plug ((dg, p, RB_BLACK, pd, mk dg s1 g RB_RED gd u) # rest) nd) \<and>
    inside (plug ((dg, p, RB_RED, pd, s1) # (dg, g, cg, gd, u) # rest) nd) h h'"
proof -
  let ?P = "mk dg nd p RB_RED pd s1"
  have tP: "tree_at h root (plug ((dg, g, cg, gd, u) # rest) ?P)" and tg: "tree_at h root (plug rest (mk dg ?P g cg gd u))" using t by simp_all
  note P = tree_at_focus [OF tP] and g = tree_at_focus [OF tg]
  obtain l where l: "child_of h (Ref g) RB_LEFT = Some l" "side (Ref p = l) = other dg" using dir_away(2) [OF tP] by auto
  have n: "child_of h (Ref g) (other dg) = Some (ptr_of u)" "color_of h (ptr_of u) = Some RB_BLACK" "parent_of h (Ref p) = Some (Ref g)"
    using dir_away(1) [OF tP] color_of_tree [OF t g(3)] u P(1) by simp_all
  have "child_of h (Ref p) (other dg) = Some (ptr_of s1)" "ptr_of nd \<noteq> ptr_of s1"
    using dir_away(1) [OF t nd] ptr_of_eq [of nd s1] P(5,7) nd by auto
  then show ?thesis using outer_rotation [OF t nd] l n by (auto simp: insert_round_def)
qed

lemma round_inner:
  assumes t: "tree_at h root (plug ((other dg, p, RB_RED, pd, s1) # (dg, g, cg, gd, u) # rest) (mk dg y a RB_RED d z))" and u: "colour u = RB_BLACK"
  shows "\<exists>h' root'. insert_round (Ref a) (root, h) = Some (Ref p, root', h') \<and>
    tree_at h' root' (plug ((dg, a, RB_BLACK, d, mk dg z g RB_RED gd u) # rest) (mk dg s1 p RB_RED pd y)) \<and>
    inside (plug ((other dg, p, RB_RED, pd, s1) # (dg, g, cg, gd, u) # rest) (mk dg y a RB_RED d z)) h h'"
proof -
  let ?nd = "mk dg y a RB_RED d z" let ?P = "mk (other dg) ?nd p RB_RED pd s1" and ?Q = "mk dg s1 p RB_RED pd y"
  have tP: "tree_at h root (plug ((dg, g, cg, gd, u) # rest) ?P)" and tg: "tree_at h root (plug rest (mk dg ?P g cg gd u))" using t by simp_all
  note P = tree_at_focus [OF tP] and g = tree_at_focus [OF tg]
  obtain l where l: "child_of h (Ref g) RB_LEFT = Some l" "side (Ref p = l) = other dg" using dir_away(2) [OF tP] by auto
  have n: "child_of h (Ref g) (other dg) = Some (ptr_of u)" "color_of h (ptr_of u) = Some RB_BLACK" "parent_of h (Ref p) = Some (Ref g)"
    "parent_of h (Ref a) = Some (Ref p)"
    using dir_away(1) [OF tP] color_of_tree [OF t g(3)] u P(1) parent_of_tree [OF P(2)] by simp_all
  have c: "child_of h (Ref p) (other dg) = Some (Ref a)" using dir_away(1) [OF t] by simp
  have "tree_at h root (plug ((dg, g, cg, gd, u) # rest) (mk dg s1 p RB_RED pd ?nd))" using tP by (simp add: mk_other)
  from rotate_ok [OF this] obtain h1 root1 where r: "rotate_at (Ref p) dg (root, h) = Some (root1, h1)"
    "tree_at h1 root1 (plug ((dg, g, cg, gd, u) # rest) (mk dg ?Q a RB_RED d z))"
    "inside (plug ((dg, g, cg, gd, u) # rest) (mk dg s1 p RB_RED pd ?nd)) h h1" by blast
  have t1: "tree_at h1 root1 (plug ((dg, a, RB_RED, d, z) # (dg, g, cg, gd, u) # rest) ?Q)" using r(2) by simp
  from outer_rotation [OF t1] obtain h2 h3 h4 root' where R: "parent_of h1 (Ref p) = Some (Ref a)" "set_color (Ref a) RB_BLACK h1 = Some h2"
    "parent_of h2 (Ref a) = Some (Ref g)" "set_color (Ref g) RB_RED h2 = Some h3" "rotate_at (Ref g) (other dg) (root1, h3) = Some (root', h4)"
    "tree_at h4 root' (plug ((dg, a, RB_BLACK, d, mk dg z g RB_RED gd u) # rest) ?Q)"
    "inside (plug ((dg, a, RB_RED, d, z) # (dg, g, cg, gd, u) # rest) ?Q) h1 h4" by auto
  have "insert_round (Ref a) (root, h) = Some (Ref p, root', h4)" using l n c r(1) R(1-5) by (simp add: insert_round_def)
  moreover have "inside (plug ((other dg, p, RB_RED, pd, s1) # (dg, g, cg, gd, u) # rest) ?nd) h h4"
    using inside_trans [OF r(3) R(7)] by (simp add: plug_addrs mk_other Un_ac insert_commute)
  ultimately show ?thesis using R(6) by blast
qed

section \<open>The loop\<close>

lemma red_parent_stops:
  assumes t: "tree_at h root (plug fs nd)" and nd: "nd \<noteq> Leaf" and c: "topc fs = RB_BLACK"
  shows "red_parent (ptr_of nd) root h = Some False"
proof (cases fs)
  case Nil
  then show ?thesis using t by (simp add: red_parent_def tree_at_def)
next
  case (Cons f rest)
  obtain dir p c' d s1 where f: "f = (dir, p, c', d, s1)" by (cases f)
  have tP: "tree_at h root (plug rest (mk dir nd p RB_BLACK d s1))" using t c by (simp add: Cons f)
  note P = tree_at_focus [OF tP]
  show ?thesis using parent_of_tree [OF P(2) nd] P(1) by (simp add: red_parent_def)
qed

lemma red_parent_goes:
  assumes t: "tree_at h root (plug ((dp, p, RB_RED, pd, s1) # rest) nd)" and nd: "nd \<noteq> Leaf"
  shows "red_parent (ptr_of nd) root h = Some True"
proof -
  have tP: "tree_at h root (plug rest (mk dp nd p RB_RED pd s1))" using t by simp
  note P = tree_at_focus [OF tP]
  obtain i where i: "i \<in> set (faddrs ((dp, p, RB_RED, pd, s1) # rest))" "root = Ref i"
    using root_in_path [of "(dp, p, RB_RED, pd, s1) # rest" nd] t by (auto simp: tree_at_def)
  have "ptr_of nd \<noteq> root" using i P(5) nd by (cases nd) auto
  then show ?thesis using parent_of_tree [OF P(2) nd] P(1) by (simp add: red_parent_def)
qed

definition keeps :: "ltree \<Rightarrow> rb_heap \<Rightarrow> ltree \<Rightarrow> rb_heap \<Rightarrow> bool" where
  "keeps t h t' h' \<longleftrightarrow> inorder t' = inorder t \<and> set (addrs t') = set (addrs t) \<and> inside t h h'"

lemma keeps_trans: "keeps t h t1 h1 \<Longrightarrow> keeps t1 h1 t2 h2 \<Longrightarrow> keeps t h t2 h2"
  using inside_trans by (auto simp: keeps_def)

lemma node_cases: "colour t = RB_RED \<Longrightarrow> \<exists>y a d z. t = mk dir y a RB_RED d z"
  by (cases t; cases dir) (auto simp: exI)

lemma insert_loop_stops:
  assumes "tree_at h root (plug fs nd)" "rbt nd" "cinv fs (bh nd)" "nd \<noteq> Leaf" "topc fs = RB_BLACK"
  shows "insert_loop (ptr_of nd) root h = Some (root, h) \<and> rbt (plug fs nd)"
  using red_parent_stops [OF assms(1,4,5)] rbt_plug [OF assms(2,3)] assms(5) by (subst insert_loop.simps) simp

text \<open>A round either moves the violation up by two nodes or removes it.\<close>

lemma insert_round_ok:
  assumes t: "tree_at h root (plug fs nd)" and inv: "rbt nd" "colour nd = RB_RED" "cinv fs (bh nd)" and c: "topc fs = RB_RED"
  shows "\<exists>nd' fs' root' h'. insert_round (ptr_of nd) (root, h) = Some (ptr_of nd', root', h') \<and> tree_at h' root' (plug fs' nd') \<and>
    rbt nd' \<and> colour nd' = RB_RED \<and> cinv fs' (bh nd') \<and> keeps (plug fs nd) h (plug fs' nd') h' \<and> length fs' < length fs"
proof -
  have nL: "nd \<noteq> Leaf" using inv(2) by auto
  obtain dp p pd s1 fs1 where f1: "fs = (dp, p, RB_RED, pd, s1) # fs1" using c by (cases fs) auto
  then obtain dg g gd u rest where f: "fs = (dp, p, RB_RED, pd, s1) # (dg, g, RB_BLACK, gd, u) # rest" using inv(3) by (cases fs1) auto
  have i: "rbt s1" "bh s1 = bh nd" "colour s1 = RB_BLACK" "rbt u" "bh u = bh nd" "cinv rest (bh nd + 1)" using inv(3) by (auto simp: f)
  consider (red) "colour u = RB_RED" | (outer) "colour u = RB_BLACK" "dp = dg" | (inner) "colour u = RB_BLACK" "dp = other dg"
    by (cases "colour u"; cases dp; cases dg) auto
  then show ?thesis
  proof cases
    case red
    then obtain ul ui ud ur where u: "u = mk RB_LEFT ul ui RB_RED ud ur" using node_cases by blast
    let ?nd' = "mk dg (mk dp nd p RB_BLACK pd s1) g RB_RED gd (mk RB_LEFT ul ui RB_BLACK ud ur)"
    obtain h' where h': "insert_round (ptr_of nd) (root, h) = Some (Ref g, root, h')" "tree_at h' root (plug rest ?nd')" "inside (plug fs nd) h h'"
      using round_red_uncle [OF t [unfolded f u] nL] unfolding f u by blast
    have "rbt ?nd'" "cinv rest (bh ?nd')" using i inv u by simp_all
    moreover have "keeps (plug fs nd) h (plug rest ?nd') h'"
      using h'(3) unfolding keeps_def by (cases dp; cases dg) (simp_all add: f u inorder_plug plug_addrs)
    ultimately show ?thesis using h'(1,2) by (intro exI [of _ ?nd'] exI [of _ rest] exI [of _ root] exI [of _ h']) (simp add: f)
  next
    case outer
    let ?fs' = "(dg, p, RB_BLACK, pd, mk dg s1 g RB_RED gd u) # rest"
    obtain h' root' where h': "insert_round (ptr_of nd) (root, h) = Some (ptr_of nd, root', h')" "tree_at h' root' (plug ?fs' nd)" "inside (plug fs nd) h h'"
      using round_outer [OF t [unfolded f outer(2)] nL outer(1)] unfolding f outer(2) by blast
    moreover have "cinv ?fs' (bh nd)" using i outer by simp
    moreover have "keeps (plug fs nd) h (plug ?fs' nd) h'"
      using h'(3) unfolding keeps_def by (cases dg) (simp_all add: f outer(2) inorder_plug plug_addrs Un_ac insert_commute)
    ultimately show ?thesis using inv by (intro exI [of _ nd] exI [of _ ?fs'] exI [of _ root'] exI [of _ h']) (simp add: f)
  next
    case inner
    obtain y a d z where nd: "nd = mk dg y a RB_RED d z" using node_cases [OF inv(2)] by blast
    let ?fs' = "(dg, a, RB_BLACK, d, mk dg z g RB_RED gd u) # rest" and ?nd' = "mk dg s1 p RB_RED pd y"
    obtain h' root' where h': "insert_round (ptr_of nd) (root, h) = Some (Ref p, root', h')" "tree_at h' root' (plug ?fs' ?nd')" "inside (plug fs nd) h h'"
      using round_inner [OF t [unfolded f inner(2) nd] inner(1)] unfolding f inner(2) nd by auto
    moreover have "rbt ?nd'" "bh ?nd' = bh nd" "cinv ?fs' (bh nd)" using i inv inner by (simp_all add: nd)
    moreover have "keeps (plug fs nd) h (plug ?fs' ?nd') h'"
      using h'(3) unfolding keeps_def by (cases dg) (simp_all add: f inner(2) nd inorder_plug plug_addrs Un_ac insert_commute)
    ultimately show ?thesis by (intro exI [of _ ?nd'] exI [of _ ?fs'] exI [of _ root'] exI [of _ h']) (simp add: f)
  qed
qed

lemma insert_loop_ok:
  assumes "tree_at h root (plug fs nd)" "rbt nd" "colour nd = RB_RED" "cinv fs (bh nd)"
  shows "\<exists>root' h' t'. insert_loop (ptr_of nd) root h = Some (root', h') \<and> tree_at h' root' t' \<and> rbt t' \<and> keeps (plug fs nd) h t' h'"
  using assms
proof (induction "length fs" arbitrary: fs nd root h rule: less_induct)
  case less
  have nL: "nd \<noteq> Leaf" using less.prems(3) by auto
  show ?case
  proof (cases "topc fs = RB_RED")
    case False
    then show ?thesis using insert_loop_stops [OF less.prems(1,2,4) nL] less.prems(1) by (auto simp: keeps_def)
  next
    case True
    obtain nd' fs' root1 h1 where r: "insert_round (ptr_of nd) (root, h) = Some (ptr_of nd', root1, h1)" "tree_at h1 root1 (plug fs' nd')"
      "rbt nd'" "colour nd' = RB_RED" "cinv fs' (bh nd')" "keeps (plug fs nd) h (plug fs' nd') h1" "length fs' < length fs"
      using insert_round_ok [OF less.prems True] by blast
    obtain root' h' t' where l: "insert_loop (ptr_of nd') root1 h1 = Some (root', h')" "tree_at h' root' t'" "rbt t'" "keeps (plug fs' nd') h1 t' h'"
      using less.hyps [OF r(7,2-5)] by blast
    obtain dp p pd s1 rest where f: "fs = (dp, p, RB_RED, pd, s1) # rest" using True by (cases fs) auto
    have "red_parent (ptr_of nd) root h = Some True" using red_parent_goes [OF less.prems(1) [unfolded f] nL] .
    then have "insert_loop (ptr_of nd) root h = Some (root', h')" using r(1) l(1) by (subst insert_loop.simps) simp
    then show ?thesis using l(2,3) keeps_trans [OF r(6) l(4)] by blast
  qed
qed

text \<open>The root is painted black at the end.\<close>

fun black_root :: "ltree \<Rightarrow> ltree" where
  "black_root Leaf = Leaf"
| "black_root (Node l a c d r) = Node l a RB_BLACK d r"

lemma black_root_simps [simp]: "inorder (black_root t) = inorder t" "addrs (black_root t) = addrs t" "rbt t \<Longrightarrow> rbt (black_root t)"
  "colour (black_root t) = RB_BLACK" "black_root t = Leaf \<longleftrightarrow> t = Leaf"
  by (cases t; simp)+

lemma set_root_black:
  assumes "tree_at h root t" "t \<noteq> Leaf"
  shows "\<exists>h'. set_color root RB_BLACK h = Some h' \<and> tree_at h' root (black_root t) \<and> keeps t h (black_root t) h'"
proof -
  obtain l a c d r where t: "t = mk RB_LEFT l a c d r" using assms(2) by (cases t) auto
  have "tree_at h root (plug [] (mk RB_LEFT l a c d r))" "root = Ref a" using assms(1) by (simp_all add: t tree_at_def)
  then show ?thesis using set_color_node [of h root "[]" RB_LEFT l a c d r RB_BLACK] by (auto simp: t keeps_def)
qed

lemma insert_fixup_ok:
  assumes "tree_at h root (plug fs nd)" "rbt nd" "colour nd = RB_RED" "cinv fs (bh nd)"
  shows "\<exists>root' h' t'. insert_fixup root (ptr_of nd) h = Some (root', h') \<and> tree_at h' root' t' \<and> rbt t' \<and> colour t' = RB_BLACK \<and> keeps (plug fs nd) h t' h'"
proof -
  obtain root' h1 t1 where l: "insert_loop (ptr_of nd) root h = Some (root', h1)" "tree_at h1 root' t1" "rbt t1" "keeps (plug fs nd) h t1 h1"
    using insert_loop_ok [OF assms] by blast
  have "nd \<noteq> Leaf" using assms(3) by auto
  then have "inorder t1 \<noteq> []" using l(4) by (cases nd) (auto simp: keeps_def inorder_plug)
  then have "t1 \<noteq> Leaf" by auto
  from set_root_black [OF l(2) this] obtain h' where h': "set_color root' RB_BLACK h1 = Some h'" "tree_at h' root' (black_root t1)"
    "keeps t1 h1 (black_root t1) h'" by blast
  have "insert_fixup root (ptr_of nd) h = Some (root', h')" using l(1) h'(1) by (simp add: insert_fixup_def)
  then show ?thesis using h'(2) l(3) keeps_trans [OF l(4) h'(3)] by (intro exI [of _ root'] exI [of _ h'] exI [of _ "black_root t1"]) simp
qed

section \<open>Search\<close>

text \<open>The keys decrease along the sequence, since the smaller ones are on the right.\<close>

definition ordered :: "(nat \<Rightarrow> u64) \<Rightarrow> nat list \<Rightarrow> bool" where
  "ordered key xs \<longleftrightarrow> sorted_wrt (\<lambda>x y. key y < key x) xs"

definition rb_map :: "(nat \<Rightarrow> u64) \<Rightarrow> nat list \<Rightarrow> u64 \<rightharpoonup> nat" where
  "rb_map key xs = map_of (map (\<lambda>d. (key d, d)) xs)"

lemma ordered_split: "ordered key (xs @ d # ys) \<longleftrightarrow>
    ordered key xs \<and> ordered key ys \<and> (\<forall>x \<in> set xs. key d < key x) \<and> (\<forall>y \<in> set ys. key y < key d) \<and> (\<forall>x \<in> set xs. \<forall>y \<in> set ys. key y < key x)"
  by (auto simp: ordered_def sorted_wrt_append)

lemma ordered_append: "ordered key (xs @ ys) \<longleftrightarrow> ordered key xs \<and> ordered key ys \<and> (\<forall>x \<in> set xs. \<forall>y \<in> set ys. key y < key x)"
  by (simp add: ordered_def sorted_wrt_append)

lemma rb_map_None: "\<forall>x \<in> set xs. key x \<noteq> k \<Longrightarrow> rb_map key xs k = None"
  by (auto simp: rb_map_def map_of_eq_None_iff)

lemma rb_map_append: "rb_map key (xs @ ys) = rb_map key ys ++ rb_map key xs"
  by (simp add: rb_map_def)

lemma rb_map_Cons [simp]: "rb_map key (x # xs) = (rb_map key xs)(key x \<mapsto> x)" "rb_map key [] = Map.empty"
  by (simp_all add: rb_map_def)

text \<open>The side of a node on which a key is looked for.\<close>

lemma rb_map_side:
  assumes "ordered key (inorder l @ d # inorder r)" "k \<noteq> key d"
  shows "rb_map key (inorder l @ d # inorder r) k = rb_map key (inorder (if k < key d then r else l)) k"
proof (cases "k < key d")
  case True
  then have "rb_map key (inorder l) k = None" using assms(1) by (intro rb_map_None) (force simp: ordered_split)
  then show ?thesis using True assms(2) by (simp add: rb_map_append map_add_def)
next
  case False
  then have "rb_map key (inorder r) k = None" using assms by (intro rb_map_None) (force simp: ordered_split)
  then show ?thesis using False assms(2) by (simp add: rb_map_append map_add_def split: option.split)
qed

lemma find_node_ok:
  assumes "rep (cells h) q t" "0 \<notin> set (addrs t)" "ordered key (inorder t)"
  shows "\<exists>p. find_node key (ptr_of t) k h = Some p \<and>
    (case rb_map key (inorder t) k of None \<Rightarrow> p = Null | Some d \<Rightarrow> \<exists>a n. p = Ref a \<and> a \<in> set (addrs t) \<and> cells h a = Some n \<and> rb_data n = d)"
  using assms
proof (induction t arbitrary: q)
  case Leaf
  then show ?case by (subst find_node.simps) simp
next
  case (Node l a c d r)
  have a: "Ref a \<noteq> RB_NIL" using Node.prems(2) by (simp add: RB_NIL_def)
  show ?case
  proof (cases "key d = k")
    case True
    have "rb_map key (inorder l) k = None" using Node.prems(3) True by (intro rb_map_None) (force simp: ordered_split)
    then have "rb_map key (inorder (Node l a c d r)) k = Some d" using True by (simp add: rb_map_append map_add_def)
    moreover have "find_node key (Ref a) k h = Some (Ref a)" using Node.prems(1) True a by (subst find_node.simps) simp
    ultimately show ?thesis using Node.prems(1) by auto
  next
    case False
    let ?s = "if k < key d then r else l"
    have m: "rb_map key (inorder (Node l a c d r)) k = rb_map key (inorder ?s) k" using rb_map_side [of key l d r k] Node.prems(3) False by simp
    have "find_node key (Ref a) k h = find_node key (ptr_of ?s) k h"
      using Node.prems(1) a False by (subst find_node.simps) (simp add: side_def)
    moreover have "\<exists>p. find_node key (ptr_of ?s) k h = Some p \<and>
      (case rb_map key (inorder ?s) k of None \<Rightarrow> p = Null | Some d \<Rightarrow> \<exists>a n. p = Ref a \<and> a \<in> set (addrs ?s) \<and> cells h a = Some n \<and> rb_data n = d)"
      using Node.IH [of "Ref a"] Node.prems by (simp add: ordered_split)
    ultimately show ?thesis unfolding m by (auto split: option.splits if_splits)
  qed
qed

section \<open>The place of a new key\<close>

lemma plug_append: "plug (fs @ gs) t = plug gs (plug fs t)"
  by (induction fs t rule: plug.induct) auto

lemma before_append: "before (fs @ gs) = before gs @ before fs"
  by (induction fs rule: before.induct) auto

lemma after_append: "after (fs @ gs) = after fs @ after gs"
  by (induction fs rule: after.induct) auto

text \<open>A path that leads to where the key \<open>k\<close> belongs.\<close>

definition leads :: "(nat \<Rightarrow> u64) \<Rightarrow> u64 \<Rightarrow> frame list \<Rightarrow> bool" where
  "leads key k fs \<longleftrightarrow> (\<forall>(dir, a, c, d, sib) \<in> set fs. dir = side (k < key d)) \<and> (\<forall>x \<in> set (before fs). k < key x) \<and> (\<forall>x \<in> set (after fs). key x < k)"

lemma insert_pos_ok:
  assumes "rep (cells h) (par fs) t" "0 \<notin> set (addrs t)" "ordered key (inorder t)"
  shows "case rb_map key (inorder t) k of Some d \<Rightarrow> insert_pos key k (ptr_of t) (par fs) h = Some (Inl d)
    | None \<Rightarrow> \<exists>gs. insert_pos key k (ptr_of t) (par fs) h = Some (Inr (par (gs @ fs))) \<and> plug gs Leaf = t \<and> leads key k gs"
  using assms
proof (induction t arbitrary: fs)
  case Leaf
  have "insert_pos key k RB_NIL (par fs) h = Some (Inr (par fs))" by (subst insert_pos.simps) simp
  then show ?case by (auto simp: leads_def intro!: exI [of _ "[]"])
next
  case (Node l a c d r)
  have a: "Ref a \<noteq> RB_NIL" using Node.prems(2) by (simp add: RB_NIL_def)
  show ?case
  proof (cases "key d = k")
    case True
    have "rb_map key (inorder l) k = None" using Node.prems(3) True by (intro rb_map_None) (force simp: ordered_split)
    then have "rb_map key (inorder (Node l a c d r)) k = Some d" using True by (simp add: rb_map_append map_add_def)
    moreover have "insert_pos key k (Ref a) (par fs) h = Some (Inl d)" using Node.prems(1) True a by (subst insert_pos.simps) simp
    ultimately show ?thesis by simp
  next
    case False
    let ?s = "if k < key d then r else l" and ?o = "if k < key d then l else r"
    let ?f = "(side (k < key d), a, c, d, ?o)"
    have m: "rb_map key (inorder (Node l a c d r)) k = rb_map key (inorder ?s) k" using rb_map_side [of key l d r k] Node.prems(3) False by simp
    have pos: "insert_pos key k (Ref a) (par fs) h = insert_pos key k (ptr_of ?s) (par (?f # fs)) h"
      using Node.prems(1) a False by (subst insert_pos.simps) (simp add: side_def)
    have ih: "case rb_map key (inorder ?s) k of Some d \<Rightarrow> insert_pos key k (ptr_of ?s) (par (?f # fs)) h = Some (Inl d)
      | None \<Rightarrow> \<exists>gs. insert_pos key k (ptr_of ?s) (par (?f # fs)) h = Some (Inr (par (gs @ ?f # fs))) \<and> plug gs Leaf = ?s \<and> leads key k gs"
      using Node.IH [of "?f # fs"] Node.prems by (simp add: ordered_split)
    have "leads key k (gs @ [?f]) \<and> plug (gs @ [?f]) Leaf = Node l a c d r" if "leads key k gs" "plug gs Leaf = ?s" for gs
      using that False Node.prems(3) by (auto simp: leads_def plug_append before_append after_append side_def ordered_split)
    then show ?thesis using ih unfolding m ptr_of.simps pos
      by (auto split: option.splits) (metis append.assoc append_Cons append_Nil)+
  qed
qed

end
