(* ===== verification/Rb_Remove.thy ===== *)
theory Rb_Remove
  imports Rb_Insert
begin

text \<open>
  Removal from the red-black trees: the loop that restores the black heights after a black node has been
  taken out. The subtree in focus lacks one black node; when it is empty, the loop finds its parent through the
  parent pointer of the shared sentinel.
\<close>

section \<open>Parts of a round\<close>

definition remove_red :: "rb_ptr \<Rightarrow> rb_tree_direction \<Rightarrow> rb_ptr \<Rightarrow> rb_ptr \<Rightarrow> rb_heap \<Rightarrow> (rb_ptr \<times> rb_ptr \<times> rb_heap) option" where
  "remove_red nd dir sib0 root h = do {
     ha \<leftarrow> set_color sib0 RB_BLACK h;
     pa \<leftarrow> parent_of ha nd;
     hb \<leftarrow> set_color pa RB_RED ha;
     (r, hc) \<leftarrow> rotate_at pa (other dir) (root, hb);
     pb \<leftarrow> parent_of hc nd;
     sb \<leftarrow> child_of hc pb dir;
     Some (sb, r, hc)
   }"

definition remove_near :: "rb_ptr \<Rightarrow> rb_tree_direction \<Rightarrow> rb_ptr \<Rightarrow> rb_ptr \<Rightarrow> rb_ptr \<Rightarrow> rb_heap \<Rightarrow> (rb_ptr \<times> rb_ptr \<times> rb_heap) option" where
  "remove_near nd dir sib near root1 h1 = do {
     ha \<leftarrow> set_color near RB_BLACK h1;
     hb \<leftarrow> set_color sib RB_RED ha;
     (r, hc) \<leftarrow> rotate_at sib dir (root1, hb);
     pc \<leftarrow> parent_of hc nd;
     sc \<leftarrow> child_of hc pc dir;
     Some (sc, r, hc)
   }"

definition remove_far :: "rb_ptr \<Rightarrow> rb_tree_direction \<Rightarrow> rb_ptr \<Rightarrow> rb_ptr \<Rightarrow> rb_heap \<Rightarrow> (rb_ptr \<times> rb_ptr \<times> rb_heap) option" where
  "remove_far nd dir sib2 root2 h2 = do {
     p2 \<leftarrow> parent_of h2 nd;
     cp \<leftarrow> color_of h2 p2;
     h3 \<leftarrow> set_color sib2 cp h2;
     h4 \<leftarrow> set_color p2 RB_BLACK h3;
     far2 \<leftarrow> child_of h4 sib2 dir;
     h5 \<leftarrow> set_color far2 RB_BLACK h4;
     (root3, h6) \<leftarrow> rotate_at p2 (other dir) (root2, h5);
     Some (root3, root3, h6)
   }"

definition remove_tail :: "rb_ptr \<Rightarrow> rb_tree_direction \<Rightarrow> rb_ptr \<Rightarrow> rb_ptr \<Rightarrow> rb_heap \<Rightarrow> (rb_ptr \<times> rb_ptr \<times> rb_heap) option" where
  "remove_tail nd dir sib root1 h1 = do {
     near \<leftarrow> child_of h1 sib (other dir);
     far \<leftarrow> child_of h1 sib dir;
     cnear \<leftarrow> color_of h1 near;
     cfar \<leftarrow> color_of h1 far;
     if cnear = RB_BLACK \<and> cfar = RB_BLACK then do {
       h2 \<leftarrow> set_color sib RB_RED h1;
       p2 \<leftarrow> parent_of h2 nd;
       Some (p2, root1, h2)
     } else do {
       (sib2, root2, h2) \<leftarrow> (if cfar = RB_BLACK then remove_near nd dir sib near root1 h1 else Some (sib, root1, h1));
       remove_far nd dir sib2 root2 h2
     }
   }"

lemma remove_round_parts: "remove_round nd (root, h) = do {
    p \<leftarrow> parent_of h nd;
    l \<leftarrow> child_of h p RB_LEFT;
    sib0 \<leftarrow> child_of h p (side (nd = l));
    c0 \<leftarrow> color_of h sib0;
    (sib, root1, h1) \<leftarrow> (if c0 = RB_RED then remove_red nd (side (nd = l)) sib0 root h else Some (sib0, root, h));
    remove_tail nd (side (nd = l)) sib root1 h1 }"
  unfolding remove_round_def remove_red_def remove_tail_def remove_near_def remove_far_def Let_def prod.case by (rule refl)

section \<open>The focus\<close>

text \<open>The tree with the parent of the focus known, also when the focus is the sentinel.\<close>

definition focus_at :: "rb_heap \<Rightarrow> rb_ptr \<Rightarrow> frame list \<Rightarrow> ltree \<Rightarrow> bool" where
  "focus_at h root fs t \<longleftrightarrow> tree_at h root (plug fs t) \<and> parent_of h (ptr_of t) = Some (par fs)"

lemma focus_step:
  assumes "focus_at h root fs t" "tree_at h' root' (plug fs' t)" "inside (plug fs t) h h'" "par fs' = par fs"
  shows "focus_at h' root' fs' t"
proof (cases "t = Leaf")
  case True
  have "cells h' 0 = cells h 0" using assms(1,3) by (simp add: focus_at_def tree_at_def inside_def)
  then show ?thesis using assms True by (simp add: focus_at_def parent_of_def RB_NIL_def)
next
  case False
  have "rep (cells h') (par fs') t" using assms(2) by (simp add: tree_at_def plug_rep)
  then show ?thesis using assms(2) parent_of_tree [OF _ False] by (simp add: focus_at_def)
qed

lemma nephews:
  assumes "tree_at h root (plug ((dn, p, cp, pd, mk dn y b cb bd z) # rest) t)"
  shows "child_of h (Ref b) dn = Some (ptr_of y)" "child_of h (Ref b) (other dn) = Some (ptr_of z)"
    "color_of h (ptr_of y) = Some (colour y)" "color_of h (ptr_of z) = Some (colour z)" "color_of h (Ref b) = Some cb"
    "child_of h (Ref p) (other dn) = Some (Ref b)" "color_of h (Ref p) = Some cp"
    "\<exists>l. child_of h (Ref p) RB_LEFT = Some l \<and> side (ptr_of t = l) = other dn"
proof -
  have tp: "tree_at h root (plug rest (mk dn t p cp pd (mk dn y b cb bd z)))" using assms by simp
  note P = tree_at_focus [OF tp]
  have B: "cells h b = Some (mkn dn (Ref p) (ptr_of y) (ptr_of z) cb bd)" "rep (cells h) (Ref b) y" "rep (cells h) (Ref b) z" using P(3) by simp_all
  then show "child_of h (Ref b) dn = Some (ptr_of y)" "child_of h (Ref b) (other dn) = Some (ptr_of z)" "color_of h (Ref b) = Some cb"
    "color_of h (ptr_of y) = Some (colour y)" "color_of h (ptr_of z) = Some (colour z)" using color_of_tree [OF tp] by simp_all
  show "child_of h (Ref p) (other dn) = Some (Ref b)" "color_of h (Ref p) = Some cp" using P(1) by simp_all
  have "Ref b \<noteq> ptr_of t" using P(5,7) by (cases t) (auto simp: RB_NIL_def)
  then show "\<exists>l. child_of h (Ref p) RB_LEFT = Some l \<and> side (ptr_of t = l) = other dn" using P(1) by (cases dn) (auto simp: side_def)
qed

lemma focus_parent: "focus_at h root ((dn, p, cp, pd, sib) # rest) t \<Longrightarrow> parent_of h (ptr_of t) = Some (Ref p)"
  by (simp add: focus_at_def)

lemma focus_tree: "focus_at h root fs t \<Longrightarrow> tree_at h root (plug fs t)"
  by (simp add: focus_at_def)

text \<open>Colouring the parent and the sibling.\<close>

lemma focus_color_parent:
  assumes "focus_at h root ((dn, p, cp, pd, sib) # rest) t"
  shows "\<exists>h'. set_color (Ref p) c h = Some h' \<and> focus_at h' root ((dn, p, c, pd, sib) # rest) t \<and>
    inside (plug ((dn, p, cp, pd, sib) # rest) t) h h'"
proof -
  have "tree_at h root (plug rest (mk dn t p cp pd sib))" using focus_tree [OF assms] by simp
  from set_color_node [OF this, of c] obtain h' where h': "set_color (Ref p) c h = Some h'" "tree_at h' root (plug rest (mk dn t p c pd sib))"
    "inside (plug rest (mk dn t p cp pd sib)) h h'" by blast
  then show ?thesis using focus_step [OF assms, of h' root "(dn, p, c, pd, sib) # rest"] by auto
qed

lemma focus_color_sib:
  assumes "focus_at h root ((dn, p, cp, pd, mk ds y b cb bd z) # rest) t"
  shows "\<exists>h'. set_color (Ref b) c h = Some h' \<and> focus_at h' root ((dn, p, cp, pd, mk ds y b c bd z) # rest) t \<and>
    inside (plug ((dn, p, cp, pd, mk ds y b cb bd z) # rest) t) h h'"
proof -
  have "tree_at h root (plug ((other dn, p, cp, pd, t) # rest) (mk ds y b cb bd z))" using focus_tree [OF assms] by (simp add: mk_other)
  from set_color_node [OF this, of c] obtain h' where h': "set_color (Ref b) c h = Some h'"
    "tree_at h' root (plug ((other dn, p, cp, pd, t) # rest) (mk ds y b c bd z))"
    "inside (plug ((other dn, p, cp, pd, t) # rest) (mk ds y b cb bd z)) h h'" by blast
  then show ?thesis using focus_step [OF assms, of h' root "(dn, p, cp, pd, mk ds y b c bd z) # rest"] by (auto simp: mk_other)
qed

text \<open>Colouring a child of the sibling.\<close>

lemma focus_color_nephew:
  assumes "focus_at h root ((dn, p, cp, pd, mk ds (mk de u e ce ed v) b cb bd z) # rest) t"
  shows "\<exists>h'. set_color (Ref e) c h = Some h' \<and> focus_at h' root ((dn, p, cp, pd, mk ds (mk de u e c ed v) b cb bd z) # rest) t \<and>
    inside (plug ((dn, p, cp, pd, mk ds (mk de u e ce ed v) b cb bd z) # rest) t) h h'"
proof -
  have "tree_at h root (plug ((ds, b, cb, bd, z) # (other dn, p, cp, pd, t) # rest) (mk de u e ce ed v))"
    using focus_tree [OF assms] by (simp add: mk_other)
  from set_color_node [OF this, of c] obtain h' where h': "set_color (Ref e) c h = Some h'"
    "tree_at h' root (plug ((ds, b, cb, bd, z) # (other dn, p, cp, pd, t) # rest) (mk de u e c ed v))"
    "inside (plug ((ds, b, cb, bd, z) # (other dn, p, cp, pd, t) # rest) (mk de u e ce ed v)) h h'" by blast
  then show ?thesis using focus_step [OF assms, of h' root "(dn, p, cp, pd, mk ds (mk de u e c ed v) b cb bd z) # rest"] by (auto simp: mk_other)
qed

text \<open>Rotating the parent towards the focus.\<close>

lemma focus_rotate_parent:
  assumes "focus_at h root ((dn, p, cp, pd, mk dn y b cb bd z) # rest) t"
  shows "\<exists>h' root'. rotate_at (Ref p) dn (root, h) = Some (root', h') \<and> focus_at h' root' ((dn, p, cp, pd, y) # (dn, b, cb, bd, z) # rest) t \<and>
    inside (plug ((dn, p, cp, pd, mk dn y b cb bd z) # rest) t) h h'"
proof -
  have "tree_at h root (plug rest (mk dn t p cp pd (mk dn y b cb bd z)))" using focus_tree [OF assms] by simp
  from rotate_ok [OF this] obtain h' root' where h': "rotate_at (Ref p) dn (root, h) = Some (root', h')"
    "tree_at h' root' (plug rest (mk dn (mk dn t p cp pd y) b cb bd z))"
    "inside (plug rest (mk dn t p cp pd (mk dn y b cb bd z))) h h'" by blast
  then show ?thesis using focus_step [OF assms, of h' root' "(dn, p, cp, pd, y) # (dn, b, cb, bd, z) # rest"] by auto
qed

text \<open>Rotating the sibling away from the focus.\<close>

lemma focus_rotate_sib:
  assumes "focus_at h root ((dn, p, cp, pd, mk dn (mk dn u e ce ed v) b cb bd z) # rest) t"
  shows "\<exists>h' root'. rotate_at (Ref b) (other dn) (root, h) = Some (root', h') \<and>
    focus_at h' root' ((dn, p, cp, pd, mk dn u e ce ed (mk dn v b cb bd z)) # rest) t \<and>
    inside (plug ((dn, p, cp, pd, mk dn (mk dn u e ce ed v) b cb bd z) # rest) t) h h'"
proof -
  have "tree_at h root (plug ((other dn, p, cp, pd, t) # rest) (mk (other dn) z b cb bd (mk (other dn) v e ce ed u)))"
    using focus_tree [OF assms] by (simp add: mk_other)
  from rotate_ok [OF this] obtain h' root' where h': "rotate_at (Ref b) (other dn) (root, h) = Some (root', h')"
    "tree_at h' root' (plug ((other dn, p, cp, pd, t) # rest) (mk (other dn) (mk (other dn) z b cb bd v) e ce ed u))"
    "inside (plug ((other dn, p, cp, pd, t) # rest) (mk (other dn) z b cb bd (mk (other dn) v e ce ed u))) h h'" by blast
  then show ?thesis using focus_step [OF assms, of h' root' "(dn, p, cp, pd, mk dn u e ce ed (mk dn v b cb bd z)) # rest"] by (auto simp: mk_other)
qed

section \<open>One round\<close>

lemma remove_red_ok:
  assumes t: "focus_at h root ((dn, p, cp, pd, mk dn y b RB_RED bd z) # rest) t"
  shows "\<exists>r h'. remove_red (ptr_of t) (other dn) (Ref b) root h = Some (ptr_of y, r, h') \<and>
    focus_at h' r ((dn, p, RB_RED, pd, y) # (dn, b, RB_BLACK, bd, z) # rest) t \<and> inside (plug ((dn, p, cp, pd, mk dn y b RB_RED bd z) # rest) t) h h'"
proof -
  obtain ha where ha: "set_color (Ref b) RB_BLACK h = Some ha" "focus_at ha root ((dn, p, cp, pd, mk dn y b RB_BLACK bd z) # rest) t"
    "inside (plug ((dn, p, cp, pd, mk dn y b RB_RED bd z) # rest) t) h ha" using focus_color_sib [OF t] by blast
  obtain hb where hb: "set_color (Ref p) RB_RED ha = Some hb" "focus_at hb root ((dn, p, RB_RED, pd, mk dn y b RB_BLACK bd z) # rest) t"
    "inside (plug ((dn, p, cp, pd, mk dn y b RB_BLACK bd z) # rest) t) ha hb" using focus_color_parent [OF ha(2)] by blast
  obtain hc r where hc: "rotate_at (Ref p) dn (root, hb) = Some (r, hc)" "focus_at hc r ((dn, p, RB_RED, pd, y) # (dn, b, RB_BLACK, bd, z) # rest) t"
    "inside (plug ((dn, p, RB_RED, pd, mk dn y b RB_BLACK bd z) # rest) t) hb hc" using focus_rotate_parent [OF hb(2)] by blast
  have "tree_at hc r (plug ((dn, b, RB_BLACK, bd, z) # rest) (mk dn t p RB_RED pd y))" using focus_tree [OF hc(2)] by simp
  then have "child_of hc (Ref p) (other dn) = Some (ptr_of y)" using tree_at_focus(1) by fastforce
  then have "remove_red (ptr_of t) (other dn) (Ref b) root h = Some (ptr_of y, r, hc)"
    using ha(1) hb(1) hc(1) focus_parent [OF ha(2)] focus_parent [OF hc(2)] by (simp add: remove_red_def)
  moreover have "inside (plug ((dn, p, cp, pd, mk dn y b RB_RED bd z) # rest) t) h hc"
    using inside_trans [OF inside_trans [OF ha(3) hb(3)] hc(3)] by (simp add: plug_addrs)
  ultimately show ?thesis using hc(2) by blast
qed

lemma remove_near_ok:
  assumes t: "focus_at h root ((dn, p, cp, pd, mk dn (mk dn u e ce ed v) b cb bd z) # rest) t"
  shows "\<exists>r h'. remove_near (ptr_of t) (other dn) (Ref b) (Ref e) root h = Some (Ref e, r, h') \<and>
    focus_at h' r ((dn, p, cp, pd, mk dn u e RB_BLACK ed (mk dn v b RB_RED bd z)) # rest) t \<and>
    inside (plug ((dn, p, cp, pd, mk dn (mk dn u e ce ed v) b cb bd z) # rest) t) h h'"
proof -
  obtain ha where ha: "set_color (Ref e) RB_BLACK h = Some ha" "focus_at ha root ((dn, p, cp, pd, mk dn (mk dn u e RB_BLACK ed v) b cb bd z) # rest) t"
    "inside (plug ((dn, p, cp, pd, mk dn (mk dn u e ce ed v) b cb bd z) # rest) t) h ha" using focus_color_nephew [OF t] by blast
  obtain hb where hb: "set_color (Ref b) RB_RED ha = Some hb" "focus_at hb root ((dn, p, cp, pd, mk dn (mk dn u e RB_BLACK ed v) b RB_RED bd z) # rest) t"
    "inside (plug ((dn, p, cp, pd, mk dn (mk dn u e RB_BLACK ed v) b cb bd z) # rest) t) ha hb" using focus_color_sib [OF ha(2)] by blast
  obtain hc r where hc: "rotate_at (Ref b) (other dn) (root, hb) = Some (r, hc)"
    "focus_at hc r ((dn, p, cp, pd, mk dn u e RB_BLACK ed (mk dn v b RB_RED bd z)) # rest) t"
    "inside (plug ((dn, p, cp, pd, mk dn (mk dn u e RB_BLACK ed v) b RB_RED bd z) # rest) t) hb hc" using focus_rotate_sib [OF hb(2)] by blast
  have "remove_near (ptr_of t) (other dn) (Ref b) (Ref e) root h = Some (Ref e, r, hc)"
    using ha(1) hb(1) hc(1) focus_parent [OF hc(2)] nephews(6) [OF focus_tree [OF hc(2)]] by (simp add: remove_near_def)
  moreover have "inside (plug ((dn, p, cp, pd, mk dn (mk dn u e ce ed v) b cb bd z) # rest) t) h hc"
    using inside_trans [OF inside_trans [OF ha(3) hb(3)] hc(3)] by (simp add: plug_addrs)
  ultimately show ?thesis using hc(2) by blast
qed

lemma remove_far_ok:
  assumes t: "focus_at h root ((dn, p, cp, pd, mk dn y b cb bd (mk de u e ce ed v)) # rest) t"
  shows "\<exists>r h'. remove_far (ptr_of t) (other dn) (Ref b) root h = Some (r, r, h') \<and>
    tree_at h' r (plug rest (mk dn (mk dn t p RB_BLACK pd y) b cp bd (mk de u e RB_BLACK ed v))) \<and>
    inside (plug ((dn, p, cp, pd, mk dn y b cb bd (mk de u e ce ed v)) # rest) t) h h'"
proof -
  let ?far = "mk de u e ce ed v" and ?far' = "mk de u e RB_BLACK ed v"
  obtain h3 where h3: "set_color (Ref b) cp h = Some h3" "focus_at h3 root ((dn, p, cp, pd, mk dn y b cp bd ?far) # rest) t"
    "inside (plug ((dn, p, cp, pd, mk dn y b cb bd ?far) # rest) t) h h3" using focus_color_sib [OF t] by blast
  obtain h4 where h4: "set_color (Ref p) RB_BLACK h3 = Some h4" "focus_at h4 root ((dn, p, RB_BLACK, pd, mk dn y b cp bd ?far) # rest) t"
    "inside (plug ((dn, p, cp, pd, mk dn y b cp bd ?far) # rest) t) h3 h4" using focus_color_parent [OF h3(2)] by blast
  have "focus_at h4 root ((dn, p, RB_BLACK, pd, mk (other dn) ?far b cp bd y) # rest) t" using h4(2) by (simp add: mk_other)
  from focus_color_nephew [OF this, of RB_BLACK] obtain h5 where h5: "set_color (Ref e) RB_BLACK h4 = Some h5"
    "focus_at h5 root ((dn, p, RB_BLACK, pd, mk dn y b cp bd ?far') # rest) t"
    "inside (plug ((dn, p, RB_BLACK, pd, mk dn y b cp bd ?far) # rest) t) h4 h5" by (auto simp: mk_other)
  obtain h6 r where h6: "rotate_at (Ref p) dn (root, h5) = Some (r, h6)" "focus_at h6 r ((dn, p, RB_BLACK, pd, y) # (dn, b, cp, bd, ?far') # rest) t"
    "inside (plug ((dn, p, RB_BLACK, pd, mk dn y b cp bd ?far') # rest) t) h5 h6" using focus_rotate_parent [OF h5(2)] by blast
  have "remove_far (ptr_of t) (other dn) (Ref b) root h = Some (r, r, h6)"
    using focus_parent [OF t] nephews(7) [OF focus_tree [OF t]] h3(1) h4(1) nephews(2) [OF focus_tree [OF h4(2)]] h5(1) h6(1)
    by (simp add: remove_far_def)
  moreover have "inside (plug ((dn, p, cp, pd, mk dn y b cb bd ?far) # rest) t) h h6"
    using inside_trans [OF inside_trans [OF inside_trans [OF h3(3) h4(3)] h5(3)] h6(3)] by (simp add: plug_addrs)
  ultimately show ?thesis using focus_tree [OF h6(2)] by auto
qed

text \<open>The subtree \<open>t\<close> lacks a black node below the path \<open>fs\<close>; its own root may be red below a red node.\<close>

definition short :: "frame list \<Rightarrow> ltree \<Rightarrow> bool" where
  "short fs t \<longleftrightarrow> rbt (black_root t) \<and> cinv fs (bh t + 1)"

lemma black_root_id [simp]: "colour t = RB_BLACK \<Longrightarrow> black_root t = t"
  by (cases t) auto

lemma black_root_mk [simp]: "black_root (mk dir x a c d y) = mk dir x a RB_BLACK d y"
  by (cases dir) auto

lemma root_focus: "tree_at h r t \<Longrightarrow> t \<noteq> Leaf \<Longrightarrow> focus_at h r [] t"
  using parent_of_tree by (auto simp: focus_at_def tree_at_def)

lemma red_mk: "colour z = RB_RED \<Longrightarrow> \<exists>u e ed v. z = mk RB_LEFT u e RB_RED ed v"
  by (rule node_cases)

lemma remove_tail_far:
  assumes t: "focus_at h root ((dn, p, cp, pd, mk dn y b cb bd z) # rest) t" and z: "colour z = RB_RED"
    and ok: "rbt t" "rbt y" "bh y = bh t" "rbt z" "bh z = bh t" "cinv rest (bh t + 1 + (if cp = RB_BLACK then 1 else 0))"
      "cp = RB_RED \<Longrightarrow> topc rest = RB_BLACK"
  shows "\<exists>t' r h'. remove_far (ptr_of t) (other dn) (Ref b) root h = Some (ptr_of t', r, h') \<and> focus_at h' r [] t' \<and> short [] t' \<and>
    keeps (plug ((dn, p, cp, pd, mk dn y b cb bd z) # rest) t) h t' h'"
proof -
  obtain u e ed v where zz: "z = mk RB_LEFT u e RB_RED ed v" using red_mk [OF z] by blast
  let ?T = "mk dn (mk dn t p RB_BLACK pd y) b cp bd (mk RB_LEFT u e RB_BLACK ed v)"
  let ?t' = "plug rest ?T"
  obtain r h' where h': "remove_far (ptr_of t) (other dn) (Ref b) root h = Some (r, r, h')" "tree_at h' r ?t'"
    "inside (plug ((dn, p, cp, pd, mk dn y b cb bd z) # rest) t) h h'" using remove_far_ok [OF t [unfolded zz]] unfolding zz by blast
  have "rbt ?T" "bh ?T = bh t + 1 + (if cp = RB_BLACK then 1 else 0)" using ok by (auto simp: zz)
  then have "rbt ?t'" using ok(6,7) by (intro rbt_plug) auto
  moreover have "?t' \<noteq> Leaf" using inorder_plug [of rest ?T] by (cases dn) force+
  moreover have "keeps (plug ((dn, p, cp, pd, mk dn y b cb bd z) # rest) t) h ?t' h'"
    using h'(3) unfolding keeps_def zz by (cases dn) (simp_all add: inorder_plug plug_addrs Un_ac insert_commute)
  moreover have "r = ptr_of ?t'" using h'(2) by (simp add: tree_at_def)
  ultimately show ?thesis using h'(1,2) root_focus [OF h'(2)] by (intro exI [of _ ?t'] exI [of _ r] exI [of _ h']) (simp add: short_def)
qed

text \<open>The part of the round behind the test of the sibling, which is black here.\<close>

lemma remove_tail_ok:
  assumes t: "focus_at h root ((dn, p, cp, pd, mk dn y b RB_BLACK bd z) # rest) t"
    and ok: "rbt t" "colour t = RB_BLACK" "rbt y" "bh y = bh t" "rbt z" "bh z = bh t" "cinv rest (bh t + 1 + (if cp = RB_BLACK then 1 else 0))"
      "cp = RB_RED \<Longrightarrow> topc rest = RB_BLACK"
  shows "\<exists>fs' t' r h'. remove_tail (ptr_of t) (other dn) (Ref b) root h = Some (ptr_of t', r, h') \<and> focus_at h' r fs' t' \<and> short fs' t' \<and>
    keeps (plug ((dn, p, cp, pd, mk dn y b RB_BLACK bd z) # rest) t) h (plug fs' t') h' \<and>
    (fs' = [] \<or> fs' = rest \<and> colour t' = cp)"
proof -
  note N = nephews [OF focus_tree [OF t]]
  consider (both) "colour y = RB_BLACK" "colour z = RB_BLACK" | (near) "colour y = RB_RED" "colour z = RB_BLACK" | (far) "colour z = RB_RED"
    by (cases "colour y"; cases "colour z") auto
  then show ?thesis
  proof cases
    case both
    let ?t' = "mk dn t p cp pd (mk dn y b RB_RED bd z)"
    obtain h2 where h2: "set_color (Ref b) RB_RED h = Some h2" "focus_at h2 root ((dn, p, cp, pd, mk dn y b RB_RED bd z) # rest) t"
      "inside (plug ((dn, p, cp, pd, mk dn y b RB_BLACK bd z) # rest) t) h h2" using focus_color_sib [OF t] by blast
    have tt: "tree_at h2 root (plug rest ?t')" using focus_tree [OF h2(2)] by simp
    then have "focus_at h2 root rest ?t'" using tree_at_focus(1) [OF tt] by (simp add: focus_at_def)
    moreover have "short rest ?t'" using ok both by (auto simp: short_def split: if_splits)
    moreover have "keeps (plug ((dn, p, cp, pd, mk dn y b RB_BLACK bd z) # rest) t) h (plug rest ?t') h2"
      using h2(3) unfolding keeps_def by (cases dn) (simp_all add: inorder_plug plug_addrs)
    moreover have "remove_tail (ptr_of t) (other dn) (Ref b) root h = Some (Ref p, root, h2)"
      using N both h2(1) focus_parent [OF h2(2)] by (simp add: remove_tail_def)
    ultimately show ?thesis by (intro exI [of _ rest] exI [of _ ?t'] exI [of _ root] exI [of _ h2]) simp
  next
    case near
    obtain u e ed v where y: "y = mk dn u e RB_RED ed v" using node_cases [OF near(1)] by blast
    obtain r h2 where h2: "remove_near (ptr_of t) (other dn) (Ref b) (Ref e) root h = Some (Ref e, r, h2)"
      "focus_at h2 r ((dn, p, cp, pd, mk dn u e RB_BLACK ed (mk dn v b RB_RED bd z)) # rest) t"
      "inside (plug ((dn, p, cp, pd, mk dn y b RB_BLACK bd z) # rest) t) h h2" using remove_near_ok [OF t [unfolded y]] unfolding y by blast
    have "rbt u" "bh u = bh t" "rbt (mk dn v b RB_RED bd z)" "bh (mk dn v b RB_RED bd z) = bh t" using ok near by (auto simp: y)
    then obtain t' r' h' where f: "remove_far (ptr_of t) (other dn) (Ref e) r h2 = Some (ptr_of t', r', h')" "focus_at h' r' [] t'" "short [] t'"
      "keeps (plug ((dn, p, cp, pd, mk dn u e RB_BLACK ed (mk dn v b RB_RED bd z)) # rest) t) h2 t' h'"
      using remove_tail_far [OF h2(2)] ok(1,7,8) by auto
    have "keeps (plug ((dn, p, cp, pd, mk dn y b RB_BLACK bd z) # rest) t) h (plug ((dn, p, cp, pd, mk dn u e RB_BLACK ed (mk dn v b RB_RED bd z)) # rest) t) h2"
      using h2(3) unfolding keeps_def y by (cases dn) (simp_all add: inorder_plug plug_addrs Un_ac insert_commute)
    note k = keeps_trans [OF this f(4)]
    have "remove_tail (ptr_of t) (other dn) (Ref b) root h = Some (ptr_of t', r', h')"
      using N near h2(1) f(1) by (simp add: remove_tail_def y)
    then show ?thesis using f(2,3) k by (intro exI [of _ "[]"] exI [of _ t'] exI [of _ r'] exI [of _ h']) simp
  next
    case far
    obtain t' r h' where f: "remove_far (ptr_of t) (other dn) (Ref b) root h = Some (ptr_of t', r, h')" "focus_at h' r [] t'" "short [] t'"
      "keeps (plug ((dn, p, cp, pd, mk dn y b RB_BLACK bd z) # rest) t) h t' h'"
      using remove_tail_far [OF t far] ok by auto
    have "remove_tail (ptr_of t) (other dn) (Ref b) root h = Some (ptr_of t', r, h')" using N far f(1) by (simp add: remove_tail_def)
    then show ?thesis using f(2-4) by (intro exI [of _ "[]"] exI [of _ t'] exI [of _ r] exI [of _ h']) simp
  qed
qed

lemma nonleaf_mk: "t \<noteq> Leaf \<Longrightarrow> \<exists>y b c d z. t = mk dir y b c d z"
  by (cases t; cases dir) auto

lemma remove_round_ok:
  assumes t: "focus_at h root fs t" and fs: "fs \<noteq> []" and c: "colour t = RB_BLACK" and sh: "short fs t"
  shows "\<exists>fs' t' r h'. remove_round (ptr_of t) (root, h) = Some (ptr_of t', r, h') \<and> focus_at h' r fs' t' \<and> short fs' t' \<and>
    keeps (plug fs t) h (plug fs' t') h' \<and> (fs' = [] \<or> colour t' = RB_RED \<or> length fs' < length fs)"
proof -
  obtain dn p cp pd sib rest where f: "fs = (dn, p, cp, pd, sib) # rest" using fs by (cases fs) auto
  have s: "rbt t" "rbt sib" "bh sib = bh t + 1" "cinv rest (bh t + 1 + (if cp = RB_BLACK then 1 else 0))"
    "cp = RB_RED \<Longrightarrow> colour sib = RB_BLACK \<and> topc rest = RB_BLACK" using sh c by (auto simp: short_def f)
  have "sib \<noteq> Leaf" using s(3) by auto
  then obtain y b cs bd z where b: "sib = mk dn y b cs bd z" using nonleaf_mk by blast
  note N = nephews [OF focus_tree [OF t [unfolded f b]]]
  obtain l where l: "child_of h (Ref p) RB_LEFT = Some l" "side (ptr_of t = l) = other dn" using N(8) by blast
  note par = focus_parent [OF t [unfolded f]]
  show ?thesis
  proof (cases cs)
    case RB_BLACK
    have bb: "sib = mk dn y b RB_BLACK bd z" using b RB_BLACK by simp
    have "rbt y" "rbt z" "bh y = bh t" "bh z = bh t" using s(2,3) by (auto simp: bb)
    then obtain fs' t' r h' where r: "remove_tail (ptr_of t) (other dn) (Ref b) root h = Some (ptr_of t', r, h')" "focus_at h' r fs' t'" "short fs' t'"
      "keeps (plug fs t) h (plug fs' t') h'" "fs' = [] \<or> fs' = rest \<and> colour t' = cp"
      using remove_tail_ok [OF t [unfolded f bb]] s c unfolding f bb by blast
    have "remove_round (ptr_of t) (root, h) = Some (ptr_of t', r, h')"
      using par l N RB_BLACK r(1) by (simp add: remove_round_parts)
    then show ?thesis using r(2-5) f by (intro exI [of _ fs'] exI [of _ t'] exI [of _ r] exI [of _ h']) auto
  next
    case RB_RED
    have bb: "sib = mk dn y b RB_RED bd z" using b RB_RED by simp
    have cp: "cp = RB_BLACK" using s(5) by (cases cp) (auto simp: bb)
    have yz: "rbt y" "rbt z" "bh y = bh t + 1" "bh z = bh t + 1" "colour y = RB_BLACK" "colour z = RB_BLACK" using s(2,3) by (auto simp: bb)
    let ?fs1 = "(dn, p, RB_RED, pd, y) # (dn, b, RB_BLACK, bd, z) # rest"
    obtain r1 h1 where h1: "remove_red (ptr_of t) (other dn) (Ref b) root h = Some (ptr_of y, r1, h1)" "focus_at h1 r1 ?fs1 t"
      "inside (plug fs t) h h1" using remove_red_ok [OF t [unfolded f bb]] unfolding f bb by blast
    have "y \<noteq> Leaf" using yz(3) by auto
    then obtain u e ed v where y: "y = mk dn u e RB_BLACK ed v" using nonleaf_mk [of y dn] yz(5) by auto
    have uv: "rbt u" "rbt v" "bh u = bh t" "bh v = bh t" using yz(1,3) by (auto simp: y)
    have "cinv ((dn, b, RB_BLACK, bd, z) # rest) (bh t + 1 + (if RB_RED = RB_BLACK then 1 else 0))" using yz s(4) cp by simp
    then obtain fs' t' r h' where r: "remove_tail (ptr_of t) (other dn) (Ref e) r1 h1 = Some (ptr_of t', r, h')" "focus_at h' r fs' t'" "short fs' t'"
      "keeps (plug ?fs1 t) h1 (plug fs' t') h'" "fs' = [] \<or> colour t' = RB_RED"
      using remove_tail_ok [OF h1(2) [unfolded y]] s(1) c uv unfolding y by auto
    have "remove_round (ptr_of t) (root, h) = Some (ptr_of t', r, h')"
      using par l N RB_RED h1(1) r(1) y by (simp add: remove_round_parts)
    moreover have "keeps (plug fs t) h (plug ?fs1 t) h1"
      using h1(3) unfolding keeps_def by (cases dn) (simp_all add: f bb inorder_plug plug_addrs Un_ac insert_commute)
    ultimately show ?thesis using r(2,3,5) keeps_trans r(4) by (intro exI [of _ fs'] exI [of _ t'] exI [of _ r] exI [of _ h']) blast
  qed
qed

section \<open>The loop\<close>

lemma black_below_ok:
  assumes "focus_at h root fs t"
  shows "black_below (ptr_of t) root h = Some (fs \<noteq> [] \<and> colour t = RB_BLACK)"
proof -
  have t: "tree_at h root (plug fs t)" "rep (cells h) (par fs) t" using assms by (auto simp: focus_at_def tree_at_def plug_rep)
  show ?thesis
  proof (cases "fs = []")
    case True
    then show ?thesis using t by (simp add: black_below_def tree_at_def)
  next
    case False
    obtain i where "i \<in> set (faddrs fs)" "root = Ref i" using root_in_path [OF False, of t] t(1) by (auto simp: tree_at_def)
    moreover have "distinct (faddrs fs @ addrs t)" "0 \<notin> set (faddrs fs)" using t(1) by (auto simp: tree_at_def plug_addrs)
    moreover from calculation have "i \<noteq> 0" by metis
    ultimately have "ptr_of t \<noteq> root" by (cases t) (auto simp: RB_NIL_def)
    then show ?thesis using color_of_tree [OF t] False by (simp add: black_below_def)
  qed
qed

lemma remove_loop_ok:
  assumes "focus_at h root fs t" "short fs t"
  shows "\<exists>fs' t' r h'. remove_loop (ptr_of t) root h = Some (ptr_of t', r, h') \<and> focus_at h' r fs' t' \<and> short fs' t' \<and>
    keeps (plug fs t) h (plug fs' t') h' \<and> (fs' = [] \<or> colour t' = RB_RED)"
  using assms
proof (induction "if colour t = RB_RED then 0 else length fs" arbitrary: fs t root h rule: less_induct)
  case less
  note bb = black_below_ok [OF less.prems(1)]
  show ?case
  proof (cases "fs \<noteq> [] \<and> colour t = RB_BLACK")
    case False
    then have "remove_loop (ptr_of t) root h = Some (ptr_of t, root, h)" using bb by (subst remove_loop.simps) auto
    moreover have "fs = [] \<or> colour t = RB_RED" using False by (cases "colour t") auto
    ultimately show ?thesis using less.prems by (intro exI [of _ fs] exI [of _ t] exI [of _ root] exI [of _ h]) (simp add: keeps_def)
  next
    case True
    obtain fs1 t1 r1 h1 where r: "remove_round (ptr_of t) (root, h) = Some (ptr_of t1, r1, h1)" "focus_at h1 r1 fs1 t1" "short fs1 t1"
      "keeps (plug fs t) h (plug fs1 t1) h1" "fs1 = [] \<or> colour t1 = RB_RED \<or> length fs1 < length fs"
      using remove_round_ok [OF less.prems(1) _ _ less.prems(2)] True by blast
    have "(if colour t1 = RB_RED then 0 else length fs1) < (if colour t = RB_RED then 0 else length fs)" using r(5) True by auto
    from less.hyps [OF this r(2,3)] obtain fs' t' r' h' where l: "remove_loop (ptr_of t1) r1 h1 = Some (ptr_of t', r', h')" "focus_at h' r' fs' t'"
      "short fs' t'" "keeps (plug fs1 t1) h1 (plug fs' t') h'" "fs' = [] \<or> colour t' = RB_RED" by blast
    have "remove_loop (ptr_of t) root h = Some (ptr_of t', r', h')" using bb True r(1) l(1) by (subst remove_loop.simps) simp
    then show ?thesis using l(2,3,5) keeps_trans [OF r(4) l(4)] by blast
  qed
qed

lemma plug_colour: "fs \<noteq> [] \<Longrightarrow> cinv fs n \<Longrightarrow> colour (plug fs t) = RB_BLACK"
proof (induction fs arbitrary: n t)
  case (Cons f fs)
  obtain dir a c d sib where f: "f = (dir, a, c, d, sib)" by (cases f)
  show ?case
  proof (cases "fs = []")
    case True
    then have "c \<noteq> RB_RED" using Cons.prems(2) by (auto simp: f)
    then show ?thesis using True by (simp add: f)
  next
    case False
    then show ?thesis using Cons.IH [of "n + (if c = RB_BLACK then 1 else 0)"] Cons.prems(2) by (simp add: f)
  qed
qed simp

lemma remove_fixup_ok:
  assumes "focus_at h root fs t" "short fs t"
  shows "\<exists>r h' t'. remove_fixup root (ptr_of t) h = Some (r, h') \<and> tree_at h' r t' \<and> rbt t' \<and> colour t' = RB_BLACK \<and> keeps (plug fs t) h t' h'"
proof -
  obtain fs1 t1 r h1 where l: "remove_loop (ptr_of t) root h = Some (ptr_of t1, r, h1)" "focus_at h1 r fs1 t1" "short fs1 t1"
    "keeps (plug fs t) h (plug fs1 t1) h1" "fs1 = [] \<or> colour t1 = RB_RED" using remove_loop_ok [OF assms] by blast
  show ?thesis
  proof (cases t1)
    case Leaf
    then have fs1: "fs1 = []" using l(5) by simp
    have "tree_at h1 r Leaf" using focus_tree [OF l(2)] by (simp add: fs1 Leaf)
    moreover from this obtain q where "cells h1 0 = Some (sentinel\<lparr>rb_parent := q\<rparr>)" by (auto simp: tree_at_def)
    then have "set_color RB_NIL RB_BLACK h1 = Some h1"
      by (simp add: set_color_def RB_NIL_def sentinel_def fun_upd_idem)
    moreover have "remove_loop (ptr_of t) root h = Some (RB_NIL, r, h1)" using l(1) Leaf by simp
    ultimately show ?thesis using l(4) unfolding remove_fixup_def by (intro exI [of _ r] exI [of _ h1] exI [of _ Leaf]) (simp add: fs1 Leaf)
  next
    case (Node x a c d y)
    then have t1: "t1 = mk RB_LEFT x a c d y" by simp
    let ?t' = "plug fs1 (black_root t1)"
    obtain h' where h': "set_color (Ref a) RB_BLACK h1 = Some h'" "tree_at h' r ?t'" "inside (plug fs1 t1) h1 h'"
      using set_color_node [OF focus_tree [OF l(2), unfolded t1], of RB_BLACK] by (auto simp: t1)
    have "remove_fixup root (ptr_of t) h = Some (r, h')" using l(1) h'(1) by (simp add: remove_fixup_def Node)
    moreover have "rbt ?t' \<and> colour ?t' = RB_BLACK"
    proof (cases "fs1 = []")
      case False
      then have "bh (black_root t1) = bh t1 + 1" using l(5) by (auto simp: Node)
      then show ?thesis using l(3) plug_colour [OF False] by (auto simp: short_def intro: rbt_plug)
    qed (use l(3) in \<open>simp add: short_def\<close>)
    moreover have "keeps (plug fs1 t1) h1 ?t' h'" using h'(3) by (simp add: keeps_def inorder_plug plug_addrs)
    ultimately show ?thesis using h'(2) keeps_trans [OF l(4)] by blast
  qed
qed

section \<open>Taking a node out\<close>

lemma addrs_plug: "a \<in> set (addrs t) \<Longrightarrow> \<exists>fs l c d r. t = plug fs (Node l a c d r)"
proof (induction t)
  case (Node l b c d r)
  consider "b = a" | "a \<in> set (addrs l)" | "a \<in> set (addrs r)" using Node.prems by auto
  then show ?case
  proof cases
    case 1
    then show ?thesis by (intro exI [of _ "[]"]) auto
  next
    case 2
    then obtain fs l' c' d' r' where "l = plug fs (Node l' a c' d' r')" using Node.IH(1) by blast
    then have "Node l b c d r = plug (fs @ [(RB_LEFT, b, c, d, r)]) (Node l' a c' d' r')" by (simp add: plug_append)
    then show ?thesis by blast
  next
    case 3
    then obtain fs l' c' d' r' where "r = plug fs (Node l' a c' d' r')" using Node.IH(2) by blast
    then have "Node l b c d r = plug (fs @ [(RB_RIGHT, b, c, d, l)]) (Node l' a c' d' r')" by (simp add: plug_append)
    then show ?thesis by blast
  qed
qed simp

lemma ptr_nil: "0 \<notin> set (addrs t) \<Longrightarrow> ptr_of t = RB_NIL \<longleftrightarrow> t = Leaf"
  by (cases t) (auto simp: RB_NIL_def)

lemma leftmost_ok:
  assumes "rep (cells h) q t" "t \<noteq> Leaf" "0 \<notin> set (addrs t)"
  shows "\<exists>gs i c d r. leftmost (ptr_of t) h = Some (Ref i) \<and> t = plug gs (Node Leaf i c d r) \<and> before gs = []"
  using assms
proof (induction t arbitrary: q)
  case (Node l a c d r)
  have a: "child_of h (Ref a) RB_LEFT = Some (ptr_of l)" using Node.prems(1) by simp
  show ?case
  proof (cases "l = Leaf")
    case True
    then have "leftmost (Ref a) h = Some (Ref a)" using a by (subst leftmost.simps) simp
    then show ?thesis using True by (intro exI [of _ "[]"]) auto
  next
    case False
    then obtain gs i c' d' r' where g: "leftmost (ptr_of l) h = Some (Ref i)" "l = plug gs (Node Leaf i c' d' r')" "before gs = []"
      using Node.IH(1) [of "Ref a"] Node.prems by auto
    have "leftmost (Ref a) h = Some (Ref i)" using a g(1) False ptr_nil [of l] Node.prems(3) by (subst leftmost.simps) simp
    then show ?thesis using g(2,3)
      by (intro exI [of _ "gs @ [(RB_LEFT, a, c, d, r)]"]) (auto simp: plug_append before_append)
  qed
qed simp

text \<open>The node \<open>i\<close> has at most one child, \<open>s\<close>, which takes its place.\<close>

lemma splice_ok:
  assumes t: "tree_at h root (plug fs (Node xl i ci di xr))" and one: "xl = Leaf \<or> xr = Leaf"
  defines "s \<equiv> if xl = Leaf then xr else xl"
  shows "\<exists>xn h1 h2. cells h i = Some xn \<and> child (side (child_left xn = RB_NIL)) xn = ptr_of s \<and> rb_parent xn = par fs \<and> rb_color xn = ci \<and>
    set_parent (ptr_of s) (par fs) h = Some h1 \<and> parent_of h1 (Ref i) = Some (par fs) \<and>
    (if par fs \<noteq> Null then do { l \<leftarrow> child_of h1 (par fs) RB_LEFT; h' \<leftarrow> set_child (par fs) (side (Ref i \<noteq> l)) (ptr_of s) h1; Some (root, h') }
     else Some (ptr_of s, h1)) = Some (ptr_of (plug fs s), h2) \<and>
    cells h2 i = Some xn \<and> rb_data xn = di \<and> focus_at h2 (ptr_of (plug fs s)) fs s \<and> brk h2 = brk h \<and>
    (\<forall>j. j \<notin> insert 0 (set (addrs (plug fs (Node xl i ci di xr)))) \<longrightarrow> cells h2 j = cells h j)"
proof -
  have t': "tree_at h root (plug fs (mk RB_LEFT xl i ci di xr))" using t by simp
  note F = tree_at_focus [OF t']
  let ?xn = "mkn RB_LEFT (par fs) (ptr_of xl) (ptr_of xr) ci di"
  have sn: "rep (cells h) (Ref i) s" "distinct (faddrs fs @ i # addrs s)" "0 \<notin> set (addrs s)" "set (addrs s) \<subseteq> set (addrs xl) \<union> set (addrs xr)"
    using F one by (auto simp: s_def)
  obtain q0 where z: "cells h 0 = Some (sentinel\<lparr>rb_parent := q0\<rparr>)" using t by (auto simp: tree_at_def)
  define H1 where "H1 = (if s = Leaf then (cells h)(0 \<mapsto> sentinel\<lparr>rb_parent := par fs\<rparr>) else reparent (par fs) s (cells h))"
  define h1 where "h1 = h\<lparr>cells := H1\<rparr>"
  define h2 where "h2 = h1\<lparr>cells := rechild (ptr_of s) fs (cells h1)\<rparr>"
  have fs0: "0 \<notin> set (faddrs fs)" "i \<notin> set (faddrs fs)" "i \<notin> set (addrs s)" "i \<noteq> 0" "set (faddrs fs) \<inter> set (addrs s) = {}"
    using F sn(2) by auto
  have s1: "set_parent (ptr_of s) (par fs) h = Some h1"
    using sn(1) z by (cases s) (simp_all add: set_parent_def h1_def H1_def RB_NIL_def)
  have H1: "H1 j = cells h j" if "j \<noteq> 0" "j \<notin> set (addrs s)" for j using that by (simp add: H1_def)
  have r1: "repf H1 fs (Ref i)"
  proof -
    have "repf H1 fs (Ref i) \<longleftrightarrow> repf (cells h) fs (Ref i)" using fs0 H1 by (intro repf_cong) (metis disjoint_iff)
    then show ?thesis using F(4) by simp
  qed
  have c1: "cells h1 i = Some ?xn" using H1 [of i] fs0 F(1) by (simp add: h1_def)
  have run: "(if par fs \<noteq> Null then do { l \<leftarrow> child_of h1 (par fs) RB_LEFT; h' \<leftarrow> set_child (par fs) (side (Ref i \<noteq> l)) (ptr_of s) h1; Some (root, h') }
     else Some (ptr_of s, h1)) = Some (ptr_of (plug fs s), h2)"
  proof (cases fs)
    case (Cons f fs')
    obtain dp p c d sib where f: "f = (dp, p, c, d, sib)" by (cases f)
    have p: "cells h1 p = Some (mkn dp (par fs') (Ref i) (ptr_of sib) c d)" using r1 by (simp add: Cons f h1_def)
    have "Ref i \<noteq> ptr_of sib" using fs0 by (cases sib) (auto simp: Cons f RB_NIL_def)
    moreover have "root = ptr_of (plug fs s)" using t ptr_plug [of fs s "Node xl i ci di xr"] by (simp add: tree_at_def Cons)
    ultimately show ?thesis using p by (cases dp) (simp_all add: Cons f side_def set_child_def h2_def)
  qed (simp add: h2_def)
  have rs: "rep H1 (par fs) s" using sn reparent_rep by (auto simp: H1_def)
  have "rep (cells h2) Null (plug fs s)" unfolding plug_rep h2_def h1_def
    using rechild_repf [OF r1, of "ptr_of s"] rs fs0(5) F(5) by simp
  moreover have z1: "\<exists>q. H1 0 = Some (sentinel\<lparr>rb_parent := q\<rparr>)" using z sn(3) by (auto simp: H1_def)
  moreover have "distinct (addrs (plug fs s))" "0 \<notin> set (addrs (plug fs s))" "set (addrs (plug fs s)) \<subseteq> set (addrs (plug fs (Node xl i ci di xr)))"
    using sn fs0 by (auto simp: plug_addrs)
  ultimately have t2: "tree_at h2 (ptr_of (plug fs s)) (plug fs s)" using t fs0(1) unfolding tree_at_def by (auto simp: h2_def h1_def)
  have "parent_of h2 (ptr_of s) = Some (par fs)"
  proof (cases "s = Leaf")
    case True
    then show ?thesis using fs0(1) by (simp add: parent_of_def RB_NIL_def h2_def h1_def H1_def)
  next
    case False
    have "rep (cells h2) (par fs) s" using t2 by (simp add: tree_at_def plug_rep)
    then show ?thesis using parent_of_tree [OF _ False] by blast
  qed
  then have "focus_at h2 (ptr_of (plug fs s)) fs s" using t2 by (simp add: focus_at_def)
  moreover have "cells h2 j = cells h j" if "j \<notin> insert 0 (set (addrs (plug fs (Node xl i ci di xr))))" for j
    using that H1 [of j] sn(4) by (auto simp: plug_addrs h2_def h1_def)
  moreover have "cells h2 i = Some ?xn" using c1 fs0(2) by (simp add: h2_def)
  moreover have "child (side (child_left ?xn = RB_NIL)) ?xn = ptr_of s" using F(7) ptr_nil [of xl] by (simp add: side_def s_def)
  ultimately show ?thesis using F(1) s1 c1 run
    by (intro exI [of _ ?xn] exI [of _ h1] exI [of _ h2]) (auto simp: h2_def h1_def)
qed

end
