(* ===== verification/Rb_Props.thy ===== *)
theory Rb_Props
  imports Rb_Remove
begin

text \<open>
  The red-black trees as maps. \<open>rb_ok key h root F m\<close> says that the tree below \<open>root\<close> occupies the nodes \<open>F\<close> of the heap, that
  its parent pointers, order, colours and black heights are right, and that it holds the map \<open>m\<close> from keys to data.
\<close>

section \<open>Trees as maps\<close>

definition rb_ok :: "(nat \<Rightarrow> u64) \<Rightarrow> rb_heap \<Rightarrow> rb_ptr \<Rightarrow> nat set \<Rightarrow> (u64 \<rightharpoonup> nat) \<Rightarrow> bool" where
  "rb_ok key h root F m \<longleftrightarrow> (\<exists>t. tree_at h root t \<and> rbt t \<and> colour t = RB_BLACK \<and> ordered key (inorder t) \<and>
     F = set (addrs t) \<and> m = rb_map key (inorder t))"

lemma rb_map_key: "rb_map key xs k = Some d \<Longrightarrow> key d = k \<and> d \<in> set xs"
  by (auto simp: rb_map_def dest: map_of_SomeD)

lemma rb_map_insert:
  assumes "ordered key (xs @ ys)" "\<forall>x \<in> set xs. key d < key x" "\<forall>y \<in> set ys. key y < key d"
  shows "ordered key (xs @ d # ys)" "rb_map key (xs @ d # ys) = (rb_map key (xs @ ys))(key d \<mapsto> d)"
proof -
  have "ordered key xs \<and> ordered key ys \<and> (\<forall>x \<in> set xs. \<forall>y \<in> set ys. key y < key x)" using assms(1) by (simp add: ordered_append)
  then show "ordered key (xs @ d # ys)" using assms by (simp add: ordered_split)
  have "rb_map key xs (key d) = None" using assms(2) by (intro rb_map_None) force
  then show "rb_map key (xs @ d # ys) = (rb_map key (xs @ ys))(key d \<mapsto> d)"
    by (auto simp: rb_map_append map_add_def fun_eq_iff split: option.split)
qed

section \<open>Linking a new node\<close>

lemma link_node:
  assumes t: "tree_at h root (plug fs Leaf)" and dir: "leads key (key d) fs"
  defines "b \<equiv> brk h"
  defines "h1 \<equiv> snd (new_node d (par fs) h)"
  shows "\<exists>root1 h2. (if par fs \<noteq> Null then do {
      pn \<leftarrow> node h1 (par fs); h' \<leftarrow> set_child (par fs) (side (key d < key (rb_data pn))) (Ref b) h1; Some (root, h') } else Some (Ref b, h1))
      = Some (root1, h2) \<and> tree_at h2 root1 (plug fs (Node Leaf b RB_RED d Leaf)) \<and> brk h2 = Suc (brk h) \<and>
    (\<forall>i. i \<notin> insert b (set (faddrs fs)) \<longrightarrow> cells h2 i = cells h i)"
proof -
  let ?T = "plug fs (Node Leaf b RB_RED d Leaf)" and ?root = "if fs = [] then Ref b else root"
  have nw: "b \<notin> set (faddrs fs)" "b \<noteq> 0" using t by (auto simp: tree_at_def plug_addrs b_def)
  let ?H1 = "(cells h)(b \<mapsto> \<lparr>rb_parent = par fs, child_left = RB_NIL, child_right = RB_NIL, rb_color = RB_RED, rb_data = d\<rparr>)"
  have h1: "cells h1 = ?H1" "brk h1 = Suc b" by (simp_all add: h1_def new_node_def b_def)
  define h2 where "h2 = h1\<lparr>cells := rechild (Ref b) fs (cells h1)\<rparr>"
  have rp: "repf (cells h) fs RB_NIL" "distinct (faddrs fs)" using t by (simp_all add: tree_at_def plug_rep plug_addrs)
  have run: "(if par fs \<noteq> Null then do {
      pn \<leftarrow> node h1 (par fs); h' \<leftarrow> set_child (par fs) (side (key d < key (rb_data pn))) (Ref b) h1; Some (root, h') } else Some (Ref b, h1))
      = Some (?root, h2)"
  proof (cases fs)
    case (Cons f fs')
    obtain dp p c pd sib where f: "f = (dp, p, c, pd, sib)" by (cases f)
    have p: "cells h1 p = Some (mkn dp (par fs') RB_NIL (ptr_of sib) c pd)" unfolding h1 using rp(1) nw(1) by (simp add: Cons f)
    have "\<forall>(dir, a, c, e, sib) \<in> set fs. dir = side (key d < key e)" using dir unfolding leads_def by (rule conjunct1)
    then have "side (key d < key pd) = dp" unfolding Cons f by simp
    then have "set_child (Ref p) (side (key d < key pd)) (Ref b) h1 = Some h2" using upd_node_at [OF p] by (simp add: set_child_def h2_def Cons f)
    then show ?thesis using p by (simp add: Cons f)
  qed (simp add: h2_def)
  have "repf (cells h1) fs RB_NIL" using rp(1) nw by (simp add: h1)
  then have "rep (cells h2) Null ?T" unfolding plug_rep using rechild_repf [OF _ rp(2)] nw by (simp add: h2_def h1)
  moreover have "?root = ptr_of ?T" using t ptr_plug [of fs Leaf "Node Leaf b RB_RED d Leaf"] by (simp add: tree_at_def)
  moreover have "\<exists>q. cells h2 0 = Some (sentinel\<lparr>rb_parent := q\<rparr>)" using t nw by (simp add: h2_def h1 tree_at_def plug_addrs)
  ultimately have "tree_at h2 ?root ?T" using t nw h1(2) unfolding tree_at_def by (auto simp: plug_addrs b_def h2_def)
  moreover have "\<forall>i. i \<notin> insert b (set (faddrs fs)) \<longrightarrow> cells h2 i = cells h i" by (simp add: h2_def h1)
  moreover have "brk h2 = Suc (brk h)" by (simp add: h2_def h1 b_def)
  ultimately show ?thesis using run by blast
qed

lemma tree_insert_new:
  assumes ok: "rb_ok key h root F m" and new: "m (key d) = None"
  shows "\<exists>root' h'. tree_insert key d root h = Some (None, root', h') \<and> rb_ok key h' root' (insert (brk h) F) (m(key d \<mapsto> d)) \<and>
    brk h' = Suc (brk h) \<and> (\<forall>i. i \<notin> insert (brk h) F \<longrightarrow> cells h' i = cells h i)"
proof -
  obtain t where t: "tree_at h root t" "rbt t" "colour t = RB_BLACK" "ordered key (inorder t)" "F = set (addrs t)" "m = rb_map key (inorder t)"
    using ok by (auto simp: rb_ok_def)
  have "rep (cells h) (par []) t" "0 \<notin> set (addrs t)" "root = ptr_of t" using t(1) by (simp_all add: tree_at_def)
  from insert_pos_ok [OF this(1,2) t(4), of "key d"] this(3) new t(6) obtain fs where
    pos: "insert_pos key (key d) root Null h = Some (Inr (par fs))" and fs: "plug fs Leaf = t" "leads key (key d) fs" by auto
  let ?b = "brk h" let ?nd = "Node Leaf ?b RB_RED d Leaf"
  from link_node [OF t(1) [folded fs(1)] fs(2)] obtain root1 h2 where
    l: "(if par fs \<noteq> Null then do { pn \<leftarrow> node (snd (new_node d (par fs) h)) (par fs);
        h' \<leftarrow> set_child (par fs) (side (key d < key (rb_data pn))) (Ref ?b) (snd (new_node d (par fs) h)); Some (root, h') }
      else Some (Ref ?b, snd (new_node d (par fs) h))) = Some (root1, h2)"
    "tree_at h2 root1 (plug fs ?nd)" "brk h2 = Suc ?b" "\<forall>i. i \<notin> insert ?b (set (faddrs fs)) \<longrightarrow> cells h2 i = cells h i" by blast
  have "cinv fs (bh Leaf)" using rbt_unplug [of fs Leaf] t(2,3) fs(1) by simp
  then obtain root' h' t' where f: "insert_fixup root1 (Ref ?b) h2 = Some (root', h')" "tree_at h' root' t'" "rbt t'" "colour t' = RB_BLACK"
    "keeps (plug fs ?nd) h2 t' h'" using insert_fixup_ok [OF l(2)] by auto
  have "new_node d (par fs) h = (Ref ?b, snd (new_node d (par fs) h))" by (simp add: new_node_def)
  then have run: "tree_insert key d root h = Some (None, root', h')" using pos l(1) f(1)
    unfolding tree_insert_def by (cases "par fs = Null") (auto simp: Let_def split: prod.splits bind_splits)
  have "inorder t = before fs @ after fs" "inorder t' = before fs @ d # after fs"
    using fs(1) f(5) inorder_plug [of fs Leaf] inorder_plug [of fs ?nd] by (auto simp: keeps_def)
  note x = this
  have y: "\<forall>x \<in> set (before fs). key d < key x" "\<forall>x \<in> set (after fs). key x < key d" using fs(2) by (simp_all add: leads_def)
  have "set (addrs t') = insert ?b F" using f(5) fs(1) t(5) plug_addrs(1) [of fs Leaf] by (auto simp: keeps_def plug_addrs)
  moreover have "ordered key (inorder t')" "rb_map key (inorder t') = m(key d \<mapsto> d)" using rb_map_insert [OF _ y] x t(4,6) by simp_all
  ultimately have "rb_ok key h' root' (insert ?b F) (m(key d \<mapsto> d))" unfolding rb_ok_def using f(2-4) by metis
  moreover have "\<forall>i. i \<notin> insert ?b F \<longrightarrow> cells h' i = cells h i" "brk h' = Suc ?b"
    using l(3,4) f(5) t(5) fs(1) plug_addrs(1) [of fs Leaf] by (auto simp: keeps_def inside_def plug_addrs)
  ultimately show ?thesis using run by blast
qed

lemma tree_insert_dup:
  assumes "rb_ok key h root F m" "m (key d) = Some d0"
  shows "tree_insert key d root h = Some (Some d0, root, h)"
proof -
  obtain t where t: "tree_at h root t" "ordered key (inorder t)" "m = rb_map key (inorder t)" using assms(1) by (auto simp: rb_ok_def)
  have "rep (cells h) (par []) t" "0 \<notin> set (addrs t)" "root = ptr_of t" using t(1) by (simp_all add: tree_at_def)
  from insert_pos_ok [OF this(1,2) t(2), of "key d"] this(3) assms(2) t(3) show ?thesis by (simp add: tree_insert_def)
qed

lemma tree_find_ok:
  assumes "rb_ok key h root F m"
  shows "tree_find key root k h = Some (m k)"
proof -
  obtain t where t: "tree_at h root t" "ordered key (inorder t)" "m = rb_map key (inorder t)" using assms by (auto simp: rb_ok_def)
  have "rep (cells h) Null t" "0 \<notin> set (addrs t)" "root = ptr_of t" using t(1) by (simp_all add: tree_at_def)
  with find_node_ok [OF this(1,2) t(2), of k] t(3) show ?thesis
    by (auto simp: tree_find_def split: option.splits)
qed

section \<open>Unlinking a node\<close>

lemma frame_data:
  "cinv (gs @ (dir, a, c, d, l) # fs) n \<longleftrightarrow> cinv (gs @ (dir, a, c, d', l) # fs) n"
  "topc (gs @ (dir, a, c, d, l) # fs) = topc (gs @ (dir, a, c, d', l) # fs)"
  "par (gs @ (dir, a, c, d, l) # fs) = par (gs @ (dir, a, c, d', l) # fs)"
proof (induction gs arbitrary: n)
  case (Cons f gs)
  obtain e b c' d'' s where f: "f = (e, b, c', d'', s)" by (cases f)
  { case 1 show ?case using Cons.IH(1,2) by (simp add: f) }
  { case 2 show ?case by (simp add: f) }
  { case 3 show ?case by (simp add: f) }
qed simp_all

lemma unlink_node_ok:
  assumes f: "focus_at h root fs s" and s: "s = (if xl = Leaf then xr else xl)" "xl = Leaf \<or> xr = Leaf"
    and ok: "rbt (Node xl i ci di xr)" "cinv fs (bh (Node xl i ci di xr))" "ci = RB_RED \<Longrightarrow> fs \<noteq> []"
  shows "\<exists>root' h' t'. (if ci = RB_BLACK then remove_fixup root (ptr_of s) h else Some (root, h)) = Some (root', h') \<and> tree_at h' root' t' \<and>
    rbt t' \<and> colour t' = RB_BLACK \<and> keeps (plug fs s) h t' h'"
proof (cases "ci = RB_BLACK")
  case True
  have "rbt s" "bh s + 1 = bh (Node xl i ci di xr)" using ok(1) s True by auto
  then have "short fs s" using ok(2) by (simp add: short_def)
  from remove_fixup_ok [OF f this] show ?thesis using True by simp
next
  case False
  then have c: "ci = RB_RED" by (cases ci) auto
  have "bh s = 0" "rbt s" "colour s = RB_BLACK" using ok(1) s c by (auto split: if_splits)
  then have "s = Leaf" by (cases s) auto
  moreover have "cinv fs 0" using ok(1,2) s c \<open>bh s = 0\<close> by (auto split: if_splits)
  ultimately have "rbt (plug fs s)" "colour (plug fs s) = RB_BLACK" using rbt_plug [of s fs] plug_colour [OF ok(3) [OF c]] by auto
  then show ?thesis using False focus_tree [OF f] by (auto simp: keeps_def)
qed

lemma free_node_ok:
  assumes "tree_at h root t" "cells h i = Some n" "i \<notin> set (addrs t)" "i \<noteq> 0"
  shows "\<exists>h'. free_node (Ref i) h = Some h' \<and> tree_at h' root t \<and> brk h' = brk h \<and> (\<forall>j. j \<noteq> i \<longrightarrow> cells h' j = cells h j)"
proof -
  let ?h = "h\<lparr>cells := (cells h)(i := None)\<rparr>"
  have "tree_at ?h root t" using assms by (simp add: tree_at_def)
  then show ?thesis using assms(2) by (intro exI [of _ ?h]) (simp add: free_node_def)
qed

lemma rb_map_remove:
  assumes "ordered key (xs @ d # ys)"
  shows "ordered key (xs @ ys)" "rb_map key (xs @ ys) = (rb_map key (xs @ d # ys))(key d := None)"
proof -
  have o: "\<forall>x \<in> set xs. key d < key x" "\<forall>y \<in> set ys. key y < key d" "ordered key xs" "ordered key ys" "\<forall>x \<in> set xs. \<forall>y \<in> set ys. key y < key x"
    using assms by (simp_all add: ordered_split)
  then show "ordered key (xs @ ys)" by (simp add: ordered_append)
  have "rb_map key xs (key d) = None" "rb_map key ys (key d) = None" using o by (auto intro!: rb_map_None)
  then show "rb_map key (xs @ ys) = (rb_map key (xs @ d # ys))(key d := None)"
    by (auto simp: rb_map_append map_add_def fun_eq_iff split: option.split)
qed

text \<open>The node that is taken out: the node of the key, or the first one to its right.\<close>

lemma victim:
  assumes t: "tree_at h root (plug fs (Node l a c d r))"
  shows "\<exists>i gs xl ci di xr. (if ptr_of l = RB_NIL \<or> ptr_of r = RB_NIL then Some (Ref a) else leftmost (ptr_of r) h) = Some (Ref i) \<and>
    (xl = Leaf \<or> xr = Leaf) \<and>
    (i = a \<and> gs = [] \<and> Node l a c d r = Node xl i ci di xr \<or>
     i \<noteq> a \<and> (\<exists>hs. gs = hs @ [(RB_RIGHT, a, c, d, l)] \<and> r = plug hs (Node xl i ci di xr) \<and> before hs = [] \<and> xl = Leaf))"
proof -
  have F: "rep (cells h) (Ref a) r" "0 \<notin> set (addrs l)" "0 \<notin> set (addrs r)" "a \<notin> set (addrs r)"
    using t by (auto simp: tree_at_def plug_rep plug_addrs)
  note n = ptr_nil [OF F(2)] ptr_nil [OF F(3)]
  show ?thesis
  proof (cases "l = Leaf \<or> r = Leaf")
    case True
    then show ?thesis using n by (intro exI [of _ a] exI [of _ "[]"] exI [of _ l] exI [of _ c] exI [of _ d] exI [of _ r]) auto
  next
    case False
    then obtain hs i ci di xr where g: "leftmost (ptr_of r) h = Some (Ref i)" "r = plug hs (Node Leaf i ci di xr)" "before hs = []"
      using leftmost_ok [OF F(1) _ F(3)] by blast
    have "i \<in> set (addrs r)" by (simp add: g(2) plug_addrs)
    then have "i \<noteq> a" using F(4) by auto
    then show ?thesis using False g n
      by (intro exI [of _ i] exI [of _ "hs @ [(RB_RIGHT, a, c, d, l)]"] exI [of _ Leaf] exI [of _ ci] exI [of _ di] exI [of _ xr]) auto
  qed
qed

lemma copy_data:
  assumes f: "focus_at h root (hs @ (dir, a, c, d, l) # fs) s"
  shows "\<exists>h'. upd_node (\<lambda>m. m\<lparr>rb_data := e\<rparr>) (Ref a) h = Some h' \<and> focus_at h' root (hs @ (dir, a, c, e, l) # fs) s \<and>
    inside (plug (hs @ (dir, a, c, d, l) # fs) s) h h'"
proof -
  have "tree_at h root (plug fs (mk dir (plug hs s) a c d l))" using focus_tree [OF f] by (simp add: plug_append)
  from node_update [OF this, of "\<lambda>m. m\<lparr>rb_data := e\<rparr>" c e] obtain h' where h': "upd_node (\<lambda>m. m\<lparr>rb_data := e\<rparr>) (Ref a) h = Some h'"
    "tree_at h' root (plug fs (mk dir (plug hs s) a c e l))" "inside (plug fs (mk dir (plug hs s) a c d l)) h h'" by auto
  then show ?thesis using focus_step [OF f, of h' root "hs @ (dir, a, c, e, l) # fs"] frame_data(3) by (auto simp: plug_append)
qed

text \<open>The data phase of a removal: the path after the copy, and what the sequence of the data becomes.\<close>

lemma copy_phase:
  assumes f: "focus_at h root (gs @ fs) s" and s: "s = (if xl = Leaf then xr else xl)" "xl = Leaf \<or> xr = Leaf"
    and v: "i = a \<and> gs = [] \<and> Node l a c d r = Node xl i ci di xr \<or>
      i \<noteq> a \<and> (\<exists>hs. gs = hs @ [(RB_RIGHT, a, c, d, l)] \<and> r = plug hs (Node xl i ci di xr) \<and> before hs = [] \<and> xl = Leaf)"
  shows "\<exists>fs' h'. (if Ref i \<noteq> Ref a then upd_node (\<lambda>m. m\<lparr>rb_data := di\<rparr>) (Ref a) h else Some h) = Some h' \<and> focus_at h' root fs' s \<and>
    inside (plug (gs @ fs) s) h h' \<and> set (addrs (plug fs' s)) = set (addrs (plug (gs @ fs) s)) \<and> (\<forall>n. cinv fs' n \<longleftrightarrow> cinv (gs @ fs) n) \<and> (fs' = [] \<longleftrightarrow> gs @ fs = []) \<and>
    inorder (plug fs' s) = before fs @ inorder l @ inorder r @ after fs"
  using v
proof (elim disjE conjE exE)
  assume "i = a" "gs = []" "Node l a c d r = Node xl i ci di xr"
  then show ?thesis using f s by (intro exI [of _ fs] exI [of _ h]) (auto simp: inorder_plug)
next
  fix hs assume i: "i \<noteq> a" and g: "gs = hs @ [(RB_RIGHT, a, c, d, l)]" and r: "r = plug hs (Node xl i ci di xr)" "before hs = []" "xl = Leaf"
  have "focus_at h root (hs @ (RB_RIGHT, a, c, d, l) # fs) s" using f g by simp
  from copy_data [OF this, of di] obtain h' where h': "upd_node (\<lambda>m. m\<lparr>rb_data := di\<rparr>) (Ref a) h = Some h'"
    "focus_at h' root (hs @ (RB_RIGHT, a, c, di, l) # fs) s" "inside (plug (hs @ (RB_RIGHT, a, c, d, l) # fs) s) h h'" by blast
  have "inorder (plug (hs @ (RB_RIGHT, a, c, di, l) # fs) s) = before fs @ inorder l @ inorder r @ after fs"
    using s r by (simp add: inorder_plug before_append after_append)
  moreover have "\<forall>n. cinv (hs @ (RB_RIGHT, a, c, di, l) # fs) n \<longleftrightarrow> cinv (gs @ fs) n" using frame_data(1) g by simp
  ultimately show ?thesis using h' i g
    by (intro exI [of _ "hs @ (RB_RIGHT, a, c, di, l) # fs"] exI [of _ h']) (simp add: plug_append plug_addrs)
qed

lemma tree_remove_steps:
  assumes "find_node key root k h = Some (Ref a)" "a \<noteq> 0" and nn: "cells h a = Some nn"
    and "(if child_left nn = RB_NIL \<or> child_right nn = RB_NIL then Some (Ref a) else leftmost (child_right nn) h) = Some (Ref i)"
    and xn: "cells h i = Some xn" and nd: "child (side (child_left xn = RB_NIL)) xn = nd" and "set_parent nd (rb_parent xn) h = Some h1" "parent_of h1 (Ref i) = Some q"
    and "(if q \<noteq> Null then do { l \<leftarrow> child_of h1 q RB_LEFT; h' \<leftarrow> set_child q (side (Ref i \<noteq> l)) nd h1; Some (root, h') } else Some (nd, h1)) = Some (root1, h2)"
    and x2: "cells h2 i = Some xn2"
    and "(if Ref i \<noteq> Ref a then upd_node (\<lambda>m. m\<lparr>rb_data := rb_data xn2\<rparr>) (Ref a) h2 else Some h2) = Some h3" "color_of h3 (Ref i) = Some xc"
    and "(if xc = RB_BLACK then remove_fixup root1 nd h3 else Some (root1, h3)) = Some (root2, h4)" "free_node (Ref i) h4 = Some h5"
  shows "tree_remove key k root h = Some (Some (rb_data nn), root2, h5)"
proof -
  have "(Ref a = Null \<or> Ref a = RB_NIL) = False" using assms(2) by (simp add: RB_NIL_def)
  then show ?thesis
    by (simp only: tree_remove_def assms node_Ref Option.bind.simps(2) Let_def prod.case option.map(2) if_False)
qed

lemma tree_remove_present:
  assumes ok: "rb_ok key h root F m" and k: "m k = Some d"
  shows "\<exists>root' h' i. tree_remove key k root h = Some (Some d, root', h') \<and> i \<in> F \<and> rb_ok key h' root' (F - {i}) (m(k := None)) \<and>
    brk h' = brk h \<and> (\<forall>j. j \<notin> insert 0 F \<longrightarrow> cells h' j = cells h j)"
proof -
  obtain t where t: "tree_at h root t" "rbt t" "colour t = RB_BLACK" "ordered key (inorder t)" "F = set (addrs t)" "m = rb_map key (inorder t)"
    using ok by (auto simp: rb_ok_def)
  have T: "rep (cells h) Null t" "0 \<notin> set (addrs t)" "root = ptr_of t" using t(1) by (simp_all add: tree_at_def)
  obtain a n where a: "find_node key root k h = Some (Ref a)" "a \<in> set (addrs t)" "cells h a = Some n" "rb_data n = d"
    using find_node_ok [OF T(1,2) t(4), of k] k t(6) T(3) by auto
  obtain fs l c d' r where p: "t = plug fs (Node l a c d' r)" using addrs_plug [OF a(2)] by blast
  have na: "cells h a = Some \<lparr>rb_parent = par fs, child_left = ptr_of l, child_right = ptr_of r, rb_color = c, rb_data = d\<rparr>" "d' = d"
    using T(1) a(3,4) by (auto simp: p plug_rep)
  note p = p [unfolded na(2)]
  obtain i gs xl ci di xr where v: "(if ptr_of l = RB_NIL \<or> ptr_of r = RB_NIL then Some (Ref a) else leftmost (ptr_of r) h) = Some (Ref i)"
    "xl = Leaf \<or> xr = Leaf" "i = a \<and> gs = [] \<and> Node l a c d r = Node xl i ci di xr \<or>
     i \<noteq> a \<and> (\<exists>hs. gs = hs @ [(RB_RIGHT, a, c, d, l)] \<and> r = plug hs (Node xl i ci di xr) \<and> before hs = [] \<and> xl = Leaf)"
    using victim [OF t(1) [unfolded p]] by metis
  define s where "s = (if xl = Leaf then xr else xl)"
  have tp: "t = plug (gs @ fs) (Node xl i ci di xr)" using v(3) by (auto simp: p plug_append)
  obtain xn h1 h2 where sp: "cells h i = Some xn" "child (side (child_left xn = RB_NIL)) xn = ptr_of s" "rb_parent xn = par (gs @ fs)" "rb_color xn = ci"
    "set_parent (ptr_of s) (par (gs @ fs)) h = Some h1" "parent_of h1 (Ref i) = Some (par (gs @ fs))"
    "(if par (gs @ fs) \<noteq> Null then do { l \<leftarrow> child_of h1 (par (gs @ fs)) RB_LEFT; h' \<leftarrow> set_child (par (gs @ fs)) (side (Ref i \<noteq> l)) (ptr_of s) h1; Some (root, h') }
     else Some (ptr_of s, h1)) = Some (ptr_of (plug (gs @ fs) s), h2)"
    "cells h2 i = Some xn" "rb_data xn = di" "focus_at h2 (ptr_of (plug (gs @ fs) s)) (gs @ fs) s" "brk h2 = brk h"
    "\<forall>j. j \<notin> insert 0 (set (addrs t)) \<longrightarrow> cells h2 j = cells h j"
    using splice_ok [OF t(1) [unfolded tp] v(2)] unfolding s_def tp by blast
  obtain fs' h3 where cp: "(if Ref i \<noteq> Ref a then upd_node (\<lambda>m. m\<lparr>rb_data := di\<rparr>) (Ref a) h2 else Some h2) = Some h3"
    "focus_at h3 (ptr_of (plug (gs @ fs) s)) fs' s" "inside (plug (gs @ fs) s) h2 h3" "set (addrs (plug fs' s)) = set (addrs (plug (gs @ fs) s))"
    "\<forall>n. cinv fs' n \<longleftrightarrow> cinv (gs @ fs) n" "fs' = [] \<longleftrightarrow> gs @ fs = []" "inorder (plug fs' s) = before fs @ inorder l @ inorder r @ after fs"
    using copy_phase [OF sp(10) s_def v(2,3)] by blast
  have x: "i \<notin> set (addrs (plug (gs @ fs) s))" "i \<in> set (addrs t)" "i \<noteq> 0" "set (addrs (plug (gs @ fs) s)) = set (addrs t) - {i}"
    using t(1) v(2) by (auto simp: tp tree_at_def plug_addrs s_def)
  have c3: "cells h3 i = Some xn" using cp(3) x(1) sp(8) by (simp add: inside_def)
  note u = rbt_unplug [OF t(2) [unfolded tp] t(3) [unfolded tp]]
  have "rbt (Node xl i ci di xr)" "cinv fs' (bh (Node xl i ci di xr))" using u cp(5) by blast+
  moreover have "ci = RB_RED \<Longrightarrow> fs' \<noteq> []" using u cp(6) by (simp only: colour.simps) blast
  ultimately obtain root' h4 t' where
    fx: "(if ci = RB_BLACK then remove_fixup (ptr_of (plug (gs @ fs) s)) (ptr_of s) h3 else Some (ptr_of (plug (gs @ fs) s), h3)) = Some (root', h4)"
    "tree_at h4 root' t'" "rbt t'" "colour t' = RB_BLACK" "keeps (plug fs' s) h3 t' h4" using unlink_node_ok [OF cp(2) s_def v(2)] by blast
  have c4: "cells h4 i = Some xn" "i \<notin> set (addrs t')" using fx(5) c3 x(1) cp(4) by (auto simp: keeps_def inside_def)
  obtain h5 where h5: "free_node (Ref i) h4 = Some h5" "tree_at h5 root' t'" "brk h5 = brk h4" "\<forall>j. j \<noteq> i \<longrightarrow> cells h5 j = cells h4 j"
    using free_node_ok [OF fx(2) c4 x(3)] by blast
  have run: "tree_remove key k root h = Some (Some d, root', h5)"
  proof -
    have a0: "a \<noteq> 0" using a(2) T(2) by metis
    have pa: "set_parent (ptr_of s) (rb_parent xn) h = Some h1" and co: "color_of h3 (Ref i) = Some ci" using sp(3,4,5) c3 by simp_all
    have ch: "child_left n = ptr_of l" "child_right n = ptr_of r" using na(1) a(3) by simp_all
    from tree_remove_steps [OF a(1) a0 a(3) v(1) [folded ch] sp(1,2) pa sp(6,7,8) cp(1) [folded sp(9)] co fx(1) h5(1)] show ?thesis
      unfolding a(4) .
  qed
  have "inorder t = (before fs @ inorder l) @ d # (inorder r @ after fs)" "inorder t' = (before fs @ inorder l) @ inorder r @ after fs"
    using fx(5) cp(7) by (simp_all add: p inorder_plug keeps_def)
  moreover have "key d = k" using rb_map_key [of key "inorder t" k d] k t(6) by simp
  ultimately have "ordered key (inorder t')" "rb_map key (inorder t') = m(k := None)" using rb_map_remove t(4,6) by metis+
  moreover have "set (addrs t') = F - {i}" using fx(5) cp(4) x(4) t(5) by (simp add: keeps_def)
  ultimately have "rb_ok key h5 root' (F - {i}) (m(k := None))" unfolding rb_ok_def using h5(2) fx(3,4) by metis
  moreover have "cells h5 j = cells h j" if "j \<notin> insert 0 F" for j
    using that sp(12) cp(3,4) fx(5) h5(4) x(2,4) t(5) by (auto simp: keeps_def inside_def)
  moreover have "brk h5 = brk h" using sp(11) cp(3) fx(5) h5(3) by (simp add: keeps_def inside_def)
  ultimately show ?thesis using run x(2) t(5) by blast
qed

lemma tree_remove_absent:
  assumes "rb_ok key h root F m" "m k = None"
  shows "tree_remove key k root h = Some (None, root, h)"
proof -
  obtain t where t: "tree_at h root t" "ordered key (inorder t)" "m = rb_map key (inorder t)" using assms(1) by (auto simp: rb_ok_def)
  have "rep (cells h) Null t" "0 \<notin> set (addrs t)" "root = ptr_of t" using t(1) by (simp_all add: tree_at_def)
  with find_node_ok [OF this(1,2) t(2), of k] t(3) assms(2) show ?thesis by (simp add: tree_remove_def)
qed



section \<open>The contract\<close>

datatype tree_op = Insert nat | Remove u64

fun op_run :: "(nat \<Rightarrow> 'r \<Rightarrow> 'h \<Rightarrow> (nat option \<times> 'r \<times> 'h) option) \<Rightarrow> (u64 \<Rightarrow> 'r \<Rightarrow> 'h \<Rightarrow> (nat option \<times> 'r \<times> 'h) option) \<Rightarrow>
    tree_op list \<Rightarrow> 'r \<Rightarrow> 'h \<Rightarrow> (nat option list \<times> 'r \<times> 'h) option" where
  "op_run ins del [] r h = Some ([], r, h)"
| "op_run ins del (op # ops) r h = do {
     (x, r1, h1) \<leftarrow> (case op of Insert d \<Rightarrow> ins d r h | Remove k \<Rightarrow> del k r h);
     (xs, r2, h2) \<leftarrow> op_run ins del ops r1 h1;
     Some (x # xs, r2, h2)
   }"

text \<open>The same operations on a map: an insertion does not replace, and returns the data that is already there.\<close>

definition map_add_new :: "(nat \<Rightarrow> u64) \<Rightarrow> nat \<Rightarrow> (u64 \<rightharpoonup> nat) \<Rightarrow> u64 \<rightharpoonup> nat" where
  "map_add_new key d m = (if m (key d) = None then m(key d \<mapsto> d) else m)"

fun map_run :: "(nat \<Rightarrow> u64) \<Rightarrow> tree_op list \<Rightarrow> (u64 \<rightharpoonup> nat) \<Rightarrow> nat option list \<times> (u64 \<rightharpoonup> nat)" where
  "map_run key [] m = ([], m)"
| "map_run key (Insert d # ops) m =
     (let (xs, m') = map_run key ops (map_add_new key d m) in (m (key d) # xs, m'))"
| "map_run key (Remove k # ops) m = (let (xs, m') = map_run key ops (m(k := None)) in (m k # xs, m'))"

locale map_tree =
  fixes key :: "nat \<Rightarrow> u64"
    and ok :: "'h \<Rightarrow> 'r \<Rightarrow> (u64 \<rightharpoonup> nat) \<Rightarrow> bool"
    and ins :: "nat \<Rightarrow> 'r \<Rightarrow> 'h \<Rightarrow> (nat option \<times> 'r \<times> 'h) option"
    and del :: "u64 \<Rightarrow> 'r \<Rightarrow> 'h \<Rightarrow> (nat option \<times> 'r \<times> 'h) option"
    and find :: "'r \<Rightarrow> u64 \<Rightarrow> 'h \<Rightarrow> nat option option"
  assumes ins_ok: "ok h r m \<Longrightarrow> \<exists>r' h'. ins d r h = Some (m (key d), r', h') \<and> ok h' r' (map_add_new key d m)"
    and del_ok: "ok h r m \<Longrightarrow> \<exists>r' h'. del k r h = Some (m k, r', h') \<and> ok h' r' (m(k := None))"
    and find_ok: "ok h r m \<Longrightarrow> find r k h = Some (m k)"
begin

lemma run_ok: "ok h r m \<Longrightarrow> \<exists>r' h'. op_run ins del ops r h = Some (fst (map_run key ops m), r', h') \<and> ok h' r' (snd (map_run key ops m))"
proof (induction ops arbitrary: r h m)
  case (Cons op ops)
  show ?case
  proof (cases op)
    case (Insert d)
    obtain r1 h1 where s: "ins d r h = Some (m (key d), r1, h1)" "ok h1 r1 (map_add_new key d m)"
      using ins_ok [OF Cons.prems] by blast
    from Cons.IH [OF s(2)] s(1) show ?thesis by (auto simp: Insert case_prod_unfold Let_def)
  next
    case (Remove k)
    obtain r1 h1 where s: "del k r h = Some (m k, r1, h1)" "ok h1 r1 (m(k := None))" using del_ok [OF Cons.prems] by blast
    define m' where "m' = m(k := None)"
    have "map_run key (op # ops) m = (m k # fst (map_run key ops m'), snd (map_run key ops m'))"
      by (simp add: Remove m'_def case_prod_unfold Let_def)
    then show ?thesis using Cons.IH [OF s(2) [folded m'_def]] s(1) by (auto simp: Remove)
  qed
qed simp

lemma run_find:
  assumes "ok h r m"
  shows "\<exists>r' h'. op_run ins del ops r h = Some (fst (map_run key ops m), r', h') \<and> (\<forall>k. find r' k h' = Some (snd (map_run key ops m) k))"
  using run_ok [OF assms, of ops] find_ok by blast

end

interpretation rb: map_tree key "\<lambda>h root m. \<exists>F. rb_ok key h root F m" "tree_insert key" "tree_remove key" "tree_find key" for key
proof unfold_locales
  fix h root m d
  assume "\<exists>F. rb_ok key h root F m"
  then obtain F where F: "rb_ok key h root F m" by blast
  show "\<exists>r' h'. tree_insert key d root h = Some (m (key d), r', h') \<and> (\<exists>F. rb_ok key h' r' F (map_add_new key d m))"
  proof (cases "m (key d)")
    case None
    then have "map_add_new key d m = m(key d \<mapsto> d)" by (simp add: map_add_new_def)
    then show ?thesis unfolding None using tree_insert_new [OF F None] by metis
  next
    case (Some d0)
    then have "map_add_new key d m = m" by (simp add: map_add_new_def)
    then show ?thesis using tree_insert_dup [OF F Some] F Some by metis
  qed
next
  fix h root m k
  assume "\<exists>F. rb_ok key h root F m"
  then obtain F where F: "rb_ok key h root F m" by blast
  show "\<exists>r' h'. tree_remove key k root h = Some (m k, r', h') \<and> (\<exists>F. rb_ok key h' r' F (m(k := None)))"
  proof (cases "m k")
    case None
    then have "m(k := None) = m" by auto
    then show ?thesis using tree_remove_absent [OF F None] F None by metis
  next
    case (Some d)
    then show ?thesis using tree_remove_present [OF F Some] by metis
  qed
qed (auto intro: tree_find_ok)

text \<open>The heap with the sentinel alone.\<close>

definition rb_init :: rb_heap where
  "rb_init = \<lparr>cells = [0 \<mapsto> sentinel], brk = 1\<rparr>"

lemma rb_init_ok: "rb_ok key rb_init init_root_node {} Map.empty"
  unfolding rb_ok_def by (intro exI [of _ Leaf]) (auto simp: tree_at_def rb_init_def init_root_node_def ordered_def sentinel_def)

section \<open>Properties\<close>

text \<open>C2. Red-black trees are maps: from an empty tree, every sequence of insertions and removals runs to its end without a
  fault, each operation returns what it returns on the map from keys to data (an insertion the data already stored under the key, which it
  keeps, a removal the data it removes), and afterwards \<open>tree_find\<close> returns for every key what the map holds.\<close>

theorem rb_tree_refines_map:
  "\<exists>root h. op_run (tree_insert key) (tree_remove key) ops init_root_node rb_init = Some (fst (map_run key ops Map.empty), root, h) \<and>
    (\<forall>k. tree_find key root k h = Some (snd (map_run key ops Map.empty) k))"
  using rb_init_ok by (intro rb.run_find) blast





end
