(* ===== verification/Spec2Isabelle.thy ===== *)
theory Spec2Isabelle
  imports Frame_Props String_Props Slab_Props Rtc_Props Timer_Props Sched_Props Kevent_Props Lock_Props Mmu_Boot Vfs Rb_Props
begin

text \<open>
  A verification library for MunkOS, a kernel for x86-64 written in C. File names are relative to
  \<open>src/kernel/\<close>. Each part of the kernel is a shallow embedding: a structure of the code is a record, an
  enumeration a datatype, a function of the code a function from states to states. A panic, a failed assertion and the use
  of an invalid pointer are the result \<open>None\<close>; the option monad threads them. Loops are recursive
  functions with a termination proof, or partial functions to \<open>option\<close> where the pointers or counters could make
  them run forever; for these, the properties state that they return.

  \<^bold>\<open>Prelude.\<close> \<open>Kernel_Prelude\<close> has the types of pointers and machine words, \<open>kassert\<close> and the lemmas on options, lists and
  words that the components share. \<open>Linked_Lists\<close> has the locale \<open>link_heap\<close> of heaps with link fields, and the
  doubly linked lists over it, interpreted for the free lists of pages, the run queues and the lists of kevent nodes.

  \<^bold>\<open>Physical memory.\<close> \<open>Frame_Alloc\<close> is the buddy allocator (\<open>mm/frame_alloc.c\<close>): the array of \<open>struct page\<close> with its free
  lists and one bitmap per order. \<open>Early_Mem\<close> is the first-fit allocator that runs before it (\<open>mm/mem_init.c\<close>) and the
  initialisation of the buddy allocator from it. \<open>Frame_Spec\<close> is the abstract allocator, a list of free blocks per order;
  \<open>Frame_Refine\<close> proves that the lists and bitmaps of the code implement it, \<open>Frame_Init\<close> and \<open>Frame_Boot\<close> that booting
  establishes it. \<open>Frame_Contract\<close> is the interface for clients (locale \<open>frame_provider\<close>), and \<open>Frame_Props\<close> has the
  properties: blocks in use never overlap, no frame is lost, completeness, and the free counter that starts too low.

  \<^bold>\<open>Page tables.\<close> \<open>Mmu\<close> is \<open>arch/x86-64/mmu.c\<close>: table entries are 64-bit words in memory and new tables are frames of the
  buddy allocator. \<open>Mmu_Tables\<close> labels the frames that are tables with level and address prefix and proves the single steps
  of a walk; \<open>Mmu_Map\<close> has the mapping of single pages, \<open>Mmu_Range\<close> the five loops over a range, \<open>Mmu_Props\<close> the
  properties in terms of \<open>virt2phys\<close>, and \<open>Mmu_Boot\<close> the kernel page map that \<open>init_kpm\<close> builds. What the boot loader
  and the linker provide is collected in \<open>boot_ok\<close>. The number of free frames that suffices is three for each
  4 KiB that is mapped.

  \<^bold>\<open>Kernel heap.\<close> \<open>Slab\<close> is \<open>mm/slab.c\<close> over the frame allocator, \<open>Slab_Sizes\<close> the size classes, \<open>Slab_Props\<close> the properties
  of the sizes that \<open>kmalloc\<close> and \<open>krealloc\<close> use and of the way from a page back to its slab.

  \<^bold>\<open>Strings and paths.\<close> \<open>C_Memory\<close> and \<open>C_Strings\<close> are \<open>std/memory.c\<close> and \<open>std/string.c\<close> on a byte memory, \<open>Pathn\<close> is
  \<open>std/pathn.c\<close>; \<open>String_Props\<close> has their properties.

  \<^bold>\<open>Tasks.\<close> \<open>Tasks\<close> is the state of \<open>proc/scheduler.c\<close> and its operations, with the switch of \<open>task_switch.S\<close>.
  \<open>Run_Queues\<close> describes the run queues as lists, \<open>Sched_Spec\<close> and \<open>Sched_Steps\<close> the steps of the scheduler as an
  inductive relation, \<open>Sched_Props\<close> the properties of all reachable states. \<open>Kevents\<close> is \<open>misc/kevent.c\<close>, with its lists in
  \<open>Kevent_Lists\<close> and its properties in \<open>Kevent_Props\<close>. \<open>Locking\<close> and \<open>Lock_Props\<close> are \<open>std/locking.c\<close>, with spin locks
  as interleaved steps of the processors.

  \<^bold>\<open>Time.\<close> \<open>Timer_Heap\<close> and \<open>Timer_Queue\<close> are the timers of \<open>misc/time.c\<close>, a binary heap that implements a multiset
  of timers (locale \<open>timer_queue\<close>); \<open>Rtc\<close> is the clock of \<open>arch/x86-64/timers.c\<close>. \<open>Timer_Props\<close> and \<open>Rtc_Props\<close> have the properties.

  \<^bold>\<open>File systems.\<close> \<open>Rb_Tree\<close> is \<open>std/rbtree.c\<close>, nodes with parent pointers in a heap that all trees share with their
  sentinel. \<open>Rb_Shape\<close> relates a part of the heap to an inductive tree of nodes and proves what a rotation does to it; \<open>Rb_Insert\<close> and
  \<open>Rb_Remove\<close> follow the rounds of the two repair loops by cases on the colours, with the tree seen from the node that is
  repaired. \<open>Rb_Props\<close> concludes that the trees implement maps (locale \<open>map_tree\<close>, interpreted for the operations of the code), for
  any number of trees in one heap. \<open>Path_Cache\<close> is \<open>fs/pathncache.c\<close> over these trees, \<open>Ramfs\<close> is \<open>fs/ramfs.c\<close> and
  \<open>Vfs\<close> is \<open>fs/vfs.c\<close>, from path lookup and mounting to the start-up routine.

  \<^bold>\<open>Not modelled.\<close> Drivers and set-up code whose effect is on devices that are not in the sources: NVMe, PCI, ACPI, the
  interrupt controllers, the serial port and the keyboard, descriptor tables and the start of the other processors. Formatted output, the
  sanitizers and stack traces, which only report. \<open>kmain.c\<close>, which calls the initialisation routines in
  order. Within modelled files: functions that only print, \<open>rtc_handler\<close>, \<open>time_init\<close> and \<open>pit_init\<close>, which program
  the interrupt controller, and functions that are never called.
\<close>

end
